theory Spec2Isabelle
  imports Main "HOL-Library.Word" "HOL-Library.Monad_Syntax"
begin

unbundle bit_operations_syntax

section \<open>Lock-free resizable RCU hash table (rculfhash.c), sequential model\<close>

text \<open>
  The model follows \<^verbatim>\<open>src/rculfhash.c\<close> function by function, for a 64-bit
  \<^verbatim>\<open>unsigned long\<close> (\<^verbatim>\<open>CAA_BITS_PER_LONG == 64\<close>, \<^verbatim>\<open>MAX_TABLE_ORDER == 64\<close>).
  Sizes, hashes and bucket indexes are \<open>64 word\<close>; table orders and the results of
  \<^verbatim>\<open>fls\<close> never leave the range \<open>0..64\<close> and are \<open>nat\<close>.
  A function that can fail an \<^verbatim>\<open>assert\<close> or loop forever returns an \<open>option\<close>:
  \<open>None\<close> means that the call does not return normally.
\<close>

type_synonym ulong = "64 word"

subsection \<open>Constants\<close>

definition COUNT_COMMIT_ORDER :: nat where "COUNT_COMMIT_ORDER = 10"
definition CHAIN_LEN_TARGET :: "32 word" where "CHAIN_LEN_TARGET = 1"
definition CHAIN_LEN_RESIZE_THRESHOLD :: "32 word" where "CHAIN_LEN_RESIZE_THRESHOLD = 3"
definition MIN_TABLE_SIZE :: ulong where "MIN_TABLE_SIZE = 1"
definition MIN_PARTITION_PER_THREAD_ORDER :: nat where "MIN_PARTITION_PER_THREAD_ORDER = 12"
definition MIN_PARTITION_PER_THREAD :: ulong where
  "MIN_PARTITION_PER_THREAD = push_bit MIN_PARTITION_PER_THREAD_ORDER 1"
definition CDS_LFHT_AUTO_RESIZE :: int where "CDS_LFHT_AUTO_RESIZE = 1"
definition ENOENT :: int where "ENOENT = 2"

text \<open>
  \<^verbatim>\<open>nr_cpus_mask\<close>: the build without \<^verbatim>\<open>HAVE_SCHED_GETCPU\<close> and \<^verbatim>\<open>HAVE_SYSCONF\<close>
  (\<^verbatim>\<open>config.h\<close> is not among the sources), where the per-CPU counters are absent,
  \<^verbatim>\<open>ht_count_add\<close> and \<^verbatim>\<open>ht_count_del\<close> are empty and resizes run in the calling thread.
\<close>

definition nr_cpus_mask :: int where "nr_cpus_mask = - 2"

subsection \<open>Bit utilities\<close>

text \<open>The macros \<^verbatim>\<open>R2\<close>, \<^verbatim>\<open>R4\<close>, \<^verbatim>\<open>R6\<close> that spell out \<^verbatim>\<open>BitReverseTable256\<close>.\<close>

definition R2 :: "nat \<Rightarrow> nat list" where
  "R2 n = [n, n + 2 * 64, n + 1 * 64, n + 3 * 64]"

definition R4 :: "nat \<Rightarrow> nat list" where
  "R4 n = R2 n @ R2 (n + 2 * 16) @ R2 (n + 1 * 16) @ R2 (n + 3 * 16)"

definition R6 :: "nat \<Rightarrow> nat list" where
  "R6 n = R4 n @ R4 (n + 2 * 4) @ R4 (n + 1 * 4) @ R4 (n + 3 * 4)"

definition BitReverseTable256 :: "8 word list" where
  "BitReverseTable256 = map of_nat (R6 0 @ R6 2 @ R6 1 @ R6 3)"

definition bit_reverse_u8 :: "8 word \<Rightarrow> 8 word" where
  "bit_reverse_u8 v = BitReverseTable256 ! unat v"

definition bit_reverse_u64 :: "64 word \<Rightarrow> 64 word" where
  "bit_reverse_u64 v =
     push_bit 56 (ucast (bit_reverse_u8 (ucast v))) OR
     push_bit 48 (ucast (bit_reverse_u8 (ucast (drop_bit 8 v)))) OR
     push_bit 40 (ucast (bit_reverse_u8 (ucast (drop_bit 16 v)))) OR
     push_bit 32 (ucast (bit_reverse_u8 (ucast (drop_bit 24 v)))) OR
     push_bit 24 (ucast (bit_reverse_u8 (ucast (drop_bit 32 v)))) OR
     push_bit 16 (ucast (bit_reverse_u8 (ucast (drop_bit 40 v)))) OR
     push_bit 8 (ucast (bit_reverse_u8 (ucast (drop_bit 48 v)))) OR
     ucast (bit_reverse_u8 (ucast (drop_bit 56 v)))"

definition bit_reverse_ulong :: "ulong \<Rightarrow> ulong" where
  "bit_reverse_ulong v = bit_reverse_u64 v"

text \<open>
  \<^verbatim>\<open>fls_u64\<close> and \<^verbatim>\<open>fls_u32\<close>, the portable versions. The pair is the C function's
  two locals \<^verbatim>\<open>x\<close> and \<^verbatim>\<open>r\<close>; one \<open>fls_step\<close> is one of its \<^verbatim>\<open>if\<close> statements.
\<close>

definition fls_step :: "'a::len word \<Rightarrow> nat \<Rightarrow> 'a word \<times> nat \<Rightarrow> 'a word \<times> nat" where
  "fls_step m k = (\<lambda>(x, r). if x AND m = 0 then (push_bit k x, r - k) else (x, r))"

definition fls_u64 :: "64 word \<Rightarrow> nat" where
  "fls_u64 x =
     (if x = 0 then 0
      else snd (fls_step 0x8000000000000000 1
          (fls_step 0xC000000000000000 2
          (fls_step 0xF000000000000000 4
          (fls_step 0xFF00000000000000 8
          (fls_step 0xFFFF000000000000 16
          (fls_step 0xFFFFFFFF00000000 32 (x, 64))))))))"

definition fls_u32 :: "32 word \<Rightarrow> nat" where
  "fls_u32 x =
     (if x = 0 then 0
      else snd (fls_step 0x80000000 1
          (fls_step 0xC0000000 2
          (fls_step 0xF0000000 4
          (fls_step 0xFF000000 8
          (fls_step 0xFFFF0000 16 (x, 32)))))))"

text \<open>
  \<^verbatim>\<open>fls_ulong\<close> tests the misspelt macro \<^verbatim>\<open>CAA_BITS_PER_lONG\<close>, which the preprocessor
  reads as 0: the 64-bit branch is the one compiled.
\<close>

definition fls_ulong :: "ulong \<Rightarrow> nat" where
  "fls_ulong x = fls_u64 x"

definition get_count_order_u32 :: "32 word \<Rightarrow> int" where
  "get_count_order_u32 x = (if x = 0 then - 1 else int (fls_u32 (x - 1)))"

definition get_count_order_ulong :: "ulong \<Rightarrow> int" where
  "get_count_order_ulong x = (if x = 0 then - 1 else int (fls_ulong (x - 1)))"

text \<open>
  The specification's \<open>msb_index\<close>: the position of the most significant set bit,
  counted from 1, and 0 for 0.
\<close>

fun msb_index :: "nat \<Rightarrow> nat" where
  "msb_index n = (if n = 0 then 0 else Suc (msb_index (n div 2)))"

declare msb_index.simps [simp del]

subsection \<open>Nodes, flagged pointers and the table\<close>

text \<open>
  A node is either a dummy node of a level array (\<open>Bucket i j\<close> is the address
  \<^verbatim>\<open>&ht->t.tbl[i]->nodes[j]\<close>) or a node the caller owns. A node pointer carries the two
  low flag bits; \<open>unflagged = None\<close> is \<^verbatim>\<open>NULL\<close>, the \<^verbatim>\<open>END_VALUE\<close>. A function
  parameter that the source asserts to be neither flagged nor \<^verbatim>\<open>NULL\<close> has type \<open>addr\<close>.
\<close>

datatype addr = Bucket nat ulong | User nat

record flagged =
  unflagged :: "addr option"
  REMOVED_FLAG :: bool
  DUMMY_FLAG :: bool

type_synonym key = "8 word list"

record cds_lfht_node =
  p_next :: flagged
  p_reverse_hash :: ulong
  node_key :: key

datatype add_mode = ADD_DEFAULT | ADD_UNIQUE | ADD_REPLACE

text \<open>
  \<^verbatim>\<open>struct cds_lfht\<close> with its \<^verbatim>\<open>struct rcu_table t\<close>. Three fields are the model's own:
  \<open>mem\<close> is the memory that holds the nodes (the level arrays \<^verbatim>\<open>t.tbl[i]\<close> and the
  callers' nodes), \<open>call_rcu_queue\<close> counts the \<^verbatim>\<open>do_resize_cb\<close> work items handed to
  \<^verbatim>\<open>cds_lfht_call_rcu\<close> that have not run yet, and \<open>heap_free\<close> is the number of bytes that
  \<^verbatim>\<open>calloc\<close> can still provide. The RCU callbacks (read lock, synchronize, thread online
  and offline) and the resize mutex have no effect on a single thread and are left out; the
  \<^verbatim>\<open>malloc\<close> of the work item that goes into the queue of \<^verbatim>\<open>call_rcu\<close> is taken to
  succeed.
\<close>

record cds_lfht =
  mem :: "addr \<Rightarrow> cds_lfht_node"
  t_size :: ulong
  t_resize_target :: ulong
  t_resize_initiated :: bool
  hash_fct :: "key \<Rightarrow> ulong \<Rightarrow> ulong"
  compare_fct :: "key \<Rightarrow> key \<Rightarrow> int"
  hash_seed :: ulong
  flags :: int
  in_progress_resize :: "32 word"
  in_progress_destroy :: "32 word"
  ht_count :: ulong
  call_rcu_queue :: nat
  heap_free :: nat

record cds_lfht_iter =
  iter_node :: "addr option"
  iter_next :: flagged

definition assert :: "bool \<Rightarrow> unit option" where
  "assert c = (if c then Some () else None)"

definition plain :: "addr option \<Rightarrow> flagged" where
  "plain a = \<lparr>unflagged = a, REMOVED_FLAG = False, DUMMY_FLAG = False\<rparr>"

definition clear_flag :: "flagged \<Rightarrow> flagged" where
  "clear_flag node = plain (unflagged node)"

definition is_removed :: "flagged \<Rightarrow> bool" where
  "is_removed node = REMOVED_FLAG node"

definition flag_removed :: "flagged \<Rightarrow> flagged" where
  "flag_removed node = node\<lparr>REMOVED_FLAG := True\<rparr>"

definition is_dummy :: "flagged \<Rightarrow> bool" where
  "is_dummy node = DUMMY_FLAG node"

definition flag_dummy :: "flagged \<Rightarrow> flagged" where
  "flag_dummy node = node\<lparr>DUMMY_FLAG := True\<rparr>"

definition get_end :: flagged where
  "get_end = plain None"

definition is_end :: "flagged \<Rightarrow> bool" where
  "is_end node = (clear_flag node = plain None)"

text \<open>Reading and writing the fields of a node in memory.\<close>

definition next_of :: "cds_lfht \<Rightarrow> addr \<Rightarrow> flagged" where
  "next_of ht a = p_next (mem ht a)"

definition rhash :: "cds_lfht \<Rightarrow> addr \<Rightarrow> ulong" where
  "rhash ht a = p_reverse_hash (mem ht a)"

definition set_next :: "cds_lfht \<Rightarrow> addr \<Rightarrow> flagged \<Rightarrow> cds_lfht" where
  "set_next ht a v = ht\<lparr>mem := (mem ht)(a := (mem ht a)\<lparr>p_next := v\<rparr>)\<rparr>"

definition set_reverse_hash :: "cds_lfht \<Rightarrow> addr \<Rightarrow> ulong \<Rightarrow> cds_lfht" where
  "set_reverse_hash ht a v = ht\<lparr>mem := (mem ht)(a := (mem ht a)\<lparr>p_reverse_hash := v\<rparr>)\<rparr>"

text \<open>\<^verbatim>\<open>uatomic_cmpxchg(&a->p.next, old, new)\<close>: returns the value it found.\<close>

definition uatomic_cmpxchg :: "cds_lfht \<Rightarrow> addr \<Rightarrow> flagged \<Rightarrow> flagged \<Rightarrow> cds_lfht \<times> flagged" where
  "uatomic_cmpxchg ht a old new =
     (let cur = next_of ht a in if cur = old then (set_next ht a new, cur) else (ht, cur))"

subsection \<open>The lazy resize trigger\<close>

text \<open>\<^verbatim>\<open>_uatomic_max\<close> on \<^verbatim>\<open>ht->t.resize_target\<close>; \<open>old1\<close> is the value read last.\<close>

partial_function (option) uatomic_max :: "cds_lfht \<Rightarrow> ulong \<Rightarrow> ulong \<Rightarrow> (cds_lfht \<times> ulong) option" where
  "uatomic_max ht v old1 =
     (let old2 = old1 in
      if old2 \<ge> v then Some (ht, old2)
      else
        let cur = t_resize_target ht;
            ht' = (if cur = old2 then ht\<lparr>t_resize_target := v\<rparr> else ht)
        in if cur \<noteq> old2 then uatomic_max ht' v cur else Some (ht', v))"

definition resize_target_update :: "cds_lfht \<Rightarrow> ulong \<Rightarrow> int \<Rightarrow> (cds_lfht \<times> ulong) option" where
  "resize_target_update ht sz growth_order =
     uatomic_max ht (push_bit (nat growth_order) sz) (t_resize_target ht)"

definition resize_target_update_count :: "cds_lfht \<Rightarrow> ulong \<Rightarrow> cds_lfht" where
  "resize_target_update_count ht count = ht\<lparr>t_resize_target := max count MIN_TABLE_SIZE\<rparr>"

definition cds_lfht_resize_lazy :: "cds_lfht \<Rightarrow> ulong \<Rightarrow> int \<Rightarrow> cds_lfht option" where
  "cds_lfht_resize_lazy ht sz growth = do {
     (ht1, target_size) \<leftarrow> resize_target_update ht sz growth;
     if \<not> t_resize_initiated ht1 \<and> sz < target_size then
       let ht2 = ht1\<lparr>in_progress_resize := in_progress_resize ht1 + 1\<rparr> in
       if in_progress_destroy ht2 \<noteq> 0 then
         Some (ht2\<lparr>in_progress_resize := in_progress_resize ht2 - 1\<rparr>)
       else
         Some (ht2\<lparr>call_rcu_queue := call_rcu_queue ht2 + 1, t_resize_initiated := True\<rparr>)
     else Some ht1
   }"

definition check_resize :: "cds_lfht \<Rightarrow> ulong \<Rightarrow> 32 word \<Rightarrow> cds_lfht option" where
  "check_resize ht sz chain_len =
     (if flags ht AND CDS_LFHT_AUTO_RESIZE = 0 then Some ht
      else
        let count = ht_count ht in
        if count \<ge> push_bit COUNT_COMMIT_ORDER 1 then Some ht
        else if chain_len \<ge> CHAIN_LEN_RESIZE_THRESHOLD then
          cds_lfht_resize_lazy ht sz
            (get_count_order_u32 (chain_len - (CHAIN_LEN_TARGET - 1)))
        else Some ht)"

text \<open>\<^verbatim>\<open>ht_count_add\<close> and \<^verbatim>\<open>ht_count_del\<close> of the build without per-CPU counters.\<close>

definition ht_count_add :: "cds_lfht \<Rightarrow> ulong \<Rightarrow> cds_lfht" where
  "ht_count_add ht sz = ht"

definition ht_count_del :: "cds_lfht \<Rightarrow> ulong \<Rightarrow> cds_lfht" where
  "ht_count_del ht sz = ht"

subsection \<open>The bucket index\<close>

definition MAX_TABLE_ORDER :: nat where "MAX_TABLE_ORDER = 64"

definition lookup_bucket :: "ulong \<Rightarrow> ulong \<Rightarrow> addr option" where
  "lookup_bucket sz hash = do {
     assert (sz > 0);
     let index = hash AND (sz - 1);
         order = fls_ulong index
     in Some (Bucket order (index AND (if order = 0 then 0 else push_bit (order - 1) 1 - 1)))
   }"

subsection \<open>Bucket garbage collection, replace, add and delete\<close>

text \<open>
  Each \<^verbatim>\<open>for (;;)\<close> loop is a recursive function on the loop's variables. The inner
  loop of \<^verbatim>\<open>_cds_lfht_gc_bucket\<close> either returns from the function or breaks with
  \<^verbatim>\<open>iter_prev\<close>, \<^verbatim>\<open>iter\<close> and \<^verbatim>\<open>next\<close>.
\<close>

datatype gc_scan = Gc_return | Gc_unlink addr flagged flagged

partial_function (option) gc_bucket_scan ::
  "cds_lfht \<Rightarrow> addr \<Rightarrow> addr \<Rightarrow> flagged \<Rightarrow> gc_scan option" where
  "gc_bucket_scan ht node iter_prev iter =
     (case unflagged (clear_flag iter) of
        None \<Rightarrow> Some Gc_return
      | Some c \<Rightarrow>
          if rhash ht c > rhash ht node then Some Gc_return
          else
            let next = next_of ht c in
            if is_removed next then Some (Gc_unlink iter_prev iter next)
            else gc_bucket_scan ht node c next)"

partial_function (option) cds_lfht_gc_bucket' :: "cds_lfht \<Rightarrow> addr \<Rightarrow> addr \<Rightarrow> cds_lfht option" where
  "cds_lfht_gc_bucket' ht dummy node = do {
     let iter_prev = dummy;
     let iter = next_of ht iter_prev;
     assert (rhash ht iter_prev \<le> rhash ht node);
     assert (dummy \<noteq> node);
     r \<leftarrow> gc_bucket_scan ht node iter_prev iter;
     case r of
       Gc_return \<Rightarrow> Some ht
     | Gc_unlink iter_prev iter next \<Rightarrow> do {
         assert (\<not> is_removed iter);
         let new_next = (if is_dummy iter then flag_dummy (clear_flag next) else clear_flag next);
         let new_next = (if is_removed iter then flag_removed new_next else new_next);
         let (ht1, old) = uatomic_cmpxchg ht iter_prev iter new_next;
         cds_lfht_gc_bucket' ht1 dummy node
       }
   }"

text \<open>
  The flagging loop of \<^verbatim>\<open>_cds_lfht_replace\<close>; the result says whether the node was
  flagged (\<^verbatim>\<open>flagged = 1\<close>) or the loop left by \<^verbatim>\<open>goto end\<close>.
\<close>

partial_function (option) replace_flag ::
  "cds_lfht \<Rightarrow> addr \<Rightarrow> flagged \<Rightarrow> addr \<Rightarrow> (cds_lfht \<times> bool) option" where
  "replace_flag ht old_node old_next new_node =
     (if is_removed old_next then Some (ht, False)
      else do {
        assert (\<not> is_dummy old_next);
        assert (Some new_node \<noteq> unflagged (clear_flag old_next));
        let ht1 = set_next ht new_node (clear_flag old_next);
        let (ht2, ret_next) =
          uatomic_cmpxchg ht1 old_node old_next (flag_removed (plain (Some new_node)));
        if ret_next = old_next then Some (ht2, True)
        else replace_flag ht2 old_node ret_next new_node
      })"

definition cds_lfht_replace' ::
  "cds_lfht \<Rightarrow> ulong \<Rightarrow> addr option \<Rightarrow> flagged \<Rightarrow> addr \<Rightarrow> (cds_lfht \<times> int) option" where
  "cds_lfht_replace' ht sz old_node old_next new_node =
     (case old_node of
        None \<Rightarrow> Some (ht, - ENOENT)
      | Some old \<Rightarrow> do {
          assert (new_node \<noteq> old);
          (ht1, flagged) \<leftarrow> replace_flag ht old old_next new_node;
          if flagged then do {
            dummy \<leftarrow> lookup_bucket sz (bit_reverse_ulong (rhash ht1 old));
            ht2 \<leftarrow> cds_lfht_gc_bucket' ht1 dummy new_node;
            assert (is_removed (next_of ht2 old));
            Some (ht2, 0)
          }
          else Some (ht1, - ENOENT)
        })"

text \<open>
  The inner loop of \<^verbatim>\<open>_cds_lfht_add\<close> leaves by one of its three \<^verbatim>\<open>goto\<close>s or, with
  \<^verbatim>\<open>ADD_UNIQUE\<close>, by returning the node it found: \<open>Add_match\<close> is the branch of the key
  comparison, with \<^verbatim>\<open>clear_flag(iter)\<close> and \<^verbatim>\<open>next\<close>.
\<close>

datatype add_scan = Add_insert addr flagged | Add_gc addr flagged flagged | Add_match addr flagged

partial_function (option) cds_lfht_add_scan ::
  "cds_lfht \<Rightarrow> ulong \<Rightarrow> addr \<Rightarrow> add_mode \<Rightarrow> bool \<Rightarrow> 32 word \<Rightarrow> addr \<Rightarrow> flagged
     \<Rightarrow> (cds_lfht \<times> add_scan) option" where
  "cds_lfht_add_scan ht sz node mode dummy chain_len iter_prev iter =
     (case unflagged (clear_flag iter) of
        None \<Rightarrow> Some (ht, Add_insert iter_prev iter)
      | Some c \<Rightarrow>
          if rhash ht c > rhash ht node then Some (ht, Add_insert iter_prev iter)
          else if dummy \<and> rhash ht c = rhash ht node then Some (ht, Add_insert iter_prev iter)
          else
            let next = next_of ht c in
            if is_removed next then Some (ht, Add_gc iter_prev iter next)
            else if (mode = ADD_UNIQUE \<or> mode = ADD_REPLACE)
                \<and> \<not> is_dummy next
                \<and> rhash ht c = rhash ht node
                \<and> compare_fct ht (node_key (mem ht node)) (node_key (mem ht c)) = 0
            then Some (ht, Add_match c next)
            else if rhash ht iter_prev \<noteq> rhash ht c \<and> \<not> is_dummy next then do {
              ht1 \<leftarrow> check_resize ht sz (chain_len + 1);
              cds_lfht_add_scan ht1 sz node mode dummy (chain_len + 1) c next
            }
            else cds_lfht_add_scan ht sz node mode dummy chain_len c next)"

partial_function (option) cds_lfht_add_retry ::
  "cds_lfht \<Rightarrow> ulong \<Rightarrow> addr \<Rightarrow> add_mode \<Rightarrow> bool \<Rightarrow> addr \<Rightarrow> (cds_lfht \<times> addr option) option" where
  "cds_lfht_add_retry ht sz node mode dummy lookup = do {
     let iter_prev = lookup;
     let iter = next_of ht iter_prev;
     assert (rhash ht iter_prev \<le> rhash ht node);
     (ht1, r) \<leftarrow> cds_lfht_add_scan ht sz node mode dummy 0 iter_prev iter;
     case r of
       Add_insert iter_prev iter \<Rightarrow> do {
         assert (Some node \<noteq> unflagged (clear_flag iter));
         assert (\<not> is_removed iter);
         assert (iter_prev \<noteq> node);
         let ht2 = set_next ht1 node
                     (if \<not> dummy then clear_flag iter else flag_dummy (clear_flag iter));
         let new_node = (if is_dummy iter then flag_dummy (plain (Some node)) else plain (Some node));
         let (ht3, old) = uatomic_cmpxchg ht2 iter_prev iter new_node;
         if old \<noteq> iter then cds_lfht_add_retry ht3 sz node mode dummy lookup
         else Some (ht3, if mode = ADD_REPLACE then None else Some node)
       }
     | Add_match c next \<Rightarrow>
         if mode = ADD_UNIQUE then Some (ht1, Some c)
         else do {
           (ht2, ret) \<leftarrow> cds_lfht_replace' ht1 sz (Some c) next node;
           if ret = 0 then Some (ht2, Some c)
           else cds_lfht_add_retry ht2 sz node mode dummy lookup
         }
     | Add_gc iter_prev iter next \<Rightarrow> do {
         assert (\<not> is_removed iter);
         let new_next = (if is_dummy iter then flag_dummy (clear_flag next) else clear_flag next);
         let (ht2, old) = uatomic_cmpxchg ht1 iter_prev iter new_next;
         cds_lfht_add_retry ht2 sz node mode dummy lookup
       }
   }"

definition cds_lfht_add' ::
  "cds_lfht \<Rightarrow> ulong \<Rightarrow> addr \<Rightarrow> add_mode \<Rightarrow> bool \<Rightarrow> (cds_lfht \<times> addr option) option" where
  "cds_lfht_add' ht sz node mode dummy =
     (if sz = 0 then do {
        assert dummy;
        Some (set_next ht node (flag_dummy get_end), Some node)
      }
      else do {
        lookup \<leftarrow> lookup_bucket sz (bit_reverse_ulong (rhash ht node));
        cds_lfht_add_retry ht sz node mode dummy lookup
      })"

text \<open>The \<^verbatim>\<open>do ... while (old != next)\<close> loop of \<^verbatim>\<open>_cds_lfht_del\<close>.\<close>

partial_function (option) del_flag ::
  "cds_lfht \<Rightarrow> addr \<Rightarrow> bool \<Rightarrow> flagged \<Rightarrow> (cds_lfht \<times> bool) option" where
  "del_flag ht node dummy_removal old =
     (let next = old in
      if is_removed next then Some (ht, False)
      else do {
        assert (if dummy_removal then is_dummy next else \<not> is_dummy next);
        let new_next = flag_removed next;
        let (ht1, old1) = uatomic_cmpxchg ht node next new_next;
        if old1 \<noteq> next then del_flag ht1 node dummy_removal old1
        else Some (ht1, True)
      })"

definition cds_lfht_del' ::
  "cds_lfht \<Rightarrow> ulong \<Rightarrow> addr option \<Rightarrow> bool \<Rightarrow> (cds_lfht \<times> int) option" where
  "cds_lfht_del' ht sz node dummy_removal =
     (case node of
        None \<Rightarrow> Some (ht, - ENOENT)
      | Some n \<Rightarrow> do {
          (ht1, flagged) \<leftarrow> del_flag ht n dummy_removal (next_of ht n);
          if flagged then do {
            dummy \<leftarrow> lookup_bucket sz (bit_reverse_ulong (rhash ht1 n));
            ht2 \<leftarrow> cds_lfht_gc_bucket' ht1 dummy n;
            assert (is_removed (next_of ht2 n));
            Some (ht2, 0)
          }
          else Some (ht1, - ENOENT)
        })"

subsection \<open>Growing and shrinking the table\<close>

text \<open>
  The sizes of the two structures that \<^verbatim>\<open>calloc\<close> is asked for, on a 64-bit machine.
  \<^verbatim>\<open>struct _cds_lfht_node\<close> is declared in \<^verbatim>\<open>urcu/rculfhash.h\<close>, which is not among the
  sources: it holds the two words \<^verbatim>\<open>next\<close> and \<^verbatim>\<open>reverse_hash\<close> that the code reads and
  writes in a dummy node. \<^verbatim>\<open>struct cds_lfht\<close> has 704 bytes with the \<^verbatim>\<open>pthread_mutex_t\<close>
  of 40 bytes.
\<close>

definition sizeof_cds_lfht_node :: ulong where "sizeof_cds_lfht_node = 16"

definition sizeof_cds_lfht :: ulong where "sizeof_cds_lfht = 704"

text \<open>
  \<^verbatim>\<open>calloc(1, n)\<close> with \<open>avail\<close> bytes left: the result is the number of bytes left after
  it, and \<open>None\<close> is the \<^verbatim>\<open>NULL\<close> return.
\<close>

definition calloc :: "nat \<Rightarrow> ulong \<Rightarrow> nat option" where
  "calloc avail n = (if unat n \<le> avail then Some (avail - unat n) else None)"

definition zero_node :: cds_lfht_node where
  "zero_node = \<lparr>p_next = plain None, p_reverse_hash = 0, node_key = []\<rparr>"

text \<open>The memory with the \<open>len\<close> nodes of level \<open>i\<close> zeroed.\<close>

definition zero_level :: "cds_lfht \<Rightarrow> nat \<Rightarrow> ulong \<Rightarrow> cds_lfht" where
  "zero_level ht i len =
     ht\<lparr>mem := (\<lambda>a. case a of
                      Bucket i' j \<Rightarrow> if i' = i \<and> j < len then zero_node else mem ht a
                    | User n \<Rightarrow> mem ht a)\<rparr>"

text \<open>
  \<^verbatim>\<open>ht->t.tbl[i] = calloc(1, len * sizeof(struct _cds_lfht_node)); assert(ht->t.tbl[i])\<close>.
  The product is one of \<^verbatim>\<open>unsigned long\<close> and wraps around. When it has wrapped, the
  block is shorter than the \<open>len\<close> nodes that \<^verbatim>\<open>init_table_populate\<close> writes next: that
  write beyond the block is no normal return either.
\<close>

definition calloc_level :: "cds_lfht \<Rightarrow> nat \<Rightarrow> ulong \<Rightarrow> cds_lfht option" where
  "calloc_level ht i len = do {
     let bytes = len * sizeof_cds_lfht_node;
     rest \<leftarrow> calloc (heap_free ht) bytes;
     assert (unat bytes = unat len * unat sizeof_cds_lfht_node);
     Some (zero_level (ht\<lparr>heap_free := rest\<rparr>) i len)
   }"

text \<open>\<^verbatim>\<open>!i ? 0 : (1UL << (i - 1))\<close> and \<^verbatim>\<open>!i ? 1 : (1UL << i)\<close>.\<close>

definition half_size :: "nat \<Rightarrow> ulong" where
  "half_size i = (if i = 0 then 0 else push_bit (i - 1) 1)"

definition order_size :: "nat \<Rightarrow> ulong" where
  "order_size i = (if i = 0 then 1 else push_bit i 1)"

text \<open>The loop of \<^verbatim>\<open>init_table_populate_partition\<close>, from \<open>j\<close> up to \<open>start + len\<close>.\<close>

partial_function (option) init_table_populate_partition_loop ::
  "cds_lfht \<Rightarrow> nat \<Rightarrow> ulong \<Rightarrow> ulong \<Rightarrow> cds_lfht option" where
  "init_table_populate_partition_loop ht i j e =
     (if j < e then do {
        let new_node = Bucket i j;
        let ht1 = set_reverse_hash ht new_node (bit_reverse_ulong (half_size i + j));
        (ht2, r) \<leftarrow> cds_lfht_add' ht1 (half_size i) new_node ADD_DEFAULT True;
        init_table_populate_partition_loop ht2 i (j + 1) e
      }
      else Some ht)"

definition init_table_populate_partition ::
  "cds_lfht \<Rightarrow> nat \<Rightarrow> ulong \<Rightarrow> ulong \<Rightarrow> cds_lfht option" where
  "init_table_populate_partition ht i start len =
     init_table_populate_partition_loop ht i start (start + len)"

text \<open>
  With \<open>nr_cpus_mask < 0\<close> the level is populated by the calling thread;
  \<^verbatim>\<open>partition_resize_helper\<close>, which starts worker threads, is outside this model.
\<close>

definition init_table_populate :: "cds_lfht \<Rightarrow> nat \<Rightarrow> ulong \<Rightarrow> cds_lfht option" where
  "init_table_populate ht i len = do {
     assert (nr_cpus_mask \<noteq> - 1);
     if nr_cpus_mask < 0 \<or> len < 2 * MIN_PARTITION_PER_THREAD
     then init_table_populate_partition ht i 0 len
     else None
   }"

text \<open>
  The loop of \<^verbatim>\<open>init_table\<close>. An order beyond the array \<^verbatim>\<open>tbl[MAX_TABLE_ORDER]\<close> is
  an out-of-bounds write: no normal return.
\<close>

partial_function (option) init_table_loop :: "cds_lfht \<Rightarrow> nat \<Rightarrow> nat \<Rightarrow> cds_lfht option" where
  "init_table_loop ht i end_order =
     (if i < end_order then
        let len = (if i = 0 then 1 else push_bit (i - 1) 1) in
        if t_resize_target ht < order_size i then Some ht
        else do {
          assert (i < MAX_TABLE_ORDER);
          ht1 \<leftarrow> calloc_level ht i len;
          ht2 \<leftarrow> init_table_populate ht1 i len;
          let ht3 = ht2\<lparr>t_size := order_size i\<rparr>;
          if in_progress_destroy ht3 \<noteq> 0 then Some ht3
          else init_table_loop ht3 (i + 1) end_order
        }
      else Some ht)"

definition init_table :: "cds_lfht \<Rightarrow> nat \<Rightarrow> nat \<Rightarrow> cds_lfht option" where
  "init_table ht first_order len_order = init_table_loop ht first_order (first_order + len_order)"

partial_function (option) remove_table_partition_loop ::
  "cds_lfht \<Rightarrow> nat \<Rightarrow> ulong \<Rightarrow> ulong \<Rightarrow> cds_lfht option" where
  "remove_table_partition_loop ht i j e =
     (if j < e then do {
        let fini_node = Bucket i j;
        let ht1 = set_reverse_hash ht fini_node (bit_reverse_ulong (half_size i + j));
        (ht2, r) \<leftarrow> cds_lfht_del' ht1 (half_size i) (Some fini_node) True;
        remove_table_partition_loop ht2 i (j + 1) e
      }
      else Some ht)"

definition remove_table_partition :: "cds_lfht \<Rightarrow> nat \<Rightarrow> ulong \<Rightarrow> ulong \<Rightarrow> cds_lfht option" where
  "remove_table_partition ht i start len = remove_table_partition_loop ht i start (start + len)"

definition remove_table :: "cds_lfht \<Rightarrow> nat \<Rightarrow> ulong \<Rightarrow> cds_lfht option" where
  "remove_table ht i len = do {
     assert (nr_cpus_mask \<noteq> - 1);
     if nr_cpus_mask < 0 \<or> len < 2 * MIN_PARTITION_PER_THREAD
     then remove_table_partition ht i 0 len
     else None
   }"

text \<open>
  The loop of \<^verbatim>\<open>fini_table\<close>, \<open>i\<close> counting down to \<open>first_order\<close>; the source's
  \<^verbatim>\<open>assert(first_order > 0)\<close> keeps the signed \<open>i\<close> from passing below 0. The level
  that has been unlinked goes back to the allocator: \<^verbatim>\<open>free(free_by_rcu)\<close>, which the
  source delays until after the next \<^verbatim>\<open>synchronize_rcu\<close>.
\<close>

partial_function (option) fini_table_loop :: "cds_lfht \<Rightarrow> nat \<Rightarrow> nat \<Rightarrow> cds_lfht option" where
  "fini_table_loop ht i first_order =
     (if i \<ge> first_order then
        let len = (if i = 0 then 1 else push_bit (i - 1) 1) in
        if t_resize_target ht > push_bit (i - 1) 1 then Some ht
        else do {
          let ht1 = ht\<lparr>t_size := push_bit (i - 1) 1\<rparr>;
          ht2 \<leftarrow> remove_table ht1 i len;
          let ht3 = ht2\<lparr>heap_free := heap_free ht2 + unat (len * sizeof_cds_lfht_node)\<rparr>;
          if in_progress_destroy ht3 \<noteq> 0 then Some ht3
          else fini_table_loop ht3 (i - 1) first_order
        }
      else Some ht)"

definition fini_table :: "cds_lfht \<Rightarrow> nat \<Rightarrow> nat \<Rightarrow> cds_lfht option" where
  "fini_table ht first_order len_order = do {
     let end_order = first_order + len_order;
     assert (first_order > 0);
     fini_table_loop ht (end_order - 1) first_order
   }"

subsection \<open>Creation, lookup and the public operations\<close>

text \<open>
  \<^verbatim>\<open>_cds_lfht_new\<close>: the result \<open>Some None\<close> is the \<^verbatim>\<open>NULL\<close> return, and \<open>None\<close> is no
  return at all (a failed \<^verbatim>\<open>assert\<close>). \<open>m\<close> is the memory at the time of the call (the
  callers' nodes) and \<open>avail\<close> the number of bytes that \<^verbatim>\<open>calloc\<close> can provide then;
  \<^verbatim>\<open>ht = calloc(1, sizeof(struct cds_lfht)); assert(ht)\<close> zeroes the table itself.
\<close>

definition cds_lfht_new' ::
  "(key \<Rightarrow> ulong \<Rightarrow> ulong) \<Rightarrow> (key \<Rightarrow> key \<Rightarrow> int) \<Rightarrow> ulong \<Rightarrow> ulong \<Rightarrow> int
     \<Rightarrow> (addr \<Rightarrow> cds_lfht_node) \<Rightarrow> nat \<Rightarrow> cds_lfht option option" where
  "cds_lfht_new' hash_fn compare_fn seed init_size flgs m avail =
     (if init_size \<noteq> 0 \<and> init_size AND (init_size - 1) \<noteq> 0 then Some None
      else do {
        rest \<leftarrow> calloc avail sizeof_cds_lfht;
        let ht = \<lparr>mem = m, t_size = 0, t_resize_target = 0, t_resize_initiated = False,
                  hash_fct = hash_fn, compare_fct = compare_fn, hash_seed = seed, flags = 0,
                  in_progress_resize = 0, in_progress_destroy = 0, ht_count = 0,
                  call_rcu_queue = 0, heap_free = rest\<rparr>;
        let order = nat (get_count_order_ulong (max init_size MIN_TABLE_SIZE) + 1);
        let ht = ht\<lparr>flags := flgs\<rparr>;
        let ht = ht\<lparr>t_resize_target := push_bit (order - 1) 1\<rparr>;
        ht1 \<leftarrow> init_table ht 0 order;
        Some (Some ht1)
      })"

text \<open>The loop of \<^verbatim>\<open>cds_lfht_lookup\<close>; it ends with the pair \<^verbatim>\<open>(node, next)\<close>.\<close>

partial_function (option) cds_lfht_lookup_scan ::
  "cds_lfht \<Rightarrow> key \<Rightarrow> ulong \<Rightarrow> flagged \<Rightarrow> (addr option \<times> flagged) option" where
  "cds_lfht_lookup_scan ht k reverse_hash node =
     (case unflagged (clear_flag node) of
        None \<Rightarrow> Some (None, plain None)
      | Some c \<Rightarrow>
          if rhash ht c > reverse_hash then Some (None, plain None)
          else
            let next = next_of ht c in
            if \<not> is_removed next \<and> \<not> is_dummy next \<and> rhash ht c = reverse_hash
               \<and> compare_fct ht (node_key (mem ht c)) k = 0
            then Some (Some c, next)
            else cds_lfht_lookup_scan ht k reverse_hash (clear_flag next))"

definition cds_lfht_lookup :: "cds_lfht \<Rightarrow> key \<Rightarrow> cds_lfht_iter option" where
  "cds_lfht_lookup ht k = do {
     let hash = hash_fct ht k (hash_seed ht);
     let reverse_hash = bit_reverse_ulong hash;
     let sz = t_size ht;
     dummy_node \<leftarrow> lookup_bucket sz hash;
     let node = clear_flag (next_of ht dummy_node);
     (node, next) \<leftarrow> cds_lfht_lookup_scan ht k reverse_hash node;
     assert (case node of None \<Rightarrow> True | Some n \<Rightarrow> \<not> is_dummy (next_of ht n));
     Some \<lparr>iter_node = node, iter_next = next\<rparr>
   }"

definition cds_lfht_add :: "cds_lfht \<Rightarrow> addr \<Rightarrow> cds_lfht option" where
  "cds_lfht_add ht node = do {
     let hash = hash_fct ht (node_key (mem ht node)) (hash_seed ht);
     let ht1 = set_reverse_hash ht node (bit_reverse_ulong hash);
     let sz = t_size ht1;
     (ht2, r) \<leftarrow> cds_lfht_add' ht1 sz node ADD_DEFAULT False;
     Some (ht_count_add ht2 sz)
   }"

definition cds_lfht_add_unique :: "cds_lfht \<Rightarrow> addr \<Rightarrow> (cds_lfht \<times> addr option) option" where
  "cds_lfht_add_unique ht node = do {
     let hash = hash_fct ht (node_key (mem ht node)) (hash_seed ht);
     let ht1 = set_reverse_hash ht node (bit_reverse_ulong hash);
     let sz = t_size ht1;
     (ht2, ret) \<leftarrow> cds_lfht_add' ht1 sz node ADD_UNIQUE False;
     Some (if ret = Some node then ht_count_add ht2 sz else ht2, ret)
   }"

definition cds_lfht_add_replace :: "cds_lfht \<Rightarrow> addr \<Rightarrow> (cds_lfht \<times> addr option) option" where
  "cds_lfht_add_replace ht node = do {
     let hash = hash_fct ht (node_key (mem ht node)) (hash_seed ht);
     let ht1 = set_reverse_hash ht node (bit_reverse_ulong hash);
     let sz = t_size ht1;
     (ht2, ret) \<leftarrow> cds_lfht_add' ht1 sz node ADD_REPLACE False;
     Some (if ret = None then ht_count_add ht2 sz else ht2, ret)
   }"

definition cds_lfht_replace :: "cds_lfht \<Rightarrow> cds_lfht_iter \<Rightarrow> addr \<Rightarrow> (cds_lfht \<times> int) option" where
  "cds_lfht_replace ht old_iter new_node =
     (let sz = t_size ht
      in cds_lfht_replace' ht sz (iter_node old_iter) (iter_next old_iter) new_node)"

definition cds_lfht_del :: "cds_lfht \<Rightarrow> cds_lfht_iter \<Rightarrow> (cds_lfht \<times> int) option" where
  "cds_lfht_del ht iter = do {
     let sz = t_size ht;
     (ht1, ret) \<leftarrow> cds_lfht_del' ht sz (iter_node iter) False;
     Some (if ret = 0 then ht_count_del ht1 sz else ht1, ret)
   }"

text \<open>
  \<^verbatim>\<open>cds_lfht_count_nodes\<close>: the walk that counts the nodes that are neither dummy nor
  removed (\<^verbatim>\<open>*count\<close>) and the removed ones (\<^verbatim>\<open>*removed\<close>); \<open>node\<close> is the node the
  \<^verbatim>\<open>do ... while (!is_end(node))\<close> loop is about to read.
\<close>

partial_function (option) cds_lfht_count_nodes_loop ::
  "cds_lfht \<Rightarrow> addr \<Rightarrow> nat \<Rightarrow> nat \<Rightarrow> (nat \<times> nat) option" where
  "cds_lfht_count_nodes_loop ht node cnt removed =
     (let next = next_of ht node;
          (cnt1, removed1) =
            (if is_removed next then (if \<not> is_dummy next then (cnt, removed + 1) else (cnt, removed))
             else if \<not> is_dummy next then (cnt + 1, removed)
             else (cnt, removed))
      in case unflagged (clear_flag next) of
           None \<Rightarrow> Some (cnt1, removed1)
         | Some n \<Rightarrow> cds_lfht_count_nodes_loop ht n cnt1 removed1)"

definition cds_lfht_count_nodes :: "cds_lfht \<Rightarrow> (nat \<times> nat) option" where
  "cds_lfht_count_nodes ht = cds_lfht_count_nodes_loop ht (Bucket 0 0) 0 0"

subsection \<open>Resize\<close>

definition do_cds_lfht_grow :: "cds_lfht \<Rightarrow> ulong \<Rightarrow> ulong \<Rightarrow> cds_lfht option" where
  "do_cds_lfht_grow ht old_size new_size = do {
     let old_order = nat (get_count_order_ulong old_size + 1);
     let new_order = nat (get_count_order_ulong new_size + 1);
     assert (new_size > old_size);
     init_table ht old_order (new_order - old_order)
   }"

definition do_cds_lfht_shrink :: "cds_lfht \<Rightarrow> ulong \<Rightarrow> ulong \<Rightarrow> cds_lfht option" where
  "do_cds_lfht_shrink ht old_size new_size0 = do {
     let new_size = max new_size0 MIN_TABLE_SIZE;
     let old_order = nat (get_count_order_ulong old_size + 1);
     let new_order = nat (get_count_order_ulong new_size + 1);
     assert (new_size < old_size);
     fini_table ht new_order (old_order - new_order)
   }"

text \<open>The \<^verbatim>\<open>do ... while (ht->t.size != ht->t.resize_target)\<close> loop of \<^verbatim>\<open>_do_cds_lfht_resize\<close>.\<close>

partial_function (option) do_cds_lfht_resize :: "cds_lfht \<Rightarrow> cds_lfht option" where
  "do_cds_lfht_resize ht = do {
     assert (in_progress_resize ht \<noteq> 0);
     if in_progress_destroy ht \<noteq> 0 then Some ht
     else do {
       let ht1 = ht\<lparr>t_resize_initiated := True\<rparr>;
       let old_size = t_size ht1;
       let new_size = t_resize_target ht1;
       ht2 \<leftarrow> (if old_size < new_size then do_cds_lfht_grow ht1 old_size new_size
               else if old_size > new_size then do_cds_lfht_shrink ht1 old_size new_size
               else Some ht1);
       let ht3 = ht2\<lparr>t_resize_initiated := False\<rparr>;
       if t_size ht3 \<noteq> t_resize_target ht3 then do_cds_lfht_resize ht3 else Some ht3
     }
   }"

definition cds_lfht_resize :: "cds_lfht \<Rightarrow> ulong \<Rightarrow> cds_lfht option" where
  "cds_lfht_resize ht new_size = do {
     let ht1 = resize_target_update_count ht new_size;
     let ht2 = ht1\<lparr>t_resize_initiated := True\<rparr>;
     do_cds_lfht_resize ht2
   }"

text \<open>
  \<^verbatim>\<open>do_resize_cb\<close>, the work item that \<^verbatim>\<open>cds_lfht_resize_lazy\<close> hands to \<^verbatim>\<open>call_rcu\<close>;
  \<open>run_call_rcu\<close> is the call_rcu thread taking one item from the queue.
\<close>

definition do_resize_cb :: "cds_lfht \<Rightarrow> cds_lfht option" where
  "do_resize_cb ht = do {
     ht1 \<leftarrow> do_cds_lfht_resize ht;
     Some (ht1\<lparr>in_progress_resize := in_progress_resize ht1 - 1\<rparr>)
   }"

definition run_call_rcu :: "cds_lfht \<Rightarrow> cds_lfht option" where
  "run_call_rcu ht =
     (if call_rcu_queue ht = 0 then None
      else do_resize_cb (ht\<lparr>call_rcu_queue := call_rcu_queue ht - 1\<rparr>))"

text \<open>
  Modelled from the spec: the caller creates a user node and sets its key before it links
  the node (the header that declares \<^verbatim>\<open>cds_lfht_node_init\<close> is not among the sources).
\<close>

definition cds_lfht_node_init :: "cds_lfht \<Rightarrow> addr \<Rightarrow> key \<Rightarrow> cds_lfht" where
  "cds_lfht_node_init ht node k = ht\<lparr>mem := (mem ht)(node := (mem ht node)\<lparr>node_key := k\<rparr>)\<rparr>"

text \<open>The recursion equations of the loops are the code equations that evaluate them.\<close>

declare
  uatomic_max.simps [code]
  gc_bucket_scan.simps [code]
  cds_lfht_gc_bucket'.simps [code]
  replace_flag.simps [code]
  cds_lfht_add_scan.simps [code]
  cds_lfht_add_retry.simps [code]
  del_flag.simps [code]
  init_table_populate_partition_loop.simps [code]
  init_table_loop.simps [code]
  remove_table_partition_loop.simps [code]
  fini_table_loop.simps [code]
  cds_lfht_lookup_scan.simps [code]
  cds_lfht_count_nodes_loop.simps [code]
  do_cds_lfht_resize.simps [code]

section \<open>Bit utilities: what they compute\<close>

subsection \<open>\<^verbatim>\<open>fls\<close> is the index of the most significant bit\<close>

lemma hi_zero_iff: "n < LENGTH('a) \<Longrightarrow> (x AND NOT (mask n) = 0) = ((x::'a::len word) < 2 ^ n)"
proof
  assume n: "n < LENGTH('a)" and z: "x AND NOT (mask n) = 0"
  have "x = (x AND mask n) OR (x AND NOT (mask n))"
    by (simp add: bit_eq_iff bit_simps) blast
  then have "x AND mask n = x" using z by simp
  then show "x < 2 ^ n" using n by (simp add: mask_eq_iff_w2p word_size)
next
  assume "n < LENGTH('a)" and "x < 2 ^ n"
  then have "x AND mask n = x" by (rule_tac less_mask_eq)
  then have "x AND NOT (mask n) = (x AND mask n) AND NOT (mask n)" by simp
  also have "\<dots> = 0" by (simp add: bit_eq_iff bit_simps)
  finally show "x AND NOT (mask n) = 0" .
qed

lemma unat_2p: "n < LENGTH('a) \<Longrightarrow> unat (2 ^ n :: 'a::len word) = 2 ^ n"
  by (metis unat_of_nat of_nat_numeral of_nat_power mod_less power_strict_increasing_iff
      one_less_numeral_iff semiring_norm(76))

lemma hi_zero_unat:
  "n < LENGTH('a) \<Longrightarrow> (x AND NOT (mask n) = 0) = (unat (x::'a::len word) < 2 ^ n)"
  by (simp add: hi_zero_iff word_less_nat_alt unat_2p)

lemma unat_push_bit_small:
  fixes x :: "'a::len word"
  assumes "unat x < 2 ^ (LENGTH('a) - k)" "k \<le> LENGTH('a)"
  shows "unat (push_bit k x) = unat x * 2 ^ k"
proof -
  have "unat x * 2 ^ k < 2 ^ (LENGTH('a) - k) * 2 ^ k"
    using assms(1) by simp
  also have "\<dots> = 2 ^ LENGTH('a)"
    using assms(2) by (simp flip: power_add)
  finally have "unat x * 2 ^ k < 2 ^ LENGTH('a)" .
  then show ?thesis
    by (simp only: unsigned_push_bit_eq) (simp add: push_bit_eq_mult take_bit_eq_mod)
qed

definition fls_inv :: "nat \<Rightarrow> nat \<Rightarrow> 'a::len word \<times> nat \<Rightarrow> bool" where
  "fls_inv n t = (\<lambda>(x, r). unat x = n * 2 ^ (LENGTH('a) - r) \<and> 0 < r \<and> r \<le> LENGTH('a) \<and> 2 ^ t \<le> unat x)"

lemma fls_step_inv:
  fixes x :: "'a::len word"
  assumes inv: "fls_inv n t (x, r)" and k: "0 < k" "k < LENGTH('a)" "LENGTH('a) \<le> t + 2 * k"
    and m: "m = NOT (mask (LENGTH('a) - k))"
  shows "fls_inv n (LENGTH('a) - k) (fls_step m k (x, r))"
proof (cases "x AND m = 0")
  case False
  then have "\<not> unat x < 2 ^ (LENGTH('a) - k)"
    using k by (simp add: m hi_zero_unat)
  then show ?thesis using inv False by (simp add: fls_inv_def fls_step_def)
next
  case True
  then have small: "unat x < 2 ^ (LENGTH('a) - k)"
    using k by (simp add: m hi_zero_unat)
  from inv have ux: "unat x = n * 2 ^ (LENGTH('a) - r)" and r: "0 < r" "r \<le> LENGTH('a)"
    and t: "2 ^ t \<le> unat x" by (simp_all add: fls_inv_def)
  have n0: "0 < n" using ux t by (cases n) auto
  have "(2::nat) ^ (LENGTH('a) - r) \<le> n * 2 ^ (LENGTH('a) - r)" using n0 by simp
  also have "\<dots> < 2 ^ (LENGTH('a) - k)" using small by (simp only: ux)
  finally have "(2::nat) ^ (LENGTH('a) - r) < 2 ^ (LENGTH('a) - k)" .
  then have kr: "k < r" using r by simp
  have sh: "unat (push_bit k x) = unat x * 2 ^ k"
    using small k by (simp add: unat_push_bit_small)
  have e1: "unat x * 2 ^ k = n * 2 ^ (LENGTH('a) - (r - k))"
  proof -
    have "LENGTH('a) - (r - k) = (LENGTH('a) - r) + k" using kr r by simp
    then show ?thesis by (simp add: ux power_add)
  qed
  have "(2::nat) ^ (LENGTH('a) - k) \<le> 2 ^ (t + k)" using k by simp
  also have "\<dots> \<le> unat x * 2 ^ k" using t by (simp add: power_add)
  finally have e2: "2 ^ (LENGTH('a) - k) \<le> unat x * 2 ^ k" .
  show ?thesis using True sh e1 e2 kr r by (simp add: fls_inv_def fls_step_def)
qed

lemma msb_index_bounds: "0 < r \<Longrightarrow> 2 ^ (r - 1) \<le> n \<Longrightarrow> n < 2 ^ r \<Longrightarrow> msb_index n = r"
proof (induction r arbitrary: n)
  case 0
  then show ?case by simp
next
  case (Suc r)
  show ?case
  proof (cases r)
    case 0
    with Suc.prems have "n = 1" by simp
    then show ?thesis using 0 by (simp add: msb_index.simps)
  next
    case (Suc r')
    with Suc.prems have "2 ^ (r - 1) \<le> n div 2" "n div 2 < 2 ^ r" "0 < n" by auto
    with Suc.IH [of "n div 2"] Suc show ?thesis by (simp add: msb_index.simps [of n])
  qed
qed

lemma fls_inv_final:
  fixes x :: "'a::len word"
  assumes "fls_inv n (LENGTH('a) - 1) (x, r)"
  shows "msb_index n = r"
proof -
  from assms have ux: "unat x = n * 2 ^ (LENGTH('a) - r)" and r: "0 < r" "r \<le> LENGTH('a)"
    and t: "2 ^ (LENGTH('a) - 1) \<le> unat x" by (simp_all add: fls_inv_def)
  have lt: "unat x < 2 ^ LENGTH('a)" by simp
  have "n * 2 ^ (LENGTH('a) - r) < 2 ^ r * 2 ^ (LENGTH('a) - r)"
    using lt r by (simp add: ux flip: power_add)
  then have hi: "n < 2 ^ r" by simp
  have "(2::nat) ^ (r - 1) * 2 ^ (LENGTH('a) - r) = 2 ^ (LENGTH('a) - 1)"
    using r by (simp flip: power_add)
  with t ux have "(2::nat) ^ (r - 1) * 2 ^ (LENGTH('a) - r) \<le> n * 2 ^ (LENGTH('a) - r)" by simp
  then have lo: "2 ^ (r - 1) \<le> n" by simp
  show ?thesis using r(1) lo hi by (rule msb_index_bounds)
qed

lemma fls_u64_msb: "fls_u64 x = msb_index (unat x)"
proof (cases "x = 0")
  case True
  then show ?thesis by (simp add: fls_u64_def msb_index.simps)
next
  case False
  then have u: "0 < unat x" by (simp add: unat_gt_0)
  have i0: "fls_inv (unat x) 0 (x, 64)" using u by (simp add: fls_inv_def)
  have i1: "fls_inv (unat x) 32 (fls_step 0xFFFFFFFF00000000 32 (x, 64))"
    using fls_step_inv [OF i0, of 32 "0xFFFFFFFF00000000"] by (simp add: mask_eq_exp_minus_1)
  obtain x1 r1 where p1: "fls_step 0xFFFFFFFF00000000 32 (x, 64) = (x1, r1)" by fastforce
  have i2: "fls_inv (unat x) 48 (fls_step 0xFFFF000000000000 16 (x1, r1))"
    using fls_step_inv [OF i1 [unfolded p1], of 16 "0xFFFF000000000000"] by (simp add: mask_eq_exp_minus_1)
  obtain x2 r2 where p2: "fls_step 0xFFFF000000000000 16 (x1, r1) = (x2, r2)" by fastforce
  have i3: "fls_inv (unat x) 56 (fls_step 0xFF00000000000000 8 (x2, r2))"
    using fls_step_inv [OF i2 [unfolded p2], of 8 "0xFF00000000000000"] by (simp add: mask_eq_exp_minus_1)
  obtain x3 r3 where p3: "fls_step 0xFF00000000000000 8 (x2, r2) = (x3, r3)" by fastforce
  have i4: "fls_inv (unat x) 60 (fls_step 0xF000000000000000 4 (x3, r3))"
    using fls_step_inv [OF i3 [unfolded p3], of 4 "0xF000000000000000"] by (simp add: mask_eq_exp_minus_1)
  obtain x4 r4 where p4: "fls_step 0xF000000000000000 4 (x3, r3) = (x4, r4)" by fastforce
  have i5: "fls_inv (unat x) 62 (fls_step 0xC000000000000000 2 (x4, r4))"
    using fls_step_inv [OF i4 [unfolded p4], of 2 "0xC000000000000000"] by (simp add: mask_eq_exp_minus_1)
  obtain x5 r5 where p5: "fls_step 0xC000000000000000 2 (x4, r4) = (x5, r5)" by fastforce
  have i6: "fls_inv (unat x) 63 (fls_step 0x8000000000000000 1 (x5, r5))"
    using fls_step_inv [OF i5 [unfolded p5], of 1 "0x8000000000000000"] by (simp add: mask_eq_exp_minus_1)
  obtain x6 r6 where p6: "fls_step 0x8000000000000000 1 (x5, r5) = (x6, r6)" by fastforce
  have "msb_index (unat x) = r6"
    by (rule fls_inv_final [where 'a = 64, simplified, OF i6 [unfolded p6]])
  then show ?thesis
    by (simp only: fls_u64_def p1 p2 p3 p4 p5 p6 False if_False snd_conv)
qed

lemma fls_u32_msb: "fls_u32 x = msb_index (unat x)"
proof (cases "x = 0")
  case True
  then show ?thesis by (simp add: fls_u32_def msb_index.simps)
next
  case False
  then have u: "0 < unat x" by (simp add: unat_gt_0)
  have i0: "fls_inv (unat x) 0 (x, 32)" using u by (simp add: fls_inv_def)
  have i1: "fls_inv (unat x) 16 (fls_step 0xFFFF0000 16 (x, 32))"
    using fls_step_inv [OF i0, of 16 "0xFFFF0000"] by (simp add: mask_eq_exp_minus_1)
  obtain x1 r1 where p1: "fls_step 0xFFFF0000 16 (x, 32) = (x1, r1)" by fastforce
  have i2: "fls_inv (unat x) 24 (fls_step 0xFF000000 8 (x1, r1))"
    using fls_step_inv [OF i1 [unfolded p1], of 8 "0xFF000000"] by (simp add: mask_eq_exp_minus_1)
  obtain x2 r2 where p2: "fls_step 0xFF000000 8 (x1, r1) = (x2, r2)" by fastforce
  have i3: "fls_inv (unat x) 28 (fls_step 0xF0000000 4 (x2, r2))"
    using fls_step_inv [OF i2 [unfolded p2], of 4 "0xF0000000"] by (simp add: mask_eq_exp_minus_1)
  obtain x3 r3 where p3: "fls_step 0xF0000000 4 (x2, r2) = (x3, r3)" by fastforce
  have i4: "fls_inv (unat x) 30 (fls_step 0xC0000000 2 (x3, r3))"
    using fls_step_inv [OF i3 [unfolded p3], of 2 "0xC0000000"] by (simp add: mask_eq_exp_minus_1)
  obtain x4 r4 where p4: "fls_step 0xC0000000 2 (x3, r3) = (x4, r4)" by fastforce
  have i5: "fls_inv (unat x) 31 (fls_step 0x80000000 1 (x4, r4))"
    using fls_step_inv [OF i4 [unfolded p4], of 1 "0x80000000"] by (simp add: mask_eq_exp_minus_1)
  obtain x5 r5 where p5: "fls_step 0x80000000 1 (x4, r4) = (x5, r5)" by fastforce
  have "msb_index (unat x) = r5"
    by (rule fls_inv_final [where 'a = 32, simplified, OF i5 [unfolded p5]])
  then show ?thesis
    by (simp only: fls_u32_def p1 p2 p3 p4 p5 False if_False snd_conv)
qed

lemma fls_ulong_msb: "fls_ulong x = msb_index (unat x)"
  by (simp add: fls_ulong_def fls_u64_msb)

lemma msb_index_range: "0 < n \<Longrightarrow> 2 ^ (msb_index n - 1) \<le> n \<and> n < 2 ^ msb_index n"
proof (induction n rule: msb_index.induct)
  case (1 n)
  show ?case
  proof (cases "n div 2 = 0")
    case True
    with 1 have "n = 1" by (simp add: div_eq_0_iff) 
    then show ?thesis by (simp add: msb_index.simps)
  next
    case False
    then have "0 < n div 2" by simp
    with 1 have ih: "2 ^ (msb_index (n div 2) - 1) \<le> n div 2" "n div 2 < 2 ^ msb_index (n div 2)"
      by simp_all
    have pos: "0 < msb_index (n div 2)" using False by (simp add: msb_index.simps [of "n div 2"])
    have m: "msb_index n = Suc (msb_index (n div 2))" using 1 by (simp add: msb_index.simps [of n])
    have "2 ^ (msb_index n - 1) = 2 * 2 ^ (msb_index (n div 2) - 1)"
      using pos by (simp add: m flip: power_Suc)
    also have "\<dots> \<le> 2 * (n div 2)" using ih(1) by simp
    also have "\<dots> \<le> n" by simp
    finally have lo: "2 ^ (msb_index n - 1) \<le> n" .
    have "n < 2 * (n div 2) + 2" by linarith
    also have "\<dots> \<le> 2 * 2 ^ msb_index (n div 2)" using ih(2) by simp
    finally have hi: "n < 2 ^ msb_index n" by (simp add: m)
    show ?thesis using lo hi by simp
  qed
qed

lemma msb_index_0 [simp]: "msb_index 0 = 0"
  by (simp add: msb_index.simps)

lemma msb_index_pos: "0 < n \<Longrightarrow> 0 < msb_index n"
  by (simp add: msb_index.simps [of n])

lemma msb_index_le: "n < 2 ^ k \<Longrightarrow> msb_index n \<le> k"
proof (cases "n = 0")
  case False
  assume "n < 2 ^ k"
  with msb_index_range [of n] False have "(2::nat) ^ (msb_index n - 1) \<le> n" "n < 2 ^ k" by simp_all
  then have "(2::nat) ^ (msb_index n - 1) < 2 ^ k" by (rule le_less_trans)
  then have "msb_index n - 1 < k" by simp
  then show ?thesis by simp
qed simp

lemma fls_ulong_le_64: "fls_ulong x \<le> 64"
  using msb_index_le [of "unat x" 64] unsigned_less [of x, where 'a = nat]
  by (simp add: fls_ulong_msb)

subsection \<open>The table reverses the bits of a word\<close>

lemma BitReverseTable256_entries:
  "list_all (\<lambda>i. BitReverseTable256 ! i = word_reverse (of_nat i :: 8 word)) [0..<256]"
  by code_simp

lemma bit_reverse_u8_eq: "bit_reverse_u8 v = word_reverse v"
proof -
  have "unat v < 256" using unsigned_less [of v, where 'a = nat] by simp
  then have "unat v \<in> set [0..<256]" by simp
  with BitReverseTable256_entries
  have "BitReverseTable256 ! unat v = word_reverse (of_nat (unat v) :: 8 word)"
    unfolding list_all_iff by blast
  then show ?thesis by (simp add: bit_reverse_u8_def)
qed

lemma rev_part:
  assumes "s + t = 56"
  shows "bit (push_bit s (ucast (word_reverse (ucast (drop_bit t (v::64 word)) :: 8 word)) :: 64 word)) n
     = (s \<le> n \<and> n < s + 8 \<and> bit v (63 - n))"
proof (cases "s \<le> n \<and> n < s + 8")
  case False
  then show ?thesis by (auto simp add: bit_simps)
next
  case True
  then have e: "t + (7 + s) - n = 63 - n" using assms by linarith
  have "n < 64" using True assms by linarith
  moreover have "n - s < 8" "7 + s - n < 8" using True by linarith+
  ultimately show ?thesis using True
    by (simp add: bit_simps e)
qed

lemma bit_reverse_u64_eq: "bit_reverse_u64 v = word_reverse v"
proof (rule bit_word_eqI)
  fix n assume "n < LENGTH(64)"
  then have n: "n < 64" by simp
  have p0: "bit (ucast (word_reverse (ucast (drop_bit 56 v) :: 8 word)) :: 64 word) n
     = (n < 8 \<and> bit v (63 - n))"
    using rev_part [of 0 56 v n] by simp
  show "bit (bit_reverse_u64 v) n = bit (word_reverse v) n"
    unfolding bit_reverse_u64_def bit_reverse_u8_eq bit_or_iff
    apply (simp only: rev_part [of 56 0, simplified] rev_part [of 48 8, simplified]
       rev_part [of 40 16, simplified] rev_part [of 32 24, simplified] rev_part [of 24 32, simplified]
       rev_part [of 16 40, simplified] rev_part [of 8 48, simplified] p0 bit_word_reverse_iff)
    using n apply simp
    apply linarith
    done
qed

subsection \<open>Masking with a power of two\<close>

lemma pow2_minus_1_mask: "(2 ^ k - 1 :: 'a::len word) = mask k"
  by (simp add: mask_eq_exp_minus_1)

lemma unat_and_mask: "unat (x AND mask k :: 'a::len word) = unat x mod 2 ^ k"
proof -
  have "unat (x AND mask k) = unat (take_bit k x)" by (simp only: take_bit_eq_mask)
  also have "\<dots> = take_bit k (unat x)" by (simp only: unsigned_take_bit_eq)
  also have "\<dots> = unat x mod 2 ^ k" by (simp only: take_bit_eq_mod)
  finally show ?thesis .
qed

lemma index_mod:
  assumes "k < 64"
  shows "unat (h AND (2 ^ k - 1) :: ulong) = unat h mod unat (2 ^ k :: ulong)"
  using assms by (simp add: pow2_minus_1_mask unat_and_mask unat_2p)

lemma index_less:
  assumes "k < 64"
  shows "h AND (2 ^ k - 1) < (2 ^ k :: ulong)"
  using assms by (simp add: word_less_nat_alt index_mod unat_2p)

lemma mask_position:
  fixes d :: ulong
  assumes "d \<noteq> 0"
  shows "d AND (push_bit (fls_ulong d - 1) 1 - 1) = d - 2 ^ (fls_ulong d - 1)"
    and "2 ^ (fls_ulong d - 1) \<le> d"
    and "unat (d - 2 ^ (fls_ulong d - 1)) = unat d - 2 ^ (fls_ulong d - 1)"
proof -
  let ?r = "fls_ulong d"
  have u: "0 < unat d" using assms by (simp add: unat_gt_0)
  have r: "0 < ?r" "?r \<le> 64"
    using msb_index_pos [OF u] fls_ulong_le_64 [of d] by (simp_all add: fls_ulong_msb)
  have lo: "2 ^ (?r - 1) \<le> unat d" and hi: "unat d < 2 ^ ?r"
    using msb_index_range [OF u] by (simp_all add: fls_ulong_msb)
  have r1: "?r - 1 < 64" using r by simp
  have p: "unat (2 ^ (?r - 1) :: ulong) = 2 ^ (?r - 1)" using r1 by (simp add: unat_2p)
  show le: "2 ^ (?r - 1) \<le> d" using lo unfolding word_le_nat_alt p .
  show sub: "unat (d - 2 ^ (?r - 1)) = unat d - 2 ^ (?r - 1)"
    using le by (simp only: unat_sub p)
  have "2 ^ ?r = 2 * (2::nat) ^ (?r - 1)" using r by (simp flip: power_Suc)
  with hi have hi': "unat d - 2 ^ (?r - 1) < 2 ^ (?r - 1)" by simp
  have "unat d mod 2 ^ (?r - 1) = (unat d - 2 ^ (?r - 1)) mod 2 ^ (?r - 1)"
    using lo by (simp add: le_mod_geq)
  also have "\<dots> = unat d - 2 ^ (?r - 1)" using hi' by simp
  finally have "unat (d AND mask (?r - 1)) = unat (d - 2 ^ (?r - 1))"
    by (simp only: unat_and_mask sub)
  then have "d AND mask (?r - 1) = d - 2 ^ (?r - 1)" by (rule word_unat_eq_iff [THEN iffD2])
  then show "d AND (push_bit (?r - 1) 1 - 1) = d - 2 ^ (?r - 1)"
    by (simp add: push_bit_eq_mult pow2_minus_1_mask)
qed

subsection \<open>Reversed hashes and bucket addresses\<close>

lemma bit_reverse_ulong_eq: "bit_reverse_ulong v = word_reverse v"
  by (simp add: bit_reverse_ulong_def bit_reverse_u64_eq)

lemma bit_reverse_ulong_twice [simp]: "bit_reverse_ulong (bit_reverse_ulong v) = v"
  by (simp add: bit_reverse_ulong_eq)

lemma bit_reverse_ulong_inj [simp]: "(bit_reverse_ulong v = bit_reverse_ulong w) = (v = w)"
  by (metis bit_reverse_ulong_twice)

lemma bit_reverse_ulong_0 [simp]: "bit_reverse_ulong 0 = 0"
  by (simp add: bit_reverse_ulong_eq bit_eq_iff bit_word_reverse_iff)

lemma word_reverse_and:
  "word_reverse (a AND b) = word_reverse a AND (word_reverse b :: 'a::len word)"
  by (rule bit_word_eqI) (simp add: bit_simps bit_word_reverse_iff)

text \<open>The reversed bucket index of a reversed hash is below the reversed hash.\<close>

lemma bucket_reverse_hash_le:
  "bit_reverse_ulong (bit_reverse_ulong r AND m) \<le> r"
proof -
  have "bit_reverse_ulong (bit_reverse_ulong r AND m) = r AND word_reverse m"
    by (simp add: bit_reverse_ulong_eq word_reverse_and)
  then show ?thesis by (simp add: word_and_le2)
qed

text \<open>
  \<open>bucket_addr d\<close> is the dummy node that \<^verbatim>\<open>lookup_bucket\<close> returns for the index \<open>d\<close>;
  \<open>bucket_index\<close> is the hash \<^verbatim>\<open>(1UL << (i - 1)) + j\<close> that \<^verbatim>\<open>init_table_populate_partition\<close>
  reverses into node \<open>j\<close> of level \<open>i\<close>.
\<close>

definition bucket_addr :: "ulong \<Rightarrow> addr" where
  "bucket_addr d =
     Bucket (fls_ulong d) (d AND (if fls_ulong d = 0 then 0 else push_bit (fls_ulong d - 1) 1 - 1))"

definition bucket_index :: "addr \<Rightarrow> ulong" where
  "bucket_index a = (case a of Bucket i j \<Rightarrow> half_size i + j | User n \<Rightarrow> 0)"

lemma lookup_bucket_eq: "0 < sz \<Longrightarrow> lookup_bucket sz h = Some (bucket_addr (h AND (sz - 1)))"
  by (simp add: lookup_bucket_def bucket_addr_def assert_def Let_def)

lemma lookup_bucket_0 [simp]: "lookup_bucket 0 h = None"
  by (simp add: lookup_bucket_def assert_def)

lemma fls_ulong_0 [simp]: "fls_ulong 0 = 0"
  by (simp add: fls_ulong_msb)

lemma fls_ulong_eq_0 [simp]: "(fls_ulong d = 0) = (d = 0)"
proof
  assume "fls_ulong d = 0"
  then have "msb_index (unat d) = 0" by (simp only: fls_ulong_msb)
  with msb_index_pos [of "unat d"] have "unat d = 0" by (cases "unat d") auto
  then show "d = 0" by (simp add: unat_eq_0)
qed simp

lemma bucket_addr_0 [simp]: "bucket_addr 0 = Bucket 0 0"
  by (simp add: bucket_addr_def)

lemma bucket_index_addr [simp]: "bucket_index (bucket_addr d) = d"
proof (cases "d = 0")
  case True
  then show ?thesis by (simp add: bucket_index_def half_size_def)
next
  case False
  have "half_size (fls_ulong d) + (d AND (push_bit (fls_ulong d - 1) 1 - 1)) = d"
    unfolding mask_position(1) [OF False] using False by (simp add: half_size_def push_bit_eq_mult)
  then show ?thesis using False
    by (simp add: bucket_addr_def bucket_index_def del: One_nat_def)
qed

lemma bucket_addr_inj [simp]: "(bucket_addr d = bucket_addr e) = (d = e)"
  by (metis bucket_index_addr)

lemma fls_ulong_level:
  fixes j :: ulong
  assumes i: "0 < i" "i \<le> 64" and j: "j < 2 ^ (i - 1)"
  shows "fls_ulong (2 ^ (i - 1) + j) = i" and "2 ^ (i - 1) + j \<noteq> 0"
proof -
  have i1: "i - 1 < 64" using i by simp
  have uj: "unat j < 2 ^ (i - 1)" using j i1 by (simp add: word_less_nat_alt unat_2p)
  have "(2::nat) ^ (i - 1) + 2 ^ (i - 1) = 2 ^ i" using i by (simp flip: power_Suc mult_2)
  moreover have "(2::nat) ^ i \<le> 2 ^ 64" using i by (simp only: power_increasing_iff one_le_numeral) 
  ultimately have lt: "2 ^ (i - 1) + unat j < 2 ^ i" "2 ^ (i - 1) + unat j < 2 ^ 64" using uj by simp_all
  have u: "unat (2 ^ (i - 1) + j) = 2 ^ (i - 1) + unat j"
    using lt(2) i1 by (simp add: unat_word_ariths unat_2p)
  have "msb_index (2 ^ (i - 1) + unat j) = i"
    using i lt by (intro msb_index_bounds) simp_all
  then show "fls_ulong (2 ^ (i - 1) + j) = i" by (simp only: fls_ulong_msb u)
  show "2 ^ (i - 1) + j \<noteq> 0"
    using u by (metis add_is_0 power_not_zero unat_0 zero_neq_numeral)
qed

lemma bucket_addr_level:
  fixes j :: ulong
  assumes "0 < i" "i \<le> 64" "j < 2 ^ (i - 1)"
  shows "bucket_addr (half_size i + j) = Bucket i j"
proof -
  let ?d = "2 ^ (i - 1) + j"
  note l = fls_ulong_level [OF assms]
  have "?d AND (push_bit (fls_ulong ?d - 1) 1 - 1) = ?d - 2 ^ (fls_ulong ?d - 1)"
    by (rule mask_position(1) [OF l(2)])
  then have "?d AND (push_bit (i - 1) 1 - 1) = j" by (simp only: l(1)) simp
  moreover have "half_size i = 2 ^ (i - 1)" using assms(1) by (simp add: half_size_def push_bit_eq_mult)
  ultimately show ?thesis using l assms(1)
    by (simp add: bucket_addr_def del: One_nat_def)
qed

subsection \<open>The bucket of a hash\<close>

text \<open>
  Claim C7. For a table size that is a power of two, \<^verbatim>\<open>lookup_bucket\<close> sends the hash \<open>h\<close>,
  with \<open>idx = h mod size\<close>, to the node at level \<open>msb_index idx\<close> (level 0 exactly when
  \<open>idx = 0\<close>) and, within a level above 0, at position \<open>idx - 2 ^ (order - 1)\<close> (position 0 at
  level 0); the position is what the masked index \<open>idx AND (2 ^ (order - 1) - 1)\<close> of the code
  computes.
\<close>

theorem lookup_bucket_level_and_position:
  fixes h sz :: ulong
  assumes "sz = 2 ^ k" and "k < 64"
  shows "\<exists>order pos.
      lookup_bucket sz h = Some (Bucket order pos)
    \<and> order = msb_index (unat h mod unat sz)
    \<and> (order = 0) = (unat h mod unat sz = 0)
    \<and> unat pos = (if order = 0 then 0 else unat h mod unat sz - 2 ^ (order - 1))
    \<and> pos = (h AND (sz - 1)) AND (if order = 0 then 0 else 2 ^ (order - 1) - 1)"
proof -
  let ?idx = "h AND (sz - 1)"
  have pos: "0 < sz" using assms by (simp add: word_less_nat_alt unat_2p)
  have idx: "unat ?idx = unat h mod unat sz" using assms by (simp add: index_mod)
  have l: "lookup_bucket sz h = Some (bucket_addr ?idx)" using pos by (rule lookup_bucket_eq)
  have ord: "fls_ulong ?idx = msb_index (unat h mod unat sz)" by (simp only: fls_ulong_msb idx)
  have z: "(fls_ulong ?idx = 0) = (unat h mod unat sz = 0)"
    by (simp only: fls_ulong_eq_0 flip: idx) (simp add: unat_eq_0)
  show ?thesis
  proof (cases "?idx = 0")
    case True
    then show ?thesis using l idx by (simp add: bucket_addr_def)
  next
    case False
    note m = mask_position [OF False]
    have nz: "fls_ulong ?idx \<noteq> 0" using False by simp
    have "bucket_addr ?idx = Bucket (fls_ulong ?idx) (?idx - 2 ^ (fls_ulong ?idx - 1))"
      using nz by (simp only: bucket_addr_def m(1) if_False)
    moreover have "unat (?idx - 2 ^ (fls_ulong ?idx - 1)) = unat h mod unat sz - 2 ^ (fls_ulong ?idx - 1)"
      by (simp only: m(3) idx)
    moreover have "?idx - 2 ^ (fls_ulong ?idx - 1) = ?idx AND (2 ^ (fls_ulong ?idx - 1) - 1)"
      using m(1) by (simp only: push_bit_eq_mult mult_1)
    ultimately show ?thesis using l nz z unfolding ord
      by (intro exI [of _ "msb_index (unat h mod unat sz)"] exI [of _ "?idx - 2 ^ (msb_index (unat h mod unat sz) - 1)"])
        (simp del: One_nat_def)
  qed
qed

theorem lookup_bucket_level_and_position_witness:
  "(8::ulong) = 2 ^ 3 \<and> (3::nat) < 64 \<and>
   (\<exists>order pos.
      lookup_bucket 8 13 = Some (Bucket order pos)
    \<and> order = msb_index (unat (13::ulong) mod unat (8::ulong))
    \<and> (order = 0) = (unat (13::ulong) mod unat (8::ulong) = 0)
    \<and> unat pos = (if order = 0 then 0 else unat (13::ulong) mod unat (8::ulong) - 2 ^ (order - 1))
    \<and> pos = ((13::ulong) AND (8 - 1)) AND (if order = 0 then 0 else 2 ^ (order - 1) - 1))"
proof -
  have a: "(8::ulong) = 2 ^ 3" and b: "(3::nat) < 64" by simp_all
  show ?thesis using a b lookup_bucket_level_and_position [OF a b, of 13] by blast
qed

section \<open>The list in memory\<close>

subsection \<open>Simple facts about flagged pointers\<close>

lemma assert_simps [simp]: "assert True = Some ()" "assert False = None"
  by (simp_all add: assert_def)

lemma assert_bind [simp]: "(assert c \<bind> f) = (if c then f () else None)"
  by (simp add: assert_def)

lemma flag_simps [simp]:
  "unflagged (plain a) = a" "REMOVED_FLAG (plain a) = False" "DUMMY_FLAG (plain a) = False"
  "unflagged (clear_flag p) = unflagged p" "REMOVED_FLAG (clear_flag p) = False"
  "DUMMY_FLAG (clear_flag p) = False"
  "unflagged (flag_removed p) = unflagged p" "REMOVED_FLAG (flag_removed p) = True"
  "DUMMY_FLAG (flag_removed p) = DUMMY_FLAG p"
  "unflagged (flag_dummy p) = unflagged p" "REMOVED_FLAG (flag_dummy p) = REMOVED_FLAG p"
  "DUMMY_FLAG (flag_dummy p) = True"
  "is_removed p = REMOVED_FLAG p" "is_dummy p = DUMMY_FLAG p"
  by (simp_all add: plain_def clear_flag_def flag_removed_def flag_dummy_def is_removed_def
      is_dummy_def)

lemma flagged_eq_iff:
  "(p = q) = (unflagged p = unflagged q \<and> REMOVED_FLAG p = REMOVED_FLAG q \<and> DUMMY_FLAG p = DUMMY_FLAG q)"
  for p q :: flagged
  by (cases p, cases q) auto

lemma is_end_iff [simp]: "is_end p = (unflagged p = None)"
  by (simp add: is_end_def flagged_eq_iff)

lemma mem_set_next [simp]:
  "next_of (set_next ht a v) b = (if b = a then v else next_of ht b)"
  "rhash (set_next ht a v) b = rhash ht b"
  "node_key (mem (set_next ht a v) b) = node_key (mem ht b)"
  by (simp_all add: set_next_def next_of_def rhash_def)

lemma mem_set_reverse_hash [simp]:
  "next_of (set_reverse_hash ht a v) b = next_of ht b"
  "rhash (set_reverse_hash ht a v) b = (if b = a then v else rhash ht b)"
  "node_key (mem (set_reverse_hash ht a v) b) = node_key (mem ht b)"
  by (simp_all add: set_reverse_hash_def next_of_def rhash_def)

lemma fields_set_next [simp]:
  "t_size (set_next ht a v) = t_size ht" "t_resize_target (set_next ht a v) = t_resize_target ht"
  "t_resize_initiated (set_next ht a v) = t_resize_initiated ht"
  "hash_fct (set_next ht a v) = hash_fct ht" "compare_fct (set_next ht a v) = compare_fct ht"
  "hash_seed (set_next ht a v) = hash_seed ht" "flags (set_next ht a v) = flags ht"
  "in_progress_resize (set_next ht a v) = in_progress_resize ht"
  "in_progress_destroy (set_next ht a v) = in_progress_destroy ht"
  "ht_count (set_next ht a v) = ht_count ht" "call_rcu_queue (set_next ht a v) = call_rcu_queue ht"
  "heap_free (set_next ht a v) = heap_free ht"
  by (simp_all add: set_next_def)

lemma fields_set_reverse_hash [simp]:
  "t_size (set_reverse_hash ht a v) = t_size ht"
  "t_resize_target (set_reverse_hash ht a v) = t_resize_target ht"
  "t_resize_initiated (set_reverse_hash ht a v) = t_resize_initiated ht"
  "hash_fct (set_reverse_hash ht a v) = hash_fct ht"
  "compare_fct (set_reverse_hash ht a v) = compare_fct ht"
  "hash_seed (set_reverse_hash ht a v) = hash_seed ht" "flags (set_reverse_hash ht a v) = flags ht"
  "in_progress_resize (set_reverse_hash ht a v) = in_progress_resize ht"
  "in_progress_destroy (set_reverse_hash ht a v) = in_progress_destroy ht"
  "ht_count (set_reverse_hash ht a v) = ht_count ht"
  "call_rcu_queue (set_reverse_hash ht a v) = call_rcu_queue ht"
  "heap_free (set_reverse_hash ht a v) = heap_free ht"
  by (simp_all add: set_reverse_hash_def)

lemma uatomic_cmpxchg_hit [simp]:
  "next_of ht a = old \<Longrightarrow> uatomic_cmpxchg ht a old new = (set_next ht a new, old)"
  by (simp add: uatomic_cmpxchg_def)

lemma uatomic_cmpxchg_miss [simp]:
  "next_of ht a \<noteq> old \<Longrightarrow> uatomic_cmpxchg ht a old new = (ht, next_of ht a)"
  by (simp add: uatomic_cmpxchg_def)

subsection \<open>Changes that leave the list alone\<close>

text \<open>
  \<open>resched ht ht'\<close>: \<open>ht'\<close> differs from \<open>ht\<close> at most in the bookkeeping of a lazy
  resize (the resize target, the initiated flag, the count of resizes in progress and the
  queue of work items).
\<close>

definition resched :: "cds_lfht \<Rightarrow> cds_lfht \<Rightarrow> bool" where
  "resched ht ht' =
     (mem ht' = mem ht \<and> t_size ht' = t_size ht \<and> hash_fct ht' = hash_fct ht
      \<and> compare_fct ht' = compare_fct ht \<and> hash_seed ht' = hash_seed ht \<and> flags ht' = flags ht
      \<and> in_progress_destroy ht' = in_progress_destroy ht \<and> ht_count ht' = ht_count ht
      \<and> heap_free ht' = heap_free ht)"

lemma resched_refl [simp]: "resched ht ht"
  by (simp add: resched_def)

lemma resched_trans: "resched a b \<Longrightarrow> resched b c \<Longrightarrow> resched a c"
  by (simp add: resched_def)

lemma resched_fields:
  assumes "resched ht ht'"
  shows "mem ht' = mem ht" "t_size ht' = t_size ht" "hash_fct ht' = hash_fct ht"
    "compare_fct ht' = compare_fct ht" "hash_seed ht' = hash_seed ht" "flags ht' = flags ht"
    "in_progress_destroy ht' = in_progress_destroy ht" "ht_count ht' = ht_count ht"
    "next_of ht' = next_of ht" "rhash ht' = rhash ht"
  using assms by (auto simp add: resched_def next_of_def rhash_def fun_eq_iff)

lemma resched_set_next: "resched ht ht' \<Longrightarrow> resched (set_next ht a v) (set_next ht' a v)"
  by (simp add: resched_def set_next_def)

text \<open>
  \<open>resize_eq ht ht'\<close>: the bookkeeping of the lazy resize is the same. \<open>quiet ht ys\<close>: a
  scan of the nodes \<open>ys\<close> cannot trigger a lazy resize, because the table does not resize
  by itself or because all the nodes are dummy nodes.
\<close>

definition resize_eq :: "cds_lfht \<Rightarrow> cds_lfht \<Rightarrow> bool" where
  "resize_eq ht ht' =
     (t_resize_target ht' = t_resize_target ht \<and> t_resize_initiated ht' = t_resize_initiated ht
      \<and> in_progress_resize ht' = in_progress_resize ht \<and> call_rcu_queue ht' = call_rcu_queue ht)"

definition quiet :: "cds_lfht \<Rightarrow> addr list \<Rightarrow> bool" where
  "quiet ht ys =
     (flags ht AND CDS_LFHT_AUTO_RESIZE = 0 \<or> (\<forall>a\<in>set ys. DUMMY_FLAG (next_of ht a)))"

lemma resize_eq_refl [simp]: "resize_eq ht ht"
  by (simp add: resize_eq_def)

lemma resize_eq_trans: "resize_eq a b \<Longrightarrow> resize_eq b c \<Longrightarrow> resize_eq a c"
  by (simp add: resize_eq_def)

lemma resize_eq_set_next [simp]: "resize_eq ht (set_next ht' a v) = resize_eq ht ht'"
  by (simp add: resize_eq_def)

lemma resched_resize_eq: "resched ht ht' \<Longrightarrow> resize_eq ht ht' \<Longrightarrow> ht' = ht"
  by (rule cds_lfht.equality) (simp_all add: resched_def resize_eq_def)

lemma quiet_Cons: "quiet ht (c # ys) \<Longrightarrow> quiet ht ys"
  by (auto simp add: quiet_def)

lemma quiet_append: "quiet ht (xs @ ys) \<Longrightarrow> quiet ht ys"
  by (auto simp add: quiet_def)

lemma uatomic_max_eq:
  "uatomic_max ht v (t_resize_target ht) =
     Some (if v \<le> t_resize_target ht then (ht, t_resize_target ht)
           else (ht\<lparr>t_resize_target := v\<rparr>, v))"
  by (subst uatomic_max.simps) simp

lemma cds_lfht_resize_lazy_eq:
  "cds_lfht_resize_lazy ht sz g =
     (let target = max (t_resize_target ht) (push_bit (nat g) sz);
          ht1 = ht\<lparr>t_resize_target := target\<rparr>
      in Some (if \<not> t_resize_initiated ht \<and> sz < target then
                 (if in_progress_destroy ht \<noteq> 0 then ht1
                  else ht1\<lparr>in_progress_resize := in_progress_resize ht + 1,
                           call_rcu_queue := call_rcu_queue ht + 1, t_resize_initiated := True\<rparr>)
               else ht1))"
  by (auto simp add: cds_lfht_resize_lazy_def resize_target_update_def uatomic_max_eq Let_def
      max_def)

lemma cds_lfht_resize_lazy_resched:
  "\<exists>ht'. cds_lfht_resize_lazy ht sz g = Some ht' \<and> resched ht ht'"
  unfolding cds_lfht_resize_lazy_eq Let_def
  by (simp add: resched_def)

lemma check_resize_resched: "\<exists>ht'. check_resize ht sz cl = Some ht' \<and> resched ht ht'"
  using cds_lfht_resize_lazy_resched by (simp add: check_resize_def Let_def)

lemma check_resize_off: "flags ht AND CDS_LFHT_AUTO_RESIZE = 0 \<Longrightarrow> check_resize ht sz cl = Some ht"
  by (simp add: check_resize_def)

subsection \<open>Chains of nodes\<close>

text \<open>
  \<open>seg h p xs q\<close>: following the \<^verbatim>\<open>next\<close> pointers of the memory \<open>h\<close> from the pointer
  \<open>p\<close> visits the nodes \<open>xs\<close> in this order and arrives at the pointer \<open>q\<close>. A chain
  that arrives at \<^verbatim>\<open>NULL\<close> is a list.
\<close>

primrec seg :: "(addr \<Rightarrow> cds_lfht_node) \<Rightarrow> addr option \<Rightarrow> addr list \<Rightarrow> addr option \<Rightarrow> bool" where
  "seg h p [] q = (p = q)"
| "seg h p (a # as) q = (p = Some a \<and> seg h (unflagged (p_next (h a))) as q)"

lemma seg_append: "seg h p (xs @ ys) q = (\<exists>m. seg h p xs m \<and> seg h m ys q)"
  by (induction xs arbitrary: p) auto

lemma seg_cong:
  "(\<And>a. a \<in> set xs \<Longrightarrow> unflagged (p_next (h' a)) = unflagged (p_next (h a)))
    \<Longrightarrow> seg h' p xs q = seg h p xs q"
  by (induction xs arbitrary: p) auto

lemma seg_None [simp]: "seg h None xs q = (xs = [] \<and> q = None)"
  by (cases xs) auto

lemma list_unique: "seg h p xs None \<Longrightarrow> seg h p ys None \<Longrightarrow> xs = ys"
proof (induction xs arbitrary: p ys)
  case Nil
  then show ?case by simp
next
  case (Cons a xs)
  then show ?case by (cases ys) auto
qed

lemma list_head_notin_tail:
  assumes "seg h (unflagged (p_next (h a))) xs None"
  shows "a \<notin> set xs"
proof
  assume "a \<in> set xs"
  then obtain ys zs where xs: "xs = ys @ a # zs" by (auto simp add: in_set_conv_decomp)
  with assms obtain m where "seg h m (a # zs) None" by (auto simp add: seg_append)
  then have "seg h (unflagged (p_next (h a))) zs None" by simp
  with assms have "xs = zs" by (rule list_unique)
  with xs show False by simp
qed

lemma list_distinct: "seg h p xs None \<Longrightarrow> distinct xs"
  by (induction xs arbitrary: p) (auto dest: list_head_notin_tail)

lemma seg_split:
  "seg h p (xs @ a # ys) q =
     (seg h p xs (Some a) \<and> seg h (unflagged (p_next (h a))) ys q)"
  by (auto simp add: seg_append)

lemma seg_last:
  "seg h p (xs @ [a]) q = (seg h p xs (Some a) \<and> unflagged (p_next (h a)) = q)"
  by (auto simp add: seg_append)

text \<open>Linking a node after \<open>a\<close>, and unlinking the node after \<open>a\<close>.\<close>

lemma list_insert_after:
  assumes l: "seg h p (xs @ a # ys) None"
    and n: "n \<notin> set (xs @ a # ys)"
    and h': "\<And>b. b \<noteq> a \<Longrightarrow> b \<noteq> n \<Longrightarrow> h' b = h b"
    and a: "unflagged (p_next (h' a)) = Some n"
    and nn: "unflagged (p_next (h' n)) = unflagged (p_next (h a))"
  shows "seg h' p (xs @ a # n # ys) None"
proof -
  from l have d: "distinct (xs @ a # ys)" by (rule list_distinct)
  from l have 1: "seg h p xs (Some a)" and 2: "seg h (unflagged (p_next (h a))) ys None"
    by (simp_all add: seg_split)
  have same: "h' b = h b" if "b \<in> set xs \<union> set ys" for b
    using that d n by (intro h') auto
  have "seg h' p xs (Some a)"
    using 1 by (subst seg_cong [of xs h' h]) (simp_all add: same)
  moreover have "seg h' (unflagged (p_next (h a))) ys None"
    using 2 by (subst seg_cong [of ys h' h]) (simp_all add: same)
  ultimately show ?thesis using a nn by (simp add: seg_split)
qed

lemma list_unlink_after:
  assumes l: "seg h p (xs @ a # c # ys) None"
    and h': "\<And>b. b \<noteq> a \<Longrightarrow> h' b = h b"
    and a: "unflagged (p_next (h' a)) = unflagged (p_next (h c))"
  shows "seg h' p (xs @ a # ys) None"
proof -
  from l have d: "distinct (xs @ a # c # ys)" by (rule list_distinct)
  from l have 1: "seg h p xs (Some a)" and 2: "seg h (unflagged (p_next (h c))) ys None"
    by (simp_all add: seg_split)
  have same: "h' b = h b" if "b \<in> set xs \<union> set ys" for b
    using that d by (intro h') auto
  have "seg h' p xs (Some a)"
    using 1 by (subst seg_cong [of xs h' h]) (simp_all add: same)
  moreover have "seg h' (unflagged (p_next (h c))) ys None"
    using 2 by (subst seg_cong [of ys h' h]) (simp_all add: same)
  ultimately show ?thesis using a by (simp add: seg_split)
qed

subsection \<open>The scan of \<^verbatim>\<open>_cds_lfht_add\<close> along a list without removed nodes\<close>

text \<open>
  A node \<open>a\<close> of the list \<open>passes\<close> when the scan for \<open>node\<close> goes past it (neither of the
  first two \<^verbatim>\<open>goto insert\<close> tests holds), and \<open>matches\<close> when the key comparison of
  \<^verbatim>\<open>ADD_UNIQUE\<close> and \<^verbatim>\<open>ADD_REPLACE\<close> finds it equal.
\<close>

definition passes :: "cds_lfht \<Rightarrow> addr \<Rightarrow> bool \<Rightarrow> addr \<Rightarrow> bool" where
  "passes ht node dummy a =
     (\<not> rhash ht node < rhash ht a \<and> \<not> (dummy \<and> rhash ht a = rhash ht node))"

definition matches :: "cds_lfht \<Rightarrow> addr \<Rightarrow> add_mode \<Rightarrow> addr \<Rightarrow> bool" where
  "matches ht node mode a =
     ((mode = ADD_UNIQUE \<or> mode = ADD_REPLACE) \<and> \<not> DUMMY_FLAG (next_of ht a)
      \<and> rhash ht a = rhash ht node
      \<and> compare_fct ht (node_key (mem ht node)) (node_key (mem ht a)) = 0)"

definition scan_result ::
  "cds_lfht \<Rightarrow> addr \<Rightarrow> add_mode \<Rightarrow> bool \<Rightarrow> addr \<Rightarrow> addr list \<Rightarrow> add_scan \<Rightarrow> bool" where
  "scan_result ht node mode dummy ip ys r =
     (\<exists>ys1 ys2. ys = ys1 @ ys2
        \<and> (\<forall>a\<in>set ys1. passes ht node dummy a \<and> \<not> matches ht node mode a)
        \<and> (r = Add_insert (last (ip # ys1)) (next_of ht (last (ip # ys1)))
              \<and> (ys2 = [] \<or> \<not> passes ht node dummy (hd ys2))
            \<or> (\<exists>c ys3. ys2 = c # ys3 \<and> passes ht node dummy c \<and> matches ht node mode c
                  \<and> r = Add_match c (next_of ht c))))"

lemma scan_result_stop:
  "ys = [] \<or> \<not> passes ht node dummy (hd ys)
    \<Longrightarrow> scan_result ht node mode dummy ip ys (Add_insert ip (next_of ht ip))"
  unfolding scan_result_def by (intro exI [of _ "[]"] exI [of _ ys]) simp

lemma scan_result_match:
  "passes ht node dummy c \<Longrightarrow> matches ht node mode c
    \<Longrightarrow> scan_result ht node mode dummy ip (c # ys) (Add_match c (next_of ht c))"
  unfolding scan_result_def by (intro exI [of _ "[]"] exI [of _ "c # ys"]) simp

lemma scan_result_step:
  assumes "passes ht node dummy c" "\<not> matches ht node mode c"
    and "scan_result ht node mode dummy c ys r"
  shows "scan_result ht node mode dummy ip (c # ys) r"
proof -
  from assms(3) obtain ys1 ys2 where ys: "ys = ys1 @ ys2"
    and p: "\<forall>a\<in>set ys1. passes ht node dummy a \<and> \<not> matches ht node mode a"
    and r: "r = Add_insert (last (c # ys1)) (next_of ht (last (c # ys1)))
              \<and> (ys2 = [] \<or> \<not> passes ht node dummy (hd ys2))
            \<or> (\<exists>c ys3. ys2 = c # ys3 \<and> passes ht node dummy c \<and> matches ht node mode c
                  \<and> r = Add_match c (next_of ht c))"
    unfolding scan_result_def by blast
  show ?thesis
    unfolding scan_result_def
    using ys p r assms(1,2) by (intro exI [of _ "c # ys1"] exI [of _ ys2]) auto
qed

lemma scan_result_resched:
  "resched ht ht' \<Longrightarrow> scan_result ht' node mode dummy ip ys r = scan_result ht node mode dummy ip ys r"
  by (simp add: scan_result_def passes_def matches_def resched_fields)

lemma cds_lfht_add_scan_run:
  assumes "seg (mem ht) (unflagged (next_of ht ip)) ys None"
    and "\<forall>a\<in>set ys. \<not> REMOVED_FLAG (next_of ht a)"
  shows "\<exists>ht' r. cds_lfht_add_scan ht sz node mode dummy cl ip (next_of ht ip) = Some (ht', r)
            \<and> resched ht ht' \<and> scan_result ht node mode dummy ip ys r
            \<and> (quiet ht ys \<longrightarrow> ht' = ht)"
  using assms
proof (induction ys arbitrary: ht cl ip)
  case Nil
  then have "unflagged (next_of ht ip) = None" by simp
  then show ?case
    by (subst cds_lfht_add_scan.simps) (simp add: scan_result_stop)
next
  case (Cons c ys)
  then have c: "unflagged (next_of ht ip) = Some c"
    and ys: "seg (mem ht) (unflagged (next_of ht c)) ys None"
    and nr: "\<not> REMOVED_FLAG (next_of ht c)" "\<forall>a\<in>set ys. \<not> REMOVED_FLAG (next_of ht a)"
    by (simp_all add: next_of_def)
  show ?case
  proof (cases "passes ht node dummy c")
    case False
    then have "scan_result ht node mode dummy ip (c # ys) (Add_insert ip (next_of ht ip))"
      by (simp add: scan_result_stop)
    moreover have "cds_lfht_add_scan ht sz node mode dummy cl ip (next_of ht ip)
        = Some (ht, Add_insert ip (next_of ht ip))"
      using False c by (subst cds_lfht_add_scan.simps) (auto simp add: passes_def)
    ultimately show ?thesis by auto
  next
    case p: True
    show ?thesis
    proof (cases "matches ht node mode c")
      case True
      then have "scan_result ht node mode dummy ip (c # ys) (Add_match c (next_of ht c))"
        using p by (simp add: scan_result_match)
      moreover have "cds_lfht_add_scan ht sz node mode dummy cl ip (next_of ht ip)
          = Some (ht, Add_match c (next_of ht c))"
        using True p c nr by (subst cds_lfht_add_scan.simps) (auto simp add: passes_def matches_def)
      ultimately show ?thesis by auto
    next
      case m: False
      show ?thesis
      proof (cases "rhash ht ip \<noteq> rhash ht c \<and> \<not> DUMMY_FLAG (next_of ht c)")
        case True
        obtain ht1 where ht1: "check_resize ht sz (cl + 1) = Some ht1" "resched ht ht1"
          using check_resize_resched by blast
        note f = resched_fields [OF ht1(2)]
        from Cons.IH [of ht1 c "cl + 1"] ys nr(2) obtain ht' r where
          r: "cds_lfht_add_scan ht1 sz node mode dummy (cl + 1) c (next_of ht c) = Some (ht', r)"
            "resched ht1 ht'" "scan_result ht1 node mode dummy c ys r"
            "quiet ht1 ys \<longrightarrow> ht' = ht1"
          by (auto simp add: f)
        have q: "ht' = ht" if "quiet ht (c # ys)"
        proof -
          from that True have off: "flags ht AND CDS_LFHT_AUTO_RESIZE = 0"
            by (auto simp add: quiet_def)
          with ht1(1) have "ht1 = ht" by (simp add: check_resize_off)
          with r(4) off show ?thesis by (simp add: quiet_def)
        qed
        have "cds_lfht_add_scan ht sz node mode dummy cl ip (next_of ht ip) = Some (ht', r)"
          using True p m c nr ht1(1) r(1)
          by (subst cds_lfht_add_scan.simps) (auto simp add: passes_def matches_def)
        moreover have "scan_result ht node mode dummy ip (c # ys) r"
          using p m r(3) by (simp add: scan_result_step scan_result_resched [OF ht1(2)])
        ultimately show ?thesis using resched_trans [OF ht1(2) r(2)] q by auto
      next
        case False
        from Cons.IH [of ht c cl] ys nr(2) obtain ht' r where
          r: "cds_lfht_add_scan ht sz node mode dummy cl c (next_of ht c) = Some (ht', r)"
            "resched ht ht'" "scan_result ht node mode dummy c ys r"
            "quiet ht ys \<longrightarrow> ht' = ht"
          by auto
        have "cds_lfht_add_scan ht sz node mode dummy cl ip (next_of ht ip) = Some (ht', r)"
          using False p m c nr r(1)
          by (subst cds_lfht_add_scan.simps) (auto simp add: passes_def matches_def)
        moreover have "scan_result ht node mode dummy ip (c # ys) r"
          using p m r(3) by (simp add: scan_result_step)
        ultimately show ?thesis using r(2) r(4) quiet_Cons [of ht c ys] by auto
      qed
    qed
  qed
qed

subsection \<open>The invariant of the split-ordered list\<close>

definition is_bucket :: "addr \<Rightarrow> bool" where
  "is_bucket a = (case a of Bucket i j \<Rightarrow> True | User n \<Rightarrow> False)"

text \<open>
  \<open>before h a b\<close>: \<open>a\<close> may stand before \<open>b\<close> in the list. Reverse hashes do not decrease,
  and a dummy node stands before every node with its reverse hash.
\<close>

definition before :: "(addr \<Rightarrow> cds_lfht_node) \<Rightarrow> addr \<Rightarrow> addr \<Rightarrow> bool" where
  "before h a b =
     (p_reverse_hash (h a) \<le> p_reverse_hash (h b)
      \<and> (is_bucket b \<longrightarrow> p_reverse_hash (h a) < p_reverse_hash (h b)))"

text \<open>
  A node of the list is not removed, carries the dummy flag exactly when it is a node of a
  level array, and a dummy node is the bucket of an index in \<open>D\<close> with that index reversed
  as its reverse hash.
\<close>

definition node_ok :: "(addr \<Rightarrow> cds_lfht_node) \<Rightarrow> ulong set \<Rightarrow> addr \<Rightarrow> bool" where
  "node_ok h D a =
     (\<not> REMOVED_FLAG (p_next (h a)) \<and> DUMMY_FLAG (p_next (h a)) = is_bucket a
      \<and> (is_bucket a \<longrightarrow> bucket_index a \<in> D \<and> a = bucket_addr (bucket_index a)
            \<and> p_reverse_hash (h a) = bit_reverse_ulong (bucket_index a)))"

text \<open>
  \<open>list_inv h D xs\<close>: the list that starts at the dummy node of level 0 is \<open>xs\<close>; it is
  ordered, its nodes are as above, and it holds the bucket of every index in \<open>D\<close>.
\<close>

definition list_inv :: "(addr \<Rightarrow> cds_lfht_node) \<Rightarrow> ulong set \<Rightarrow> addr list \<Rightarrow> bool" where
  "list_inv h D xs =
     (seg h (Some (Bucket 0 0)) xs None \<and> sorted_wrt (before h) xs
      \<and> (\<forall>a\<in>set xs. node_ok h D a) \<and> (\<forall>d\<in>D. bucket_addr d \<in> set xs))"

lemma is_bucket_simps [simp]: "is_bucket (Bucket i j)" "\<not> is_bucket (User n)"
  "is_bucket (bucket_addr d)"
  by (simp_all add: is_bucket_def bucket_addr_def)

lemma sorted_wrt_same:
  "(\<And>a b. a \<in> set xs \<Longrightarrow> b \<in> set xs \<Longrightarrow> P a b = Q a b) \<Longrightarrow> sorted_wrt P xs = sorted_wrt Q xs"
  by (induction xs) auto

lemma before_same:
  "p_reverse_hash (h' a) = p_reverse_hash (h a) \<Longrightarrow> p_reverse_hash (h' b) = p_reverse_hash (h b)
    \<Longrightarrow> before h' a b = before h a b"
  by (simp add: before_def)

lemma node_ok_same:
  "p_next (h' a) = p_next (h a) \<Longrightarrow> p_reverse_hash (h' a) = p_reverse_hash (h a)
    \<Longrightarrow> node_ok h' D a = node_ok h D a"
  by (simp add: node_ok_def)

lemma list_inv_cong:
  assumes "\<And>a. a \<in> set xs \<Longrightarrow> p_next (h' a) = p_next (h a)"
    and "\<And>a. a \<in> set xs \<Longrightarrow> p_reverse_hash (h' a) = p_reverse_hash (h a)"
  shows "list_inv h' D xs = list_inv h D xs"
proof -
  have "seg h' (Some (Bucket 0 0)) xs None = seg h (Some (Bucket 0 0)) xs None"
    by (rule seg_cong) (simp add: assms)
  moreover have "sorted_wrt (before h') xs = sorted_wrt (before h) xs"
    by (rule sorted_wrt_same, rule before_same) (simp_all add: assms)
  moreover have "node_ok h' D a = node_ok h D a" if "a \<in> set xs" for a
    using that by (intro node_ok_same) (simp_all add: assms)
  then have "(\<forall>a\<in>set xs. node_ok h' D a) = (\<forall>a\<in>set xs. node_ok h D a)"
    by blast
  ultimately show ?thesis by (simp add: list_inv_def)
qed

lemma list_inv_distinct: "list_inv h D xs \<Longrightarrow> distinct xs"
  unfolding list_inv_def by (blast dest: list_distinct)

lemma list_inv_bucket:
  assumes "list_inv h D xs" "d \<in> D"
  shows "bucket_addr d \<in> set xs" "p_reverse_hash (h (bucket_addr d)) = bit_reverse_ulong d"
    "DUMMY_FLAG (p_next (h (bucket_addr d)))"
proof -
  show 1: "bucket_addr d \<in> set xs" using assms by (simp add: list_inv_def)
  with assms have "node_ok h D (bucket_addr d)" by (simp add: list_inv_def)
  then show "p_reverse_hash (h (bucket_addr d)) = bit_reverse_ulong d"
    "DUMMY_FLAG (p_next (h (bucket_addr d)))"
    by (simp_all add: node_ok_def)
qed

text \<open>Linking the node \<open>n\<close> after the node \<open>ip\<close> of the list.\<close>

lemma list_inv_insert:
  assumes inv: "list_inv h D (A @ ip # B)"
    and n: "n \<notin> set (A @ ip # B)"
    and same: "\<And>b. b \<noteq> ip \<Longrightarrow> b \<noteq> n \<Longrightarrow> h' b = h b"
    and hip: "h' ip = (h ip)\<lparr>p_next := vp\<rparr>"
    and hn: "h' n = (h n)\<lparr>p_next := vn\<rparr>"
    and vn: "unflagged vn = unflagged (p_next (h ip))" "\<not> REMOVED_FLAG vn"
      "DUMMY_FLAG vn = is_bucket n"
    and vp: "unflagged vp = Some n" "\<not> REMOVED_FLAG vp"
      "DUMMY_FLAG vp = DUMMY_FLAG (p_next (h ip))"
    and ord1: "\<forall>a\<in>set (A @ [ip]). before h a n"
    and ord2: "\<forall>b\<in>set B. before h n b"
    and D: "D \<subseteq> D'" "\<forall>d\<in>D'. d \<in> D \<or> bucket_addr d = n"
    and nb: "is_bucket n \<Longrightarrow> bucket_index n \<in> D' \<and> n = bucket_addr (bucket_index n)
          \<and> p_reverse_hash (h n) = bit_reverse_ulong (bucket_index n)"
  shows "list_inv h' D' (A @ ip # n # B)"
proof -
  from inv have l: "seg h (Some (Bucket 0 0)) (A @ ip # B) None"
    and s: "sorted_wrt (before h) (A @ ip # B)"
    and ok: "\<forall>a\<in>set (A @ ip # B). node_ok h D a"
    and cov: "\<forall>d\<in>D. bucket_addr d \<in> set (A @ ip # B)"
    by (simp_all add: list_inv_def)
  have nip: "n \<noteq> ip" using n by auto
  have rh: "p_reverse_hash (h' b) = p_reverse_hash (h b)" for b
    using same [of b] hip hn by (cases "b = ip"; cases "b = n") simp_all
  have 1: "seg h' (Some (Bucket 0 0)) (A @ ip # n # B) None"
    using l n by (rule list_insert_after) (simp_all add: same hip hn vn vp)
  have "sorted_wrt (before h) (A @ ip # n # B)"
    using s ord1 ord2 by (auto simp add: sorted_wrt_append)
  moreover have "sorted_wrt (before h') (A @ ip # n # B) = sorted_wrt (before h) (A @ ip # n # B)"
    by (rule sorted_wrt_same, rule before_same) (simp_all add: rh)
  ultimately have 2: "sorted_wrt (before h') (A @ ip # n # B)" by simp
  have 3: "node_ok h' D' a" if "a \<in> set (A @ ip # n # B)" for a
  proof (cases "a = n")
    case True
    then show ?thesis using nb vn by (auto simp add: node_ok_def hn rh)
  next
    case an: False
    with that have "node_ok h D a" using ok by auto
    then have o: "node_ok h D' a" using D(1) by (auto simp add: node_ok_def)
    show ?thesis
    proof (cases "a = ip")
      case True
      then show ?thesis using o vp by (simp add: node_ok_def hip rh)
    next
      case False
      then have "h' a = h a" using an by (simp add: same)
      then show ?thesis using o by (simp add: node_ok_def)
    qed
  qed
  have 4: "bucket_addr d \<in> set (A @ ip # n # B)" if "d \<in> D'" for d
    using that D(2) cov by auto
  show ?thesis using 1 2 3 4 by (simp add: list_inv_def)
qed

text \<open>Unlinking the node \<open>c\<close> that follows the node \<open>p\<close>.\<close>

lemma list_inv_unlink:
  assumes inv: "list_inv h D (A @ p # c # B)"
    and same: "\<And>b. b \<noteq> p \<Longrightarrow> b \<noteq> c \<Longrightarrow> h' b = h b"
    and hp: "h' p = (h p)\<lparr>p_next := vp\<rparr>"
    and vp: "unflagged vp = unflagged (p_next (h c))" "\<not> REMOVED_FLAG vp"
      "DUMMY_FLAG vp = DUMMY_FLAG (p_next (h p))"
    and D: "\<forall>d\<in>D'. d \<in> D \<and> bucket_addr d \<noteq> c"
      "\<forall>d\<in>D. d \<in> D' \<or> bucket_addr d = c"
  shows "list_inv h' D' (A @ p # B)"
proof -
  from inv have l: "seg h (Some (Bucket 0 0)) (A @ p # c # B) None"
    and s: "sorted_wrt (before h) (A @ p # c # B)"
    and ok: "\<forall>a\<in>set (A @ p # c # B). node_ok h D a"
    and cov: "\<forall>d\<in>D. bucket_addr d \<in> set (A @ p # c # B)"
    by (simp_all add: list_inv_def)
  from l have d: "distinct (A @ p # c # B)" by (rule list_distinct)
  have rh: "p_reverse_hash (h' b) = p_reverse_hash (h b)" if "b \<noteq> c" for b
    using same [of b] hp that by (cases "b = p") simp_all
  have cn: "c \<notin> set (A @ p # B)" using d by auto
  have 1: "seg h' (Some (Bucket 0 0)) (A @ p # B) None"
  proof -
    from l have a: "seg h (Some (Bucket 0 0)) A (Some p)"
      and b: "seg h (unflagged (p_next (h c))) B None"
      by (simp_all add: seg_split)
    have sameL: "h' x = h x" if "x \<in> set A \<union> set B" for x
      using that d by (intro same) auto
    have "seg h' (Some (Bucket 0 0)) A (Some p)"
      using a by (subst seg_cong [of A h' h]) (simp_all add: sameL)
    moreover have "seg h' (unflagged (p_next (h c))) B None"
      using b by (subst seg_cong [of B h' h]) (simp_all add: sameL)
    ultimately show ?thesis by (simp add: seg_split hp vp)
  qed
  have "sorted_wrt (before h) (A @ p # B)"
    using s by (auto simp add: sorted_wrt_append)
  moreover have "sorted_wrt (before h') (A @ p # B) = sorted_wrt (before h) (A @ p # B)"
  proof (rule sorted_wrt_same, rule before_same)
    fix a b assume "a \<in> set (A @ p # B)" "b \<in> set (A @ p # B)"
    with cn have "a \<noteq> c" "b \<noteq> c" by auto
    then show "p_reverse_hash (h' a) = p_reverse_hash (h a)"
      "p_reverse_hash (h' b) = p_reverse_hash (h b)" by (simp_all add: rh)
  qed
  ultimately have 2: "sorted_wrt (before h') (A @ p # B)" by simp
  have 3: "node_ok h' D' a" if "a \<in> set (A @ p # B)" for a
  proof -
    from that cn have ac: "a \<noteq> c" by auto
    from that ok have o: "node_ok h D a" by auto
    have "bucket_index a \<in> D'" if "is_bucket a"
    proof -
      from o that have "bucket_index a \<in> D" "a = bucket_addr (bucket_index a)"
        by (simp_all add: node_ok_def)
      with D(2) ac show ?thesis by metis
    qed
    with o have o': "node_ok h D' a" by (auto simp add: node_ok_def)
    show ?thesis
    proof (cases "a = p")
      case True
      then show ?thesis using o' vp ac by (simp add: node_ok_def hp rh)
    next
      case False
      then have "h' a = h a" using ac by (simp add: same)
      then show ?thesis using o' by (simp add: node_ok_def)
    qed
  qed
  have 4: "bucket_addr d \<in> set (A @ p # B)" if "d \<in> D'" for d
    using that D(1) cov by auto
  show ?thesis using 1 2 3 4 by (simp add: list_inv_def)
qed

subsection \<open>\<^verbatim>\<open>_cds_lfht_add\<close> links a node\<close>

text \<open>
  \<open>static_eq ht ht'\<close>: the fields of the table that no list operation writes are the same.
  \<open>frame ht ht' S\<close>: the memory changed at most in the \<^verbatim>\<open>next\<close> pointers of the nodes in \<open>S\<close>.
\<close>

definition static_eq :: "cds_lfht \<Rightarrow> cds_lfht \<Rightarrow> bool" where
  "static_eq ht ht' =
     (t_size ht' = t_size ht \<and> hash_fct ht' = hash_fct ht \<and> compare_fct ht' = compare_fct ht
      \<and> hash_seed ht' = hash_seed ht \<and> flags ht' = flags ht
      \<and> in_progress_destroy ht' = in_progress_destroy ht \<and> ht_count ht' = ht_count ht
      \<and> heap_free ht' = heap_free ht)"

definition frame :: "cds_lfht \<Rightarrow> cds_lfht \<Rightarrow> addr set \<Rightarrow> bool" where
  "frame ht ht' S =
     ((\<forall>b. b \<notin> S \<longrightarrow> mem ht' b = mem ht b)
      \<and> (\<forall>b. rhash ht' b = rhash ht b \<and> node_key (mem ht' b) = node_key (mem ht b)))"

lemma static_eq_refl [simp]: "static_eq ht ht"
  by (simp add: static_eq_def)

lemma static_eq_trans: "static_eq a b \<Longrightarrow> static_eq b c \<Longrightarrow> static_eq a c"
  by (simp add: static_eq_def)

lemma resched_static: "resched ht ht' \<Longrightarrow> static_eq ht ht'"
  by (simp add: resched_def static_eq_def)

lemma static_eq_set_next [simp]: "static_eq ht (set_next ht' a v) = static_eq ht ht'"
  by (simp add: static_eq_def)

lemma frame_refl [simp]: "frame ht ht S"
  by (simp add: frame_def)

lemma frame_trans: "frame a b S \<Longrightarrow> frame b c T \<Longrightarrow> frame a c (S \<union> T)"
  by (simp add: frame_def)

lemma frame_mono: "frame a b S \<Longrightarrow> S \<subseteq> T \<Longrightarrow> frame a b T"
  unfolding frame_def by blast

lemma frame_resched: "resched ht ht' \<Longrightarrow> frame ht ht' {}"
  by (simp add: frame_def resched_fields)

lemma frame_set_next: "frame ht (set_next ht a v) {a}"
  by (simp add: frame_def set_next_def rhash_def)

lemma mem_set_next_other: "b \<noteq> a \<Longrightarrow> mem (set_next ht a v) b = mem ht b"
  by (simp add: set_next_def)

lemma mem_set_next_same: "mem (set_next ht a v) a = (mem ht a)\<lparr>p_next := v\<rparr>"
  by (simp add: set_next_def)

lemma list_inv_node_ok: "list_inv h D xs \<Longrightarrow> a \<in> set xs \<Longrightarrow> node_ok h D a"
  by (simp add: list_inv_def)

lemma list_next_in:
  assumes "seg h p xs None" "a \<in> set xs"
  shows "unflagged (p_next (h a)) = None \<or> (\<exists>b\<in>set xs. unflagged (p_next (h a)) = Some b)"
proof -
  from assms(2) obtain ys zs where xs: "xs = ys @ a # zs" by (auto simp add: in_set_conv_decomp)
  with assms(1) have "seg h (unflagged (p_next (h a))) zs None" by (simp add: seg_split)
  then show ?thesis using xs by (cases zs) auto
qed

lemma cds_lfht_add_retry_insert:
  assumes inv: "list_inv (mem ht) D xs"
    and xs: "xs = pre @ lookup # ys"
    and node: "node \<notin> set xs"
    and le: "rhash ht lookup \<le> rhash ht node"
    and strict: "dummy \<Longrightarrow> rhash ht lookup < rhash ht node"
    and nb: "is_bucket node = dummy"
    and nbk: "dummy \<Longrightarrow> node = bucket_addr (bucket_index node)
          \<and> rhash ht node = bit_reverse_ulong (bucket_index node)"
    and D': "D' = (if dummy then insert (bucket_index node) D else D)"
    and nomatch: "\<forall>a\<in>set ys. \<not> matches ht node mode a"
  shows "\<exists>ht' ys1 ys2. cds_lfht_add_retry ht sz node mode dummy lookup
              = Some (ht', if mode = ADD_REPLACE then None else Some node)
          \<and> ys = ys1 @ ys2
          \<and> (\<forall>a\<in>set ys1. passes ht node dummy a)
          \<and> (ys2 = [] \<or> \<not> passes ht node dummy (hd ys2))
          \<and> list_inv (mem ht') D' (pre @ lookup # ys1 @ node # ys2)
          \<and> static_eq ht ht' \<and> frame ht ht' {node, last (lookup # ys1)}
          \<and> (quiet ht ys \<longrightarrow> resize_eq ht ht')"
proof -
  let ?h = "mem ht"
  have rh: "rhash ht = (\<lambda>a. p_reverse_hash (?h a))" and nx: "next_of ht = (\<lambda>a. p_next (?h a))"
    by (simp_all add: rhash_def next_of_def fun_eq_iff)
  from inv xs have l: "seg ?h (Some (Bucket 0 0)) (pre @ lookup # ys) None"
    and s: "sorted_wrt (before ?h) (pre @ lookup # ys)"
    by (simp_all add: list_inv_def)
  have ok: "\<And>a. a \<in> set xs \<Longrightarrow> node_ok ?h D a"
    using inv by (rule list_inv_node_ok)
  from l have ys: "seg ?h (unflagged (next_of ht lookup)) ys None"
    by (simp add: seg_split nx)
  have nr: "\<forall>a\<in>set ys. \<not> REMOVED_FLAG (next_of ht a)"
    using ok xs by (auto simp add: node_ok_def nx)
  from cds_lfht_add_scan_run [OF ys nr, of sz node mode dummy 0]
  obtain ht1 r where sc: "cds_lfht_add_scan ht sz node mode dummy 0 lookup (next_of ht lookup)
        = Some (ht1, r)"
    and rs: "resched ht ht1" and sr: "scan_result ht node mode dummy lookup ys r"
    and qu: "quiet ht ys \<longrightarrow> ht1 = ht"
    by blast
  from sr nomatch obtain ys1 ys2 where y12: "ys = ys1 @ ys2"
    and pass: "\<forall>a\<in>set ys1. passes ht node dummy a"
    and r: "r = Add_insert (last (lookup # ys1)) (next_of ht (last (lookup # ys1)))"
    and stop: "ys2 = [] \<or> \<not> passes ht node dummy (hd ys2)"
    unfolding scan_result_def by (auto simp del: last.simps)
  define ip where "ip = last (lookup # ys1)"
  define it where "it = next_of ht ip"
  have sc': "cds_lfht_add_scan ht sz node mode dummy 0 lookup (next_of ht lookup)
        = Some (ht1, Add_insert ip it)"
    using sc by (simp only: r ip_def it_def)
  obtain A where A: "pre @ lookup # ys1 = A @ [ip]"
    unfolding ip_def by (metis append_butlast_last_id last_appendR list.distinct(1) append_is_Nil_conv)
  then have xsA: "xs = A @ ip # ys2" using xs y12 by simp
  have ipin: "ip \<in> set xs" using xsA by simp
  have ipn: "ip \<noteq> node" using ipin node by auto
  have okip: "node_ok ?h D ip" using ok ipin by simp
  then have itf: "\<not> REMOVED_FLAG it" "DUMMY_FLAG it = is_bucket ip"
    by (simp_all add: node_ok_def it_def nx)
  have tgt: "Some node \<noteq> unflagged it"
    using list_next_in [OF l [folded xs] ipin] node by (auto simp add: it_def nx)
  note f = resched_fields [OF rs]
  define vn where "vn = (if \<not> dummy then clear_flag it else flag_dummy (clear_flag it))"
  define vp where "vp = (if is_dummy it then flag_dummy (plain (Some node)) else plain (Some node))"
  define ht3 where "ht3 = set_next (set_next ht1 node vn) ip vp"
  have cas: "uatomic_cmpxchg (set_next ht1 node vn) ip it v
      = (set_next (set_next ht1 node vn) ip v, it)" for v
    using ipn by (simp add: it_def f)
  have run: "cds_lfht_add_retry ht sz node mode dummy lookup
      = Some (ht3, if mode = ADD_REPLACE then None else Some node)"
    apply (subst cds_lfht_add_retry.simps)
    using le tgt itf(1) ipn
    by (simp add: sc' cas ht3_def vp_def flip: vn_def)
  have ord1: "\<forall>a\<in>set (A @ [ip]). before ?h a node"
  proof
    fix a assume "a \<in> set (A @ [ip])"
    then have "a \<in> set pre \<or> a = lookup \<or> a \<in> set ys1" by (simp flip: A) blast
    then show "before ?h a node"
    proof (elim disjE)
      assume "a \<in> set pre"
      then have "before ?h a lookup" using s by (auto simp add: sorted_wrt_append)
      then show ?thesis using le strict nb by (auto simp add: before_def rh)
    next
      assume "a = lookup"
      then show ?thesis using le strict nb by (auto simp add: before_def rh)
    next
      assume "a \<in> set ys1"
      with pass have "passes ht node dummy a" by simp
      then show ?thesis using nb by (auto simp add: before_def passes_def rh)
    qed
  qed
  have ord2: "\<forall>b\<in>set ys2. before ?h node b"
  proof (cases ys2)
    case Nil
    then show ?thesis by simp
  next
    case (Cons c zs)
    have cin: "c \<in> set xs" using xsA Cons by simp
    have "sorted_wrt (before ?h) (A @ ip # c # zs)"
      using s xsA xs Cons by simp
    then have cz: "\<forall>b\<in>set zs. before ?h c b"
      by (auto simp add: sorted_wrt_append)
    from stop Cons have "\<not> passes ht node dummy c" by simp
    then consider "rhash ht node < rhash ht c" | "dummy" "rhash ht c = rhash ht node"
      by (auto simp add: passes_def)
    then show ?thesis
    proof cases
      case 1
      then show ?thesis using cz Cons by (auto simp add: before_def rh)
    next
      case 2
      have "\<not> is_bucket c"
      proof
        assume b: "is_bucket c"
        with ok [OF cin] have "c = bucket_addr (bucket_index c)"
          "rhash ht c = bit_reverse_ulong (bucket_index c)" by (simp_all add: node_ok_def rh)
        with 2 nbk have "c = node" by (metis bit_reverse_ulong_inj)
        with cin node show False by simp
      qed
      then show ?thesis using cz Cons 2 by (auto simp add: before_def rh)
    qed
  qed
  have inv': "list_inv (mem ht3) D' (A @ ip # node # ys2)"
  proof (rule list_inv_insert [OF inv [unfolded xsA] node [unfolded xsA], of _ vp vn])
    show "mem ht3 b = ?h b" if "b \<noteq> ip" "b \<noteq> node" for b
      using that by (simp add: ht3_def mem_set_next_other f)
    show "mem ht3 ip = (?h ip)\<lparr>p_next := vp\<rparr>"
      by (simp add: ht3_def mem_set_next_same mem_set_next_other ipn f)
    show "mem ht3 node = (?h node)\<lparr>p_next := vn\<rparr>"
      using ipn by (simp add: ht3_def mem_set_next_same mem_set_next_other f)
    show "unflagged vn = unflagged (p_next (?h ip))" "\<not> REMOVED_FLAG vn"
      "DUMMY_FLAG vn = is_bucket node"
      by (simp_all add: vn_def it_def nx nb)
    show "unflagged vp = Some node" "\<not> REMOVED_FLAG vp"
      "DUMMY_FLAG vp = DUMMY_FLAG (p_next (?h ip))"
      by (simp_all add: vp_def it_def nx)
    show "\<forall>a\<in>set (A @ [ip]). before ?h a node" by (rule ord1)
    show "\<forall>b\<in>set ys2. before ?h node b" by (rule ord2)
    show "D \<subseteq> D'" by (auto simp add: D')
    show "\<forall>d\<in>D'. d \<in> D \<or> bucket_addr d = node" using nbk by (auto simp add: D')
    show "bucket_index node \<in> D' \<and> node = bucket_addr (bucket_index node)
        \<and> p_reverse_hash (?h node) = bit_reverse_ulong (bucket_index node)" if "is_bucket node"
      using that nb nbk by (simp add: D' rh)
  qed
  have "A @ ip # node # ys2 = pre @ lookup # ys1 @ node # ys2" using A by simp
  with inv' have inv'': "list_inv (mem ht3) D' (pre @ lookup # ys1 @ node # ys2)" by simp
  have st: "static_eq ht ht3" using resched_static [OF rs] by (simp add: ht3_def)
  have fr: "frame ht ht3 {node, ip}"
    using frame_trans [OF frame_trans [OF frame_resched [OF rs] frame_set_next [of ht1 node vn]]
        frame_set_next [of "set_next ht1 node vn" ip vp]]
    by (simp add: ht3_def insert_commute)
  have "quiet ht ys \<longrightarrow> resize_eq ht ht3" using qu by (auto simp add: ht3_def)
  then show ?thesis
    using run y12 pass stop inv'' st fr unfolding ip_def by blast
qed

subsection \<open>Bucket garbage collection unlinks the removed node\<close>

lemma gc_bucket_scan_clean:
  assumes "seg (mem ht) (unflagged iter) ys None"
    and "\<forall>a\<in>set ys. \<not> REMOVED_FLAG (next_of ht a)"
  shows "gc_bucket_scan ht node ip iter = Some Gc_return"
  using assms
proof (induction ys arbitrary: ip iter)
  case Nil
  then show ?case by (subst gc_bucket_scan.simps) simp
next
  case (Cons c ys)
  then have "unflagged iter = Some c" "\<not> REMOVED_FLAG (next_of ht c)"
    "gc_bucket_scan ht node c (next_of ht c) = Some Gc_return"
    by (simp_all add: next_of_def)
  then show ?case by (subst gc_bucket_scan.simps) simp
qed

lemma gc_bucket_scan_find:
  assumes "seg (mem ht) (unflagged (next_of ht ip)) (ys1 @ [c]) q"
    and "\<forall>a\<in>set ys1. \<not> REMOVED_FLAG (next_of ht a) \<and> rhash ht a \<le> rhash ht node"
    and "REMOVED_FLAG (next_of ht c)" "rhash ht c \<le> rhash ht node"
  shows "gc_bucket_scan ht node ip (next_of ht ip)
      = Some (Gc_unlink (last (ip # ys1)) (next_of ht (last (ip # ys1))) (next_of ht c))"
  using assms
proof (induction ys1 arbitrary: ip)
  case Nil
  then have "unflagged (next_of ht ip) = Some c" by simp
  with Nil show ?case by (subst gc_bucket_scan.simps) (simp add: not_less)
next
  case (Cons a ys1)
  then have a: "unflagged (next_of ht ip) = Some a" "\<not> REMOVED_FLAG (next_of ht a)"
    "rhash ht a \<le> rhash ht node"
    and "seg (mem ht) (unflagged (next_of ht a)) (ys1 @ [c]) q"
    by (simp_all add: next_of_def)
  with Cons have "gc_bucket_scan ht node a (next_of ht a)
      = Some (Gc_unlink (last (a # ys1)) (next_of ht (last (a # ys1))) (next_of ht c))"
    by simp
  with a show ?case by (subst gc_bucket_scan.simps) (simp add: not_less)
qed

lemma cds_lfht_gc_bucket_clean:
  assumes "seg (mem ht) (Some d) (d # ys) None"
    and "\<forall>a\<in>set ys. \<not> REMOVED_FLAG (next_of ht a)"
    and "rhash ht d \<le> rhash ht node" "d \<noteq> node"
  shows "cds_lfht_gc_bucket' ht d node = Some ht"
proof -
  have "gc_bucket_scan ht node d (next_of ht d) = Some Gc_return"
    using assms(1,2) by (intro gc_bucket_scan_clean [of _ _ ys]) (simp_all add: next_of_def)
  then show ?thesis using assms(3,4) by (subst cds_lfht_gc_bucket'.simps) simp
qed

lemma cds_lfht_gc_bucket_unlink:
  assumes l: "seg (mem ht) (Some d) (d # ys1 @ c # B) None"
    and clean: "\<forall>a\<in>set (d # ys1 @ B). \<not> REMOVED_FLAG (next_of ht a)"
    and c: "REMOVED_FLAG (next_of ht c)"
    and le: "\<forall>a\<in>set (d # ys1 @ [c]). rhash ht a \<le> rhash ht node"
    and dn: "d \<noteq> node"
    and p: "p = last (d # ys1)"
    and vp: "vp = \<lparr>unflagged = unflagged (next_of ht c), REMOVED_FLAG = False,
                   DUMMY_FLAG = DUMMY_FLAG (next_of ht p)\<rparr>"
  shows "cds_lfht_gc_bucket' ht d node = Some (set_next ht p vp)"
proof -
  let ?ht' = "set_next ht p vp"
  from l have dist: "distinct (d # ys1 @ c # B)" by (rule list_distinct)
  obtain P where P: "d # ys1 = P @ [p]"
    unfolding p by (metis append_butlast_last_id list.distinct(1))
  have e: "P @ p # X = d # ys1 @ X" for X
  proof -
    have "P @ p # X = (P @ [p]) @ X" by simp
    also have "\<dots> = (d # ys1) @ X" by (simp only: P)
    finally show ?thesis by simp
  qed
  from l have l': "seg (mem ht) (Some d) (P @ p # c # B) None" by (simp only: e)
  have pin: "p \<in> set (d # ys1)" unfolding p by (rule last_in_set) simp
  have pc: "p \<noteq> c" using pin dist by auto
  have sc: "gc_bucket_scan ht node d (next_of ht d) = Some (Gc_unlink p (next_of ht p) (next_of ht c))"
    unfolding p
    using l c le clean
    by (intro gc_bucket_scan_find [where q = "unflagged (next_of ht c)"])
       (auto simp add: seg_append next_of_def)
  have prm: "\<not> REMOVED_FLAG (next_of ht p)" using clean pin by auto
  have new: "(let new_next = (if is_dummy (next_of ht p) then flag_dummy (clear_flag (next_of ht c))
                else clear_flag (next_of ht c))
              in if is_removed (next_of ht p) then flag_removed new_next else new_next) = vp"
    using prm by (simp add: vp flagged_eq_iff)
  have l2: "seg (mem ?ht') (Some d) (P @ p # B) None"
    using l' by (rule list_unlink_after)
      (simp_all add: mem_set_next_other mem_set_next_same vp next_of_def)
  then have l3: "seg (mem ?ht') (Some d) (d # ys1 @ B) None" by (simp only: e)
  have clean2: "\<forall>a\<in>set (ys1 @ B). \<not> REMOVED_FLAG (next_of ?ht' a)"
    using clean by (auto simp add: vp)
  have "rhash ?ht' d \<le> rhash ?ht' node" using le by simp
  with l3 clean2 dn have again: "cds_lfht_gc_bucket' ?ht' d node = Some ?ht'"
    by (intro cds_lfht_gc_bucket_clean [of _ _ "ys1 @ B"]) simp_all
  show ?thesis
    apply (subst cds_lfht_gc_bucket'.simps)
    using le dn prm new again
    by (simp add: sc Let_def)
qed

subsection \<open>\<^verbatim>\<open>_cds_lfht_del\<close>\<close>

lemma del_flag_removed: "REMOVED_FLAG old \<Longrightarrow> del_flag ht n dr old = Some (ht, False)"
  by (subst del_flag.simps) simp

lemma del_flag_flags:
  assumes "\<not> REMOVED_FLAG (next_of ht n)" "DUMMY_FLAG (next_of ht n) = dr"
  shows "del_flag ht n dr (next_of ht n) = Some (set_next ht n (flag_removed (next_of ht n)), True)"
  using assms by (subst del_flag.simps) auto

lemma cds_lfht_del_NULL [simp]: "cds_lfht_del' ht sz None dr = Some (ht, - ENOENT)"
  by (simp add: cds_lfht_del'_def)

lemma cds_lfht_del_removed:
  "REMOVED_FLAG (next_of ht n) \<Longrightarrow> cds_lfht_del' ht sz (Some n) dr = Some (ht, - ENOENT)"
  by (simp add: cds_lfht_del'_def del_flag_removed)

lemma sorted_wrt_before_le:
  assumes "sorted_wrt (before h) (A @ d # ys @ n # B)"
  shows "\<forall>a\<in>set (d # ys @ [n]). p_reverse_hash (h a) \<le> p_reverse_hash (h n)"
  using assms by (auto simp add: sorted_wrt_append before_def)

lemma cds_lfht_del_unlink:
  assumes inv: "list_inv (mem ht) D (A @ d # ys1 @ n # B)"
    and lk: "lookup_bucket sz (bit_reverse_ulong (rhash ht n)) = Some d"
    and dr: "dr = is_bucket n"
    and D': "D' = {x \<in> D. bucket_addr x \<noteq> n}"
  shows "\<exists>ht'. cds_lfht_del' ht sz (Some n) dr = Some (ht', 0)
          \<and> list_inv (mem ht') D' (A @ d # ys1 @ B)
          \<and> static_eq ht ht' \<and> frame ht ht' {n, last (d # ys1)}
          \<and> REMOVED_FLAG (next_of ht' n) \<and> resize_eq ht ht'"
proof -
  let ?h = "mem ht"
  let ?xs = "A @ d # ys1 @ n # B"
  have rh: "rhash ht = (\<lambda>a. p_reverse_hash (?h a))" and nx: "next_of ht = (\<lambda>a. p_next (?h a))"
    by (simp_all add: rhash_def next_of_def fun_eq_iff)
  from inv have l: "seg ?h (Some (Bucket 0 0)) ?xs None"
    and s: "sorted_wrt (before ?h) ?xs"
    by (simp_all add: list_inv_def)
  have ok: "\<And>a. a \<in> set ?xs \<Longrightarrow> node_ok ?h D a" using inv by (rule list_inv_node_ok)
  from l have dist: "distinct ?xs" by (rule list_distinct)
  have okn: "node_ok ?h D n" using ok by simp
  then have nf: "\<not> REMOVED_FLAG (next_of ht n)" "DUMMY_FLAG (next_of ht n) = dr"
    by (simp_all add: node_ok_def nx dr)
  define ht1 where "ht1 = set_next ht n (flag_removed (next_of ht n))"
  have fl: "del_flag ht n dr (next_of ht n) = Some (ht1, True)"
    using nf by (simp add: del_flag_flags ht1_def)
  define p where "p = last (d # ys1)"
  define vp where "vp = \<lparr>unflagged = unflagged (next_of ht1 n), REMOVED_FLAG = False,
                   DUMMY_FLAG = DUMMY_FLAG (next_of ht1 p)\<rparr>"
  define ht2 where "ht2 = set_next ht1 p vp"
  have pin: "p \<in> set (d # ys1)" unfolding p_def by (rule last_in_set) simp
  have pn: "p \<noteq> n" using pin dist by auto
  have dn: "d \<noteq> n" using dist by auto
  obtain P where P: "A @ d # ys1 = P @ [p]"
    unfolding p_def by (metis append_butlast_last_id last_appendR list.distinct(1) append_is_Nil_conv)
  have e: "P @ p # X = A @ d # ys1 @ X" for X
  proof -
    have "P @ p # X = (P @ [p]) @ X" by simp
    also have "\<dots> = (A @ d # ys1) @ X" by (simp only: P)
    finally show ?thesis by simp
  qed
  have l1: "seg (mem ht1) (Some d) (d # ys1 @ n # B) None"
  proof -
    from l have "seg ?h (Some d) (d # ys1 @ n # B) None" by (simp add: seg_split)
    moreover have "seg (mem ht1) (Some d) (d # ys1 @ n # B) None
        = seg ?h (Some d) (d # ys1 @ n # B) None"
      by (rule seg_cong) (simp add: ht1_def set_next_def next_of_def)
    ultimately show ?thesis by simp
  qed
  have gc: "cds_lfht_gc_bucket' ht1 d n = Some ht2"
    unfolding ht2_def
  proof (rule cds_lfht_gc_bucket_unlink [OF l1 _ _ _ dn p_def vp_def])
    show "\<forall>a\<in>set (d # ys1 @ B). \<not> REMOVED_FLAG (next_of ht1 a)"
    proof
      fix a assume a: "a \<in> set (d # ys1 @ B)"
      then have "a \<noteq> n" using dist by auto
      moreover have "node_ok ?h D a" using a by (intro ok) auto
      ultimately show "\<not> REMOVED_FLAG (next_of ht1 a)" by (simp add: ht1_def node_ok_def nx)
    qed
    show "REMOVED_FLAG (next_of ht1 n)" by (simp add: ht1_def)
    show "\<forall>a\<in>set (d # ys1 @ [n]). rhash ht1 a \<le> rhash ht1 n"
      using sorted_wrt_before_le [OF s] by (simp add: ht1_def rh)
  qed
  have rm2: "REMOVED_FLAG (next_of ht2 n)" using pn by (simp add: ht2_def ht1_def)
  have lk1: "lookup_bucket sz (bit_reverse_ulong (rhash ht1 n)) = Some d"
    using lk by (simp add: ht1_def)
  have run: "cds_lfht_del' ht sz (Some n) dr = Some (ht2, 0)"
    using rm2 by (simp add: cds_lfht_del'_def fl lk1 gc)
  have inv': "list_inv (mem ht2) D' (P @ p # B)"
  proof (rule list_inv_unlink [of ?h D P p n B _ vp])
    show "list_inv ?h D (P @ p # n # B)" using inv by (simp only: e)
    show "mem ht2 b = ?h b" if "b \<noteq> p" "b \<noteq> n" for b
      using that by (simp add: ht2_def ht1_def mem_set_next_other)
    show "mem ht2 p = (?h p)\<lparr>p_next := vp\<rparr>"
      using pn by (simp add: ht2_def ht1_def mem_set_next_other mem_set_next_same)
    show "unflagged vp = unflagged (p_next (?h n))" "\<not> REMOVED_FLAG vp"
      "DUMMY_FLAG vp = DUMMY_FLAG (p_next (?h p))"
      using pn by (simp_all add: vp_def ht1_def nx)
    show "\<forall>x\<in>D'. x \<in> D \<and> bucket_addr x \<noteq> n" "\<forall>x\<in>D. x \<in> D' \<or> bucket_addr x = n"
      by (auto simp add: D')
  qed
  then have inv'': "list_inv (mem ht2) D' (A @ d # ys1 @ B)" by (simp only: e)
  have st: "static_eq ht ht2" by (simp add: ht2_def ht1_def)
  have fr: "frame ht ht2 {n, p}"
    using frame_trans [OF frame_set_next [of ht n "flag_removed (next_of ht n)"]
        frame_set_next [of ht1 p vp, unfolded ht1_def]]
    by (simp add: ht2_def ht1_def insert_commute)
  have "resize_eq ht ht2" by (simp add: ht2_def ht1_def)
  then show ?thesis using rm2 run inv'' st fr unfolding p_def by blast
qed

subsection \<open>\<^verbatim>\<open>_cds_lfht_replace\<close>\<close>

lemma set_next_twice [simp]: "set_next (set_next ht a v) a w = set_next ht a w"
  by (simp add: set_next_def)


lemma replace_flag_hit:
  assumes "\<not> REMOVED_FLAG old_next" "\<not> DUMMY_FLAG old_next" "Some new \<noteq> unflagged old_next"
    and "next_of ht old = old_next" "new \<noteq> old"
  shows "replace_flag ht old old_next new
      = Some (set_next (set_next ht new (clear_flag old_next)) old
                (flag_removed (plain (Some new))), True)"
  using assms by (subst replace_flag.simps) auto

text \<open>
  An observed successor that is no longer the successor: the compare-and-swap fails, and
  the loop goes on with the successor it found.
\<close>

lemma replace_flag_stale:
  assumes "\<not> REMOVED_FLAG old_next" "\<not> DUMMY_FLAG old_next" "Some new \<noteq> unflagged old_next"
    and "next_of ht old \<noteq> old_next" "new \<noteq> old"
  shows "replace_flag ht old old_next new
      = replace_flag (set_next ht new (clear_flag old_next)) old (next_of ht old) new"
  using assms by (subst replace_flag.simps) auto

lemma replace_flag_any:
  assumes "\<not> REMOVED_FLAG old_next" "\<not> DUMMY_FLAG old_next" "Some new \<noteq> unflagged old_next"
    and "\<not> REMOVED_FLAG (next_of ht old)" "\<not> DUMMY_FLAG (next_of ht old)"
    and "Some new \<noteq> unflagged (next_of ht old)" "new \<noteq> old"
  shows "replace_flag ht old old_next new
      = Some (set_next (set_next ht new (clear_flag (next_of ht old))) old
                (flag_removed (plain (Some new))), True)"
proof (cases "next_of ht old = old_next")
  case True
  then show ?thesis using assms by (simp add: replace_flag_hit)
next
  case False
  let ?ht1 = "set_next ht new (clear_flag old_next)"
  have "replace_flag ht old old_next new = replace_flag ?ht1 old (next_of ht old) new"
    using assms False by (simp add: replace_flag_stale)
  also have "\<dots> = Some (set_next (set_next ?ht1 new (clear_flag (next_of ht old))) old
                (flag_removed (plain (Some new))), True)"
    using assms by (intro replace_flag_hit) simp_all
  finally show ?thesis by simp
qed

lemma cds_lfht_replace_NULL [simp]:
  "cds_lfht_replace' ht sz None old_next new = Some (ht, - ENOENT)"
  by (simp add: cds_lfht_replace'_def)

text \<open>Replacing the node \<open>c\<close> of the list by the node \<open>n\<close> with the same reverse hash.\<close>

lemma list_inv_replace:
  assumes inv: "list_inv h D (A @ p # c # B)"
    and n: "n \<notin> set (A @ p # c # B)"
    and user: "\<not> is_bucket c" "\<not> is_bucket n"
    and rh: "p_reverse_hash (h n) = p_reverse_hash (h c)"
    and same: "\<And>b. b \<noteq> p \<Longrightarrow> b \<noteq> c \<Longrightarrow> b \<noteq> n \<Longrightarrow> h' b = h b"
    and hp: "h' p = (h p)\<lparr>p_next := vp\<rparr>"
    and hn: "h' n = (h n)\<lparr>p_next := vn\<rparr>"
    and vp: "unflagged vp = Some n" "\<not> REMOVED_FLAG vp" "DUMMY_FLAG vp = DUMMY_FLAG (p_next (h p))"
    and vn: "unflagged vn = unflagged (p_next (h c))" "\<not> REMOVED_FLAG vn" "\<not> DUMMY_FLAG vn"
  shows "list_inv h' D (A @ p # n # B)"
proof -
  define hm where "hm = h(n := (h n)\<lparr>p_next := vn\<rparr>, c := (h c)\<lparr>p_next := plain (Some n)\<rparr>)"
  from inv have s: "sorted_wrt (before h) (A @ p # c # B)" by (simp add: list_inv_def)
  have okc: "node_ok h D c" using inv by (rule list_inv_node_ok) simp
  have d: "distinct (A @ p # c # B)" using inv by (rule list_inv_distinct)
  have nc: "n \<noteq> c" "n \<noteq> p" "p \<noteq> c" using n d by auto
  have "list_inv hm D ((A @ [p]) @ c # n # B)"
  proof (rule list_inv_insert [of h D _ c B n _ "plain (Some n)" vn])
    show "list_inv h D ((A @ [p]) @ c # B)" using inv by simp
    show "n \<notin> set ((A @ [p]) @ c # B)" using n by simp
    show "hm c = (h c)\<lparr>p_next := plain (Some n)\<rparr>" by (simp add: hm_def)
    show "hm n = (h n)\<lparr>p_next := vn\<rparr>" using nc by (simp add: hm_def)
    show "DUMMY_FLAG vn = is_bucket n" using vn user by simp
    show "DUMMY_FLAG (plain (Some n)) = DUMMY_FLAG (p_next (h c))"
      using okc user by (simp add: node_ok_def)
    show "\<forall>a\<in>set ((A @ [p]) @ [c]). before h a n"
      using s user by (auto simp add: sorted_wrt_append before_def rh)
    show "\<forall>b\<in>set B. before h n b"
      using s by (auto simp add: sorted_wrt_append before_def rh)
    show "is_bucket n \<Longrightarrow> bucket_index n \<in> D \<and> n = bucket_addr (bucket_index n)
        \<and> p_reverse_hash (h n) = bit_reverse_ulong (bucket_index n)"
      using user by simp
    show "\<forall>d\<in>D. d \<in> D \<or> bucket_addr d = n" by simp
  qed (simp_all add: hm_def vn)
  then have m: "list_inv hm D (A @ p # c # n # B)" by simp
  have "list_inv h' D (A @ p # (n # B))"
  proof (rule list_inv_unlink [of hm D A p c "n # B" _ vp])
    show "list_inv hm D (A @ p # c # n # B)" by (rule m)
    show "h' b = hm b" if "b \<noteq> p" "b \<noteq> c" for b
      using that same [of b] hn by (cases "b = n") (simp_all add: hm_def)
    show "h' p = (hm p)\<lparr>p_next := vp\<rparr>" using nc by (simp add: hp hm_def)
    show "unflagged vp = unflagged (p_next (hm c))" "\<not> REMOVED_FLAG vp"
      "DUMMY_FLAG vp = DUMMY_FLAG (p_next (hm p))"
      using nc vp by (simp_all add: hm_def)
    show "\<forall>d\<in>D. d \<in> D \<and> bucket_addr d \<noteq> c" using user by auto
    show "\<forall>d\<in>D. d \<in> D \<or> bucket_addr d = c" by simp
  qed
  then show ?thesis by simp
qed

lemma cds_lfht_replace_list:
  assumes inv: "list_inv (mem ht) D (A @ d # ys1 @ c # B)"
    and lk: "lookup_bucket sz (bit_reverse_ulong (rhash ht c)) = Some d"
    and n: "n \<notin> set (A @ d # ys1 @ c # B)"
    and user: "\<not> is_bucket c" "\<not> is_bucket n"
    and rhn: "rhash ht n = rhash ht c"
    and old: "\<not> REMOVED_FLAG old_next" "\<not> DUMMY_FLAG old_next" "Some n \<noteq> unflagged old_next"
  shows "\<exists>ht'. cds_lfht_replace' ht sz (Some c) old_next n = Some (ht', 0)
          \<and> list_inv (mem ht') D (A @ d # ys1 @ n # B)
          \<and> static_eq ht ht' \<and> frame ht ht' {n, c, last (d # ys1)}
          \<and> next_of ht' c = flag_removed (plain (Some n))
          \<and> next_of ht' n = clear_flag (next_of ht c) \<and> resize_eq ht ht'"
proof -
  let ?h = "mem ht"
  let ?xs = "A @ d # ys1 @ c # B"
  have rh: "rhash ht = (\<lambda>a. p_reverse_hash (?h a))" and nx: "next_of ht = (\<lambda>a. p_next (?h a))"
    by (simp_all add: rhash_def next_of_def fun_eq_iff)
  from inv have l: "seg ?h (Some (Bucket 0 0)) ?xs None"
    and s: "sorted_wrt (before ?h) ?xs"
    by (simp_all add: list_inv_def)
  have ok: "\<And>a. a \<in> set ?xs \<Longrightarrow> node_ok ?h D a" using inv by (rule list_inv_node_ok)
  from l have dist: "distinct ?xs" by (rule list_distinct)
  have okc: "node_ok ?h D c" using ok by simp
  then have cf: "\<not> REMOVED_FLAG (next_of ht c)" "\<not> DUMMY_FLAG (next_of ht c)"
    using user by (simp_all add: node_ok_def nx)
  have ctn: "Some n \<noteq> unflagged (next_of ht c)"
    using list_next_in [OF l, of c] n by (auto simp add: nx)
  have nc: "n \<noteq> c" using n by auto
  define ht1 where "ht1 = set_next ht n (clear_flag (next_of ht c))"
  define ht2 where "ht2 = set_next ht1 c (flag_removed (plain (Some n)))"
  have fl: "replace_flag ht c old_next n = Some (ht2, True)"
    using old cf ctn nc by (simp add: replace_flag_any ht2_def ht1_def)
  define p where "p = last (d # ys1)"
  define vp where "vp = \<lparr>unflagged = unflagged (next_of ht2 c), REMOVED_FLAG = False,
                   DUMMY_FLAG = DUMMY_FLAG (next_of ht2 p)\<rparr>"
  define ht3 where "ht3 = set_next ht2 p vp"
  have pin: "p \<in> set (d # ys1)" unfolding p_def by (rule last_in_set) simp
  have pc: "p \<noteq> c" using pin dist by auto
  have pn: "p \<noteq> n" using pin n by auto
  have dn: "d \<noteq> n" using n by auto
  obtain P where P: "A @ d # ys1 = P @ [p]"
    unfolding p_def by (metis append_butlast_last_id last_appendR list.distinct(1) append_is_Nil_conv)
  have e: "P @ p # X = A @ d # ys1 @ X" for X
  proof -
    have "P @ p # X = (P @ [p]) @ X" by simp
    also have "\<dots> = (A @ d # ys1) @ X" by (simp only: P)
    finally show ?thesis by simp
  qed
  have l2: "seg (mem ht2) (Some d) (d # ys1 @ c # n # B) None"
  proof -
    have "seg (mem ht2) (Some (Bucket 0 0)) ((A @ d # ys1) @ c # n # B) None"
    proof (rule list_insert_after [of ?h])
      show "seg ?h (Some (Bucket 0 0)) ((A @ d # ys1) @ c # B) None" using l by simp
      show "n \<notin> set ((A @ d # ys1) @ c # B)" using n by simp
      show "mem ht2 b = ?h b" if "b \<noteq> c" "b \<noteq> n" for b
        using that by (simp add: ht2_def ht1_def mem_set_next_other)
      show "unflagged (p_next (mem ht2 c)) = Some n"
        by (simp add: ht2_def mem_set_next_same)
      show "unflagged (p_next (mem ht2 n)) = unflagged (p_next (?h c))"
        using nc by (simp add: ht2_def ht1_def mem_set_next_same mem_set_next_other nx)
    qed
    then show ?thesis by (simp add: seg_split)
  qed
  have gc: "cds_lfht_gc_bucket' ht2 d n = Some ht3"
    unfolding ht3_def
  proof (rule cds_lfht_gc_bucket_unlink [OF l2 _ _ _ dn p_def vp_def])
    show "\<forall>a\<in>set (d # ys1 @ n # B). \<not> REMOVED_FLAG (next_of ht2 a)"
    proof
      fix a assume a: "a \<in> set (d # ys1 @ n # B)"
      then have ac: "a \<noteq> c" using dist nc by auto
      show "\<not> REMOVED_FLAG (next_of ht2 a)"
      proof (cases "a = n")
        case True
        then show ?thesis using nc by (simp add: ht2_def ht1_def)
      next
        case False
        then have "node_ok ?h D a" using a by (intro ok) auto
        then show ?thesis using ac False by (simp add: ht2_def ht1_def node_ok_def nx)
      qed
    qed
    show "REMOVED_FLAG (next_of ht2 c)" by (simp add: ht2_def)
    show "\<forall>a\<in>set (d # ys1 @ [c]). rhash ht2 a \<le> rhash ht2 n"
      using sorted_wrt_before_le [OF s] by (simp add: ht2_def ht1_def rhn) (simp add: rh)
  qed
  have rm3: "REMOVED_FLAG (next_of ht3 c)" using pc by (simp add: ht3_def ht2_def)
  have lk2: "lookup_bucket sz (bit_reverse_ulong (rhash ht2 c)) = Some d"
    using lk by (simp add: ht2_def ht1_def)
  have run: "cds_lfht_replace' ht sz (Some c) old_next n = Some (ht3, 0)"
    using nc rm3 by (simp add: cds_lfht_replace'_def fl lk2 gc)
  have "list_inv (mem ht3) D (P @ p # n # B)"
  proof (rule list_inv_replace [of ?h D P p c B n _ vp "clear_flag (next_of ht c)"])
    show "list_inv ?h D (P @ p # c # B)" using inv by (simp only: e)
    show "n \<notin> set (P @ p # c # B)" unfolding e by (rule n)
    show "p_reverse_hash (?h n) = p_reverse_hash (?h c)" using rhn by (simp add: rh)
    show "mem ht3 b = ?h b" if "b \<noteq> p" "b \<noteq> c" "b \<noteq> n" for b
      using that by (simp add: ht3_def ht2_def ht1_def mem_set_next_other)
    show "mem ht3 p = (?h p)\<lparr>p_next := vp\<rparr>"
      using pc pn by (simp add: ht3_def ht2_def ht1_def mem_set_next_other mem_set_next_same)
    show "mem ht3 n = (?h n)\<lparr>p_next := clear_flag (next_of ht c)\<rparr>"
      using nc pn by (simp add: ht3_def ht2_def ht1_def mem_set_next_other mem_set_next_same)
    show "unflagged vp = Some n" "\<not> REMOVED_FLAG vp" "DUMMY_FLAG vp = DUMMY_FLAG (p_next (?h p))"
      using pc pn by (simp_all add: vp_def ht2_def ht1_def nx)
    show "unflagged (clear_flag (next_of ht c)) = unflagged (p_next (?h c))"
      "\<not> REMOVED_FLAG (clear_flag (next_of ht c))" "\<not> DUMMY_FLAG (clear_flag (next_of ht c))"
      by (simp_all add: nx)
  qed (rule user)+
  then have inv': "list_inv (mem ht3) D (A @ d # ys1 @ n # B)" by (simp only: e)
  have st: "static_eq ht ht3" by (simp add: ht3_def ht2_def ht1_def)
  have fr: "frame ht ht3 {n, c, p}"
    using frame_trans [OF frame_trans [OF frame_set_next [of ht n "clear_flag (next_of ht c)"]
        frame_set_next [of ht1 c "flag_removed (plain (Some n))", unfolded ht1_def]]
        frame_set_next [of ht2 p vp, unfolded ht2_def ht1_def]]
    by (simp add: ht3_def ht2_def ht1_def insert_commute)
  have "next_of ht3 c = flag_removed (plain (Some n))" "next_of ht3 n = clear_flag (next_of ht c)"
    using pc pn nc by (simp_all add: ht3_def ht2_def ht1_def)
  moreover have "resize_eq ht ht3" by (simp add: ht3_def ht2_def ht1_def)
  ultimately show ?thesis using run inv' st fr unfolding p_def by blast
qed

subsection \<open>\<^verbatim>\<open>_cds_lfht_add\<close> finds a node with the key\<close>

lemma scan_result_first_match:
  assumes sr: "scan_result ht node mode False lookup ys r"
    and s: "sorted_wrt (before (mem ht)) ys"
    and ex: "\<exists>a\<in>set ys. matches ht node mode a"
  shows "\<exists>ys1 c ys3. ys = ys1 @ c # ys3 \<and> (\<forall>a\<in>set ys1. \<not> matches ht node mode a)
          \<and> matches ht node mode c \<and> r = Add_match c (next_of ht c)"
proof -
  from sr obtain ys1 ys2 where ys: "ys = ys1 @ ys2"
    and p: "\<forall>a\<in>set ys1. passes ht node False a \<and> \<not> matches ht node mode a"
    and r: "r = Add_insert (last (lookup # ys1)) (next_of ht (last (lookup # ys1)))
              \<and> (ys2 = [] \<or> \<not> passes ht node False (hd ys2))
            \<or> (\<exists>c ys3. ys2 = c # ys3 \<and> passes ht node False c \<and> matches ht node mode c
                  \<and> r = Add_match c (next_of ht c))"
    unfolding scan_result_def by blast
  from r show ?thesis
  proof
    assume "\<exists>c ys3. ys2 = c # ys3 \<and> passes ht node False c \<and> matches ht node mode c
                  \<and> r = Add_match c (next_of ht c)"
    then show ?thesis using ys p by blast
  next
    assume i: "r = Add_insert (last (lookup # ys1)) (next_of ht (last (lookup # ys1)))
              \<and> (ys2 = [] \<or> \<not> passes ht node False (hd ys2))"
    from ex obtain a where a: "a \<in> set ys" "matches ht node mode a" by blast
    with p ys have a2: "a \<in> set ys2" by auto
    then obtain b zs where ys2: "ys2 = b # zs" by (cases ys2) auto
    with i have "rhash ht node < rhash ht b" by (auto simp add: passes_def)
    moreover have "rhash ht b \<le> rhash ht a"
      using s a2 unfolding ys ys2 by (auto simp add: sorted_wrt_append before_def rhash_def)
    moreover have "rhash ht a = rhash ht node" using a(2) by (simp add: matches_def)
    ultimately show ?thesis by simp
  qed
qed

lemma cds_lfht_add_retry_match:
  assumes inv: "list_inv (mem ht) D (pre @ lookup # ys)"
    and node: "node \<notin> set (pre @ lookup # ys)"
    and le: "rhash ht lookup \<le> rhash ht node"
    and user: "\<not> is_bucket node"
    and lk: "lookup_bucket sz (bit_reverse_ulong (rhash ht node)) = Some lookup"
    and ex: "\<exists>a\<in>set ys. matches ht node mode a"
  shows "\<exists>ht' ys1 c ys3. ys = ys1 @ c # ys3 \<and> (\<forall>a\<in>set ys1. \<not> matches ht node mode a)
          \<and> matches ht node mode c
          \<and> cds_lfht_add_retry ht sz node mode False lookup = Some (ht', Some c)
          \<and> static_eq ht ht' \<and> (quiet ht ys \<longrightarrow> resize_eq ht ht')
          \<and> (if mode = ADD_UNIQUE then resched ht ht'
              else list_inv (mem ht') D (pre @ lookup # ys1 @ node # ys3)
                  \<and> frame ht ht' {node, c, last (lookup # ys1)}
                  \<and> next_of ht' c = flag_removed (plain (Some node))
                  \<and> next_of ht' node = clear_flag (next_of ht c))"
proof -
  let ?h = "mem ht"
  let ?xs = "pre @ lookup # ys"
  have nx: "next_of ht = (\<lambda>a. p_next (?h a))" by (simp add: next_of_def fun_eq_iff)
  from inv have l: "seg ?h (Some (Bucket 0 0)) ?xs None"
    and s: "sorted_wrt (before ?h) ?xs"
    by (simp_all add: list_inv_def)
  have ok: "\<And>a. a \<in> set ?xs \<Longrightarrow> node_ok ?h D a" using inv by (rule list_inv_node_ok)
  from l have ys: "seg ?h (unflagged (next_of ht lookup)) ys None"
    by (simp add: seg_split nx)
  have nr: "\<forall>a\<in>set ys. \<not> REMOVED_FLAG (next_of ht a)"
    using ok by (auto simp add: node_ok_def nx)
  from cds_lfht_add_scan_run [OF ys nr, of sz node mode False 0]
  obtain ht1 r where sc: "cds_lfht_add_scan ht sz node mode False 0 lookup (next_of ht lookup)
        = Some (ht1, r)"
    and rs: "resched ht ht1" and sr: "scan_result ht node mode False lookup ys r"
    and qu: "quiet ht ys \<longrightarrow> ht1 = ht"
    by blast
  have sy: "sorted_wrt (before ?h) ys" using s by (simp add: sorted_wrt_append)
  from scan_result_first_match [OF sr sy ex] obtain ys1 c ys3 where
    y: "ys = ys1 @ c # ys3" and nm: "\<forall>a\<in>set ys1. \<not> matches ht node mode a"
    and m: "matches ht node mode c" and r: "r = Add_match c (next_of ht c)"
    by blast
  note f = resched_fields [OF rs]
  have mode: "mode = ADD_UNIQUE \<or> mode = ADD_REPLACE" using m by (simp add: matches_def)
  show ?thesis
  proof (cases "mode = ADD_UNIQUE")
    case True
    have "cds_lfht_add_retry ht sz node mode False lookup = Some (ht1, Some c)"
      using le by (subst cds_lfht_add_retry.simps) (simp add: sc [unfolded True] r True)
    moreover have "quiet ht ys \<longrightarrow> resize_eq ht ht1" using qu by auto
    ultimately show ?thesis using y nm m rs True resched_static [OF rs] by auto
  next
    case False
    with mode have rep: "mode = ADD_REPLACE" by simp
    have cin: "c \<in> set ?xs" using y by simp
    have cu: "\<not> is_bucket c" using m ok [OF cin] by (simp add: matches_def node_ok_def nx)
    have cf: "\<not> REMOVED_FLAG (next_of ht c)" "\<not> DUMMY_FLAG (next_of ht c)"
      using ok [OF cin] cu by (simp_all add: node_ok_def nx)
    have ctn: "Some node \<noteq> unflagged (next_of ht c)"
      using list_next_in [OF l cin] node by (auto simp add: nx)
    have rhc: "rhash ht1 node = rhash ht1 c" using m by (simp add: matches_def f)
    have inv1: "list_inv (mem ht1) D (pre @ lookup # ys1 @ c # ys3)"
      using inv y by (simp add: f)
    have rhc0: "rhash ht c = rhash ht node" using m by (simp add: matches_def)
    have lk1: "lookup_bucket sz (bit_reverse_ulong (rhash ht1 c)) = Some lookup"
      using lk by (simp add: f rhc0)
    have node1: "node \<notin> set (pre @ lookup # ys1 @ c # ys3)" using node y by simp
    from cds_lfht_replace_list [OF inv1 lk1 node1 cu user rhc cf ctn]
    obtain ht' where all: "cds_lfht_replace' ht1 sz (Some c) (next_of ht c) node = Some (ht', 0)
          \<and> list_inv (mem ht') D (pre @ lookup # ys1 @ node # ys3)
          \<and> static_eq ht1 ht' \<and> frame ht1 ht' {node, c, last (lookup # ys1)}
          \<and> next_of ht' c = flag_removed (plain (Some node))
          \<and> next_of ht' node = clear_flag (next_of ht1 c) \<and> resize_eq ht1 ht'" ..
    note rp = all [THEN conjunct1]
    note inv' = all [THEN conjunct2, THEN conjunct1]
    note st = all [THEN conjunct2, THEN conjunct2, THEN conjunct1]
    note fr = all [THEN conjunct2, THEN conjunct2, THEN conjunct2, THEN conjunct1]
    note nxt1 = all [THEN conjunct2, THEN conjunct2, THEN conjunct2, THEN conjunct2, THEN conjunct1]
    note nxt2 = all [THEN conjunct2, THEN conjunct2, THEN conjunct2, THEN conjunct2, THEN conjunct2,
        THEN conjunct1]
    note re = all [THEN conjunct2, THEN conjunct2, THEN conjunct2, THEN conjunct2, THEN conjunct2,
        THEN conjunct2]
    have "cds_lfht_add_retry ht sz node mode False lookup = Some (ht', Some c)"
      using le
      by (subst cds_lfht_add_retry.simps) (simp add: sc [unfolded rep] r rp [unfolded rep] rep)
    moreover have "static_eq ht ht'" using resched_static [OF rs] st by (rule static_eq_trans)
    moreover have "frame ht ht' {node, c, last (lookup # ys1)}"
      using frame_trans [OF frame_resched [OF rs] fr] by simp
    moreover have "next_of ht' node = clear_flag (next_of ht c)" using nxt2 by (simp add: f)
    moreover have "quiet ht ys \<longrightarrow> resize_eq ht ht'" using qu re by auto
    ultimately show ?thesis using y nm m inv' nxt1 False
      by (intro exI [of _ ht'] exI [of _ ys1] exI [of _ c] exI [of _ ys3]) simp
  qed
qed

subsection \<open>The bucket of a node is in the list\<close>

lemma pow2_pos: "k < 64 \<Longrightarrow> 0 < (2 ^ k :: ulong)"
  by (simp add: word_less_nat_alt unat_2p)

lemma bucket_in_list:
  assumes inv: "list_inv h D xs" and D: "{d. d < sz} \<subseteq> D" and sz: "sz = 2 ^ k" "k < 64"
  shows "\<exists>pre ys. lookup_bucket sz hash = Some (bucket_addr (hash AND (sz - 1)))
          \<and> xs = pre @ bucket_addr (hash AND (sz - 1)) # ys
          \<and> p_reverse_hash (h (bucket_addr (hash AND (sz - 1))))
              = bit_reverse_ulong (hash AND (sz - 1))"
proof -
  let ?d = "hash AND (sz - 1)"
  have "?d < sz" using sz by (simp add: index_less)
  then have d: "?d \<in> D" using D by auto
  have "bucket_addr ?d \<in> set xs" using inv d by (rule list_inv_bucket)
  then obtain pre ys where "xs = pre @ bucket_addr ?d # ys"
    by (auto simp add: in_set_conv_decomp)
  moreover have "lookup_bucket sz hash = Some (bucket_addr ?d)"
    using sz by (simp add: lookup_bucket_eq pow2_pos)
  ultimately show ?thesis using list_inv_bucket(2) [OF inv d] by blast
qed

text \<open>A node with the reverse hash of \<open>node\<close> stands behind the bucket of \<open>node\<close>.\<close>

lemma match_behind_bucket:
  assumes inv: "list_inv (mem ht) D (pre @ b # ys)" and b: "is_bucket b"
    and le: "rhash ht b \<le> r"
    and a: "a \<in> set (pre @ b # ys)" "rhash ht a = r" "\<not> DUMMY_FLAG (next_of ht a)"
  shows "a \<in> set ys"
proof -
  have s: "sorted_wrt (before (mem ht)) (pre @ b # ys)" using inv by (simp add: list_inv_def)
  have "node_ok (mem ht) D b" using inv by (rule list_inv_node_ok) simp
  then have "DUMMY_FLAG (next_of ht b)" using b by (simp add: node_ok_def next_of_def)
  with a(3) have "a \<noteq> b" by auto
  moreover have "a \<notin> set pre"
  proof
    assume "a \<in> set pre"
    then have "before (mem ht) a b" using s by (auto simp add: sorted_wrt_append)
    then have "rhash ht a < rhash ht b" using b by (simp add: before_def rhash_def)
    with le a(2) show False by simp
  qed
  ultimately show ?thesis using a(1) by auto
qed

subsection \<open>\<^verbatim>\<open>_cds_lfht_add\<close> of a user node\<close>

lemma cds_lfht_add_user_insert:
  assumes inv: "list_inv (mem ht) D xs" and D: "{d. d < sz} \<subseteq> D" and sz: "sz = 2 ^ k" "k < 64"
    and node: "node \<notin> set xs" "\<not> is_bucket node"
    and nomatch: "\<forall>a\<in>set xs. \<not> matches ht node mode a"
  shows "\<exists>ht' A B. cds_lfht_add' ht sz node mode False
              = Some (ht', if mode = ADD_REPLACE then None else Some node)
          \<and> xs = A @ B \<and> A \<noteq> [] \<and> list_inv (mem ht') D (A @ node # B)
          \<and> static_eq ht ht' \<and> frame ht ht' (insert node (set xs))
          \<and> (quiet ht xs \<longrightarrow> resize_eq ht ht')"
proof -
  let ?hash = "bit_reverse_ulong (rhash ht node)"
  let ?b = "bucket_addr (?hash AND (sz - 1))"
  from bucket_in_list [OF inv D sz, of ?hash] obtain pre ys where
    lk: "lookup_bucket sz ?hash = Some ?b" and xs: "xs = pre @ ?b # ys"
    and rb: "p_reverse_hash (mem ht ?b) = bit_reverse_ulong (?hash AND (sz - 1))"
    by blast
  have "rhash ht ?b = bit_reverse_ulong (?hash AND (sz - 1))" using rb by (simp only: rhash_def)
  then have le: "rhash ht ?b \<le> rhash ht node"
    using bucket_reverse_hash_le [of "rhash ht node" "sz - 1"] by (simp only:)
  have nm: "\<forall>a\<in>set ys. \<not> matches ht node mode a" using nomatch xs by simp
  from cds_lfht_add_retry_insert [OF inv xs node(1) le _ _ _ _ nm, of False D sz]
  obtain ht' ys1 ys2 where
    run: "cds_lfht_add_retry ht sz node mode False ?b
              = Some (ht', if mode = ADD_REPLACE then None else Some node)"
    and y: "ys = ys1 @ ys2"
    and inv': "list_inv (mem ht') D (pre @ ?b # ys1 @ node # ys2)"
    and st: "static_eq ht ht'" and fr: "frame ht ht' {node, last (?b # ys1)}"
    and qu: "quiet ht ys \<longrightarrow> resize_eq ht ht'"
    using node(2) by auto
  have 5: "quiet ht xs \<longrightarrow> resize_eq ht ht'"
    using qu quiet_append [of ht "pre @ [?b]" ys] by (simp add: xs)
  have z: "sz \<noteq> 0" using sz pow2_pos [of k] by auto
  have 1: "cds_lfht_add' ht sz node mode False
      = Some (ht', if mode = ADD_REPLACE then None else Some node)"
    using z by (simp add: cds_lfht_add'_def lk run)
  have 2: "xs = (pre @ ?b # ys1) @ ys2" using xs y by simp
  have 3: "list_inv (mem ht') D ((pre @ ?b # ys1) @ node # ys2)" using inv' by simp
  have "last (?b # ys1) \<in> set (?b # ys1)" by (rule last_in_set) simp
  then have "last (?b # ys1) \<in> set xs" unfolding 2 by auto
  then have 4: "frame ht ht' (insert node (set xs))"
    by (intro frame_mono [OF fr]) auto
  show ?thesis using 1 2 3 4 5 st by blast
qed

lemma cds_lfht_add_user_match:
  assumes inv: "list_inv (mem ht) D xs" and D: "{d. d < sz} \<subseteq> D" and sz: "sz = 2 ^ k" "k < 64"
    and node: "node \<notin> set xs" "\<not> is_bucket node"
    and ex: "\<exists>a\<in>set xs. matches ht node mode a"
  shows "\<exists>ht' A c B. xs = A @ c # B \<and> (\<forall>a\<in>set A. \<not> matches ht node mode a)
          \<and> matches ht node mode c
          \<and> cds_lfht_add' ht sz node mode False = Some (ht', Some c)
          \<and> static_eq ht ht' \<and> (quiet ht xs \<longrightarrow> resize_eq ht ht')
          \<and> (if mode = ADD_UNIQUE then resched ht ht'
              else list_inv (mem ht') D (A @ node # B)
                  \<and> frame ht ht' (insert node (set xs))
                  \<and> next_of ht' c = flag_removed (plain (Some node))
                  \<and> next_of ht' node = clear_flag (next_of ht c))"
proof -
  let ?hash = "bit_reverse_ulong (rhash ht node)"
  let ?b = "bucket_addr (?hash AND (sz - 1))"
  from bucket_in_list [OF inv D sz, of ?hash] obtain pre ys where
    lk: "lookup_bucket sz ?hash = Some ?b" and xs: "xs = pre @ ?b # ys"
    and rb: "p_reverse_hash (mem ht ?b) = bit_reverse_ulong (?hash AND (sz - 1))"
    by blast
  have "rhash ht ?b = bit_reverse_ulong (?hash AND (sz - 1))" using rb by (simp only: rhash_def)
  then have le: "rhash ht ?b \<le> rhash ht node"
    using bucket_reverse_hash_le [of "rhash ht node" "sz - 1"] by (simp only:)
  note inv0 = inv [unfolded xs]
  have okb: "node_ok (mem ht) D ?b" using inv by (rule list_inv_node_ok) (simp add: xs)
  have pre_nm: "\<not> matches ht node mode a" if "a \<in> set (pre @ [?b])" for a
  proof
    assume m: "matches ht node mode a"
    then have "a \<in> set ys"
      using that le by (intro match_behind_bucket [OF inv0]) (auto simp add: matches_def)
    with that list_inv_distinct [OF inv0] show False by auto
  qed
  from ex pre_nm have ex': "\<exists>a\<in>set ys. matches ht node mode a" unfolding xs by auto
  from cds_lfht_add_retry_match [OF inv0 node(1) [unfolded xs] le node(2) lk ex']
  obtain ht' ys1 c ys3 where all: "ys = ys1 @ c # ys3 \<and> (\<forall>a\<in>set ys1. \<not> matches ht node mode a)
          \<and> matches ht node mode c
          \<and> cds_lfht_add_retry ht sz node mode False ?b = Some (ht', Some c)
          \<and> static_eq ht ht' \<and> (quiet ht ys \<longrightarrow> resize_eq ht ht')
          \<and> (if mode = ADD_UNIQUE then resched ht ht'
              else list_inv (mem ht') D (pre @ ?b # ys1 @ node # ys3)
                  \<and> frame ht ht' {node, c, last (?b # ys1)}
                  \<and> next_of ht' c = flag_removed (plain (Some node))
                  \<and> next_of ht' node = clear_flag (next_of ht c))"
    by (elim exE) (rule that)
  note y = all [THEN conjunct1]
  note nm = all [THEN conjunct2, THEN conjunct1]
  note m = all [THEN conjunct2, THEN conjunct2, THEN conjunct1]
  note run = all [THEN conjunct2, THEN conjunct2, THEN conjunct2, THEN conjunct1]
  note st = all [THEN conjunct2, THEN conjunct2, THEN conjunct2, THEN conjunct2, THEN conjunct1]
  note qu = all [THEN conjunct2, THEN conjunct2, THEN conjunct2, THEN conjunct2, THEN conjunct2,
      THEN conjunct1]
  note rest = all [THEN conjunct2, THEN conjunct2, THEN conjunct2, THEN conjunct2, THEN conjunct2,
      THEN conjunct2]
  have 5: "quiet ht xs \<longrightarrow> resize_eq ht ht'"
    using qu quiet_append [of ht "pre @ [?b]" ys] by (simp add: xs)
  have z: "sz \<noteq> 0" using sz pow2_pos [of k] by auto
  have 1: "cds_lfht_add' ht sz node mode False = Some (ht', Some c)"
    using z by (simp add: cds_lfht_add'_def lk run)
  have 2: "xs = (pre @ ?b # ys1) @ c # ys3" using xs y by simp
  have 3: "\<forall>a\<in>set (pre @ ?b # ys1). \<not> matches ht node mode a" using nm pre_nm by auto
  have 4: "if mode = ADD_UNIQUE then resched ht ht'
              else list_inv (mem ht') D ((pre @ ?b # ys1) @ node # ys3)
                  \<and> frame ht ht' (insert node (set xs))
                  \<and> next_of ht' c = flag_removed (plain (Some node))
                  \<and> next_of ht' node = clear_flag (next_of ht c)"
  proof (cases "mode = ADD_UNIQUE")
    case True
    with rest show ?thesis by simp
  next
    case False
    with rest have r: "list_inv (mem ht') D (pre @ ?b # ys1 @ node # ys3)"
      "frame ht ht' {node, c, last (?b # ys1)}"
      "next_of ht' c = flag_removed (plain (Some node))"
      "next_of ht' node = clear_flag (next_of ht c)" by simp_all
    have "last (?b # ys1) \<in> set (?b # ys1)" by (rule last_in_set) simp
    then have "last (?b # ys1) \<in> set xs" unfolding 2 by auto
    then have "frame ht ht' (insert node (set xs))"
      unfolding 2 by (intro frame_mono [OF r(2)]) (auto simp del: last.simps)
    with r False show ?thesis by simp
  qed
  show ?thesis using 1 2 3 4 5 m st
    by (intro exI [of _ ht'] exI [of _ "pre @ ?b # ys1"] exI [of _ c] exI [of _ ys3]) simp
qed

subsection \<open>Linking the dummy nodes of a level\<close>

lemma half_size_pow: "0 < i \<Longrightarrow> half_size i = 2 ^ (i - 1)"
  by (simp add: half_size_def push_bit_eq_mult)

lemma level_index_mask:
  fixes j :: ulong
  assumes "0 < i" "i \<le> 64" "j < 2 ^ (i - 1)"
  shows "(2 ^ (i - 1) + j) AND (2 ^ (i - 1) - 1) = j"
proof -
  let ?d = "2 ^ (i - 1) + j"
  note l = fls_ulong_level [OF assms]
  have "?d AND (push_bit (fls_ulong ?d - 1) 1 - 1) = ?d - 2 ^ (fls_ulong ?d - 1)"
    by (rule mask_position(1) [OF l(2)])
  then show ?thesis by (simp only: l(1)) (simp add: push_bit_eq_mult)
qed

lemma cds_lfht_add_dummy:
  assumes inv: "list_inv (mem ht) D xs" and D: "{d. d < half_size i} \<subseteq> D"
    and i: "0 < i" "i \<le> 64" and j: "j < half_size i" and nd: "half_size i + j \<notin> D"
    and rh: "rhash ht (Bucket i j) = bit_reverse_ulong (half_size i + j)"
  shows "\<exists>ht' xs'. cds_lfht_add' ht (half_size i) (Bucket i j) ADD_DEFAULT True
              = Some (ht', Some (Bucket i j))
          \<and> list_inv (mem ht') (insert (half_size i + j) D) xs'
          \<and> set xs' = insert (Bucket i j) (set xs)
          \<and> static_eq ht ht' \<and> frame ht ht' (insert (Bucket i j) (set xs))
          \<and> (quiet ht xs \<longrightarrow> resize_eq ht ht')"
proof -
  let ?n = "Bucket i j"
  let ?sz = "half_size i"
  have hs: "?sz = 2 ^ (i - 1)" using i(1) by (rule half_size_pow)
  have i1: "i - 1 < 64" using i by simp
  have j': "j < 2 ^ (i - 1)" using j hs by simp
  have ba: "bucket_addr (?sz + j) = ?n" using i j' by (rule bucket_addr_level)
  have bi: "bucket_index ?n = ?sz + j" by (simp add: bucket_index_def)
  have idx: "(?sz + j) AND (?sz - 1) = j" unfolding hs using i j' by (rule level_index_mask)
  let ?hash = "bit_reverse_ulong (rhash ht ?n)"
  have hash: "?hash = ?sz + j" by (simp add: rh)
  from bucket_in_list [OF inv D hs i1, of ?hash] obtain pre ys where
    lk: "lookup_bucket ?sz ?hash = Some (bucket_addr j)" and xs: "xs = pre @ bucket_addr j # ys"
    and rb: "p_reverse_hash (mem ht (bucket_addr j)) = bit_reverse_ulong j"
    unfolding hash idx by blast
  have notin: "?n \<notin> set xs"
  proof
    assume "?n \<in> set xs"
    with inv have "node_ok (mem ht) D ?n" by (rule list_inv_node_ok)
    then show False using nd by (simp add: node_ok_def bi)
  qed
  have rbj: "rhash ht (bucket_addr j) = bit_reverse_ulong j" using rb by (simp only: rhash_def)
  have "bit_reverse_ulong j \<le> rhash ht ?n"
    using bucket_reverse_hash_le [of "rhash ht ?n" "?sz - 1"] unfolding hash idx .
  then have le: "rhash ht (bucket_addr j) \<le> rhash ht ?n" by (simp only: rbj)
  have "0 < ?sz" unfolding hs by (rule pow2_pos [OF i1])
  then have z: "?sz \<noteq> 0" by (simp only: word_neq_0_conv)
  then have "bit_reverse_ulong j \<noteq> bit_reverse_ulong (?sz + j)" by simp
  with le have strict: "rhash ht (bucket_addr j) < rhash ht ?n"
    by (simp add: rbj rh order.strict_iff_order)
  have nm: "\<forall>a\<in>set ys. \<not> matches ht ?n ADD_DEFAULT a" by (simp add: matches_def)
  from cds_lfht_add_retry_insert [OF inv xs notin le strict _ _ _ nm, of True "insert (?sz + j) D" ?sz]
  obtain ht' ys1 ys2 where
    run: "cds_lfht_add_retry ht ?sz ?n ADD_DEFAULT True (bucket_addr j) = Some (ht', Some ?n)"
    and y: "ys = ys1 @ ys2"
    and inv': "list_inv (mem ht') (insert (?sz + j) D) (pre @ bucket_addr j # ys1 @ ?n # ys2)"
    and st: "static_eq ht ht'" and fr: "frame ht ht' {?n, last (bucket_addr j # ys1)}"
    and qu: "quiet ht ys \<longrightarrow> resize_eq ht ht'"
    using ba bi rh by auto
  have 1: "cds_lfht_add' ht ?sz ?n ADD_DEFAULT True = Some (ht', Some ?n)"
    using z by (simp add: cds_lfht_add'_def lk [unfolded hash] rh run)
  have 2: "set (pre @ bucket_addr j # ys1 @ ?n # ys2) = insert ?n (set xs)"
    by (auto simp add: xs y)
  have "last (bucket_addr j # ys1) \<in> set (bucket_addr j # ys1)" by (rule last_in_set) simp
  then have "last (bucket_addr j # ys1) \<in> set xs" unfolding xs y by auto
  then have 3: "frame ht ht' (insert ?n (set xs))"
    by (intro frame_mono [OF fr]) auto
  have 4: "quiet ht xs \<longrightarrow> resize_eq ht ht'"
    using qu quiet_append [of ht "pre @ [bucket_addr j]" ys] by (simp add: xs)
  show ?thesis using 1 2 3 4 inv' st by blast
qed

lemma cds_lfht_add_first:
  assumes "rhash ht (Bucket 0 0) = 0"
  shows "\<exists>ht'. cds_lfht_add' ht 0 (Bucket 0 0) ADD_DEFAULT True = Some (ht', Some (Bucket 0 0))
          \<and> list_inv (mem ht') {0} [Bucket 0 0] \<and> static_eq ht ht' \<and> resize_eq ht ht'
          \<and> frame ht ht' {Bucket 0 0}"
proof -
  let ?ht = "set_next ht (Bucket 0 0) (flag_dummy get_end)"
  have "list_inv (mem ?ht) {0} [Bucket 0 0]"
    using assms
    by (simp add: list_inv_def node_ok_def get_end_def bucket_index_def half_size_def rhash_def
        mem_set_next_same)
  then show ?thesis by (simp add: cds_lfht_add'_def frame_set_next)
qed

subsection \<open>Populating a level\<close>

text \<open>
  \<open>level_part i j\<close>: the indexes of the buckets below level \<open>i\<close> and of the first \<open>j\<close> buckets
  of level \<open>i\<close>. \<open>users xs\<close>: the nodes of the list that are not dummy nodes.
\<close>

definition level_part :: "nat \<Rightarrow> ulong \<Rightarrow> ulong set" where
  "level_part i j = {d. d < half_size i} \<union> (\<lambda>j'. half_size i + j') ` {j'. j' < j}"

definition users :: "addr list \<Rightarrow> addr set" where
  "users xs = {a \<in> set xs. \<not> is_bucket a}"

lemma static_eq_set_reverse_hash [simp]:
  "static_eq ht (set_reverse_hash ht' a v) = static_eq ht ht'"
  by (simp add: static_eq_def)

lemma resize_eq_set_reverse_hash [simp]:
  "resize_eq ht (set_reverse_hash ht' a v) = resize_eq ht ht'"
  by (simp add: resize_eq_def)

lemma quiet_set_reverse_hash [simp]: "quiet (set_reverse_hash ht a v) xs = quiet ht xs"
  by (simp add: quiet_def)

lemma quiet_iff:
  assumes "list_inv (mem ht) D xs"
  shows "quiet ht xs = (flags ht AND CDS_LFHT_AUTO_RESIZE = 0 \<or> users xs = {})"
proof -
  have "DUMMY_FLAG (next_of ht a) = is_bucket a" if "a \<in> set xs" for a
    using list_inv_node_ok [OF assms that] by (simp add: node_ok_def next_of_def)
  then show ?thesis by (auto simp add: quiet_def users_def)
qed

lemma quiet_transfer:
  assumes "quiet ht xs" "list_inv (mem ht) D xs" "list_inv (mem ht') D' xs'"
    and "users xs' = users xs" "static_eq ht ht'"
  shows "quiet ht' xs'"
  using assms by (simp add: quiet_iff [OF assms(2)] quiet_iff [OF assms(3)] static_eq_def)

lemma unat_level:
  fixes j :: ulong
  assumes i: "0 < i" "i \<le> 64" and j: "j < 2 ^ (i - 1)"
  shows "unat (2 ^ (i - 1) + j) = 2 ^ (i - 1) + unat j" "unat j < 2 ^ (i - 1)"
    "unat (2 ^ (i - 1) :: ulong) = 2 ^ (i - 1)"
proof -
  have i1: "i - 1 < 64" using i by simp
  show uj: "unat j < 2 ^ (i - 1)" using j i1 by (simp add: word_less_nat_alt unat_2p)
  have "(2::nat) ^ (i - 1) + 2 ^ (i - 1) = 2 ^ i" using i by (simp flip: power_Suc mult_2)
  moreover have "(2::nat) ^ i \<le> 2 ^ 64" using i by (simp only: power_increasing_iff one_le_numeral)
  ultimately have lt: "2 ^ (i - 1) + unat j < 2 ^ 64" using uj by simp
  show "unat (2 ^ (i - 1) + j) = 2 ^ (i - 1) + unat j"
    using lt i1 by (simp add: unat_word_ariths unat_2p)
  show "unat (2 ^ (i - 1) :: ulong) = 2 ^ (i - 1)" using i1 by (simp add: unat_2p)
qed

lemma level_part_0: "level_part i 0 = {d. d < half_size i}"
  by (simp add: level_part_def)

lemma level_part_notin:
  assumes "0 < i" "i \<le> 64" "j < half_size i"
  shows "half_size i + j \<notin> level_part i j"
proof -
  have hs: "half_size i = 2 ^ (i - 1)" using assms(1) by (rule half_size_pow)
  note u = unat_level [OF assms(1,2) assms(3) [unfolded hs]]
  have "\<not> half_size i + j < half_size i" unfolding hs word_less_nat_alt u(1) u(3) by simp
  then show ?thesis by (auto simp add: level_part_def)
qed

lemma unat_succ:
  fixes j :: ulong
  assumes "j < e"
  shows "unat (j + 1) = unat j + 1"
proof -
  have "unat j < unat e" using assms by (simp add: word_less_nat_alt)
  moreover have "unat e < 2 ^ 64" using unsigned_less [of e] by simp
  ultimately have "unat j + 1 < 2 ^ 64" by simp
  then show ?thesis by (simp add: unat_word_ariths)
qed

lemma level_part_step:
  assumes "j < e"
  shows "level_part i (j + 1) = insert (half_size i + j) (level_part i j)"
proof -
  have "{j'. j' < j + 1} = insert j {j'. j' < j}"
    by (auto simp add: word_less_nat_alt unat_succ [OF assms] word_unat_eq_iff)
  then show ?thesis by (simp add: level_part_def)
qed

lemma level_part_full:
  assumes "0 < i" "i < 64"
  shows "level_part i (half_size i) = {d. d < order_size i}"
proof -
  have hs: "half_size i = 2 ^ (i - 1)" using assms(1) by (rule half_size_pow)
  have os: "order_size i = 2 ^ i" using assms(1) by (simp add: order_size_def push_bit_eq_mult)
  have i64: "i \<le> 64" using assms by simp
  have p: "unat (2 ^ i :: ulong) = 2 ^ i" "unat (2 ^ (i - 1) :: ulong) = 2 ^ (i - 1)"
    using assms by (simp_all add: unat_2p)
  have dbl: "(2::nat) ^ i = 2 ^ (i - 1) + 2 ^ (i - 1)" using assms(1) by (simp flip: power_Suc mult_2)
  show ?thesis
  proof (intro set_eqI iffI)
    fix d assume "d \<in> level_part i (half_size i)"
    then consider "d < 2 ^ (i - 1)" | j where "d = 2 ^ (i - 1) + j" "j < 2 ^ (i - 1)"
      by (auto simp add: level_part_def hs)
    then have "unat d < 2 ^ i"
    proof cases
      case 1
      then have "unat d < 2 ^ (i - 1)" by (simp only: word_less_nat_alt p)
      then show ?thesis using dbl by linarith
    next
      case 2
      note u = unat_level [OF assms(1) i64 2(2)]
      show ?thesis using u(2) unfolding 2(1) u(1) dbl by linarith
    qed
    then show "d \<in> {d. d < order_size i}" by (simp add: os word_less_nat_alt p)
  next
    fix d assume "d \<in> {d. d < order_size i}"
    then have d: "unat d < 2 ^ i" by (simp add: os word_less_nat_alt p)
    show "d \<in> level_part i (half_size i)"
    proof (cases "d < 2 ^ (i - 1)")
      case True
      then show ?thesis by (simp add: level_part_def hs)
    next
      case False
      then have le: "2 ^ (i - 1) \<le> d" by simp
      have "unat (d - 2 ^ (i - 1)) = unat d - 2 ^ (i - 1)" using le by (simp only: unat_sub p)
      moreover have "unat d - 2 ^ (i - 1) < 2 ^ (i - 1)" using d unfolding dbl by linarith
      ultimately have "d - 2 ^ (i - 1) < 2 ^ (i - 1)" by (simp only: word_less_nat_alt p)
      moreover have "d = 2 ^ (i - 1) + (d - 2 ^ (i - 1))" by simp
      ultimately have "d \<in> (\<lambda>j'. 2 ^ (i - 1) + j') ` {j'. j' < 2 ^ (i - 1)}" by blast
      then show ?thesis by (simp add: level_part_def hs)
    qed
  qed
qed

lemma init_table_populate_partition_loop_run:
  assumes "list_inv (mem ht) (level_part i j) xs" "0 < i" "i \<le> 64" "j \<le> e" "e \<le> half_size i"
  shows "\<exists>ht' xs'. init_table_populate_partition_loop ht i j e = Some ht'
          \<and> list_inv (mem ht') (level_part i e) xs' \<and> users xs' = users xs
          \<and> static_eq ht ht' \<and> (quiet ht xs \<longrightarrow> resize_eq ht ht')"
  using assms
proof (induction "unat e - unat j" arbitrary: ht j xs)
  case 0
  then have "j = e" by (simp add: word_le_nat_alt word_unat_eq_iff)
  then have "init_table_populate_partition_loop ht i j e = Some ht"
    by (subst init_table_populate_partition_loop.simps) simp
  with 0 \<open>j = e\<close> show ?case by auto
next
  case (Suc n)
  let ?n = "Bucket i j"
  let ?D = "level_part i j"
  let ?ht1 = "set_reverse_hash ht ?n (bit_reverse_ulong (half_size i + j))"
  note inv = Suc.prems(1)
  from Suc.hyps(2) have lt: "j < e" by (simp add: word_less_nat_alt)
  then have j: "j < half_size i" using Suc.prems(5) by simp
  have nd: "half_size i + j \<notin> ?D" using Suc.prems(2,3) j by (rule level_part_notin)
  have notin: "?n \<notin> set xs"
  proof
    assume "?n \<in> set xs"
    with inv have "node_ok (mem ht) ?D ?n" by (rule list_inv_node_ok)
    then show False using nd by (simp add: node_ok_def bucket_index_def)
  qed
  have inv1: "list_inv (mem ?ht1) ?D xs"
    using inv notin by (subst list_inv_cong [of xs _ "mem ht"]) (auto simp add: set_reverse_hash_def)
  have D: "{d. d < half_size i} \<subseteq> ?D" by (auto simp add: level_part_def)
  have rh: "rhash ?ht1 ?n = bit_reverse_ulong (half_size i + j)"
    by simp
  from cds_lfht_add_dummy [OF inv1 D Suc.prems(2,3) j nd rh] obtain ht2 xs2 where
    run: "cds_lfht_add' ?ht1 (half_size i) ?n ADD_DEFAULT True = Some (ht2, Some ?n)"
    and inv2: "list_inv (mem ht2) (insert (half_size i + j) ?D) xs2"
    and set2: "set xs2 = insert ?n (set xs)"
    and st: "static_eq ?ht1 ht2" and qu: "quiet ?ht1 xs \<longrightarrow> resize_eq ?ht1 ht2"
    by blast
  have inv2': "list_inv (mem ht2) (level_part i (j + 1)) xs2"
    using inv2 by (simp only: level_part_step [OF lt])
  have u2: "users xs2 = users xs" by (auto simp add: users_def set2)
  have le: "j + 1 \<le> e" using lt by (rule inc_le)
  have "unat (j + 1) = unat j + 1" using lt by (rule unat_succ)
  with Suc.hyps(2) have n: "n = unat e - unat (j + 1)" by simp
  from Suc.hyps(1) [OF n inv2' Suc.prems(2,3) le Suc.prems(5)] obtain ht' xs' where
    run': "init_table_populate_partition_loop ht2 i (j + 1) e = Some ht'"
    and inv': "list_inv (mem ht') (level_part i e) xs'" and u': "users xs' = users xs2"
    and st': "static_eq ht2 ht'" and qu': "quiet ht2 xs2 \<longrightarrow> resize_eq ht2 ht'"
    by blast
  have 1: "init_table_populate_partition_loop ht i j e = Some ht'"
    using lt by (subst init_table_populate_partition_loop.simps) (simp add: run run')
  have 2: "static_eq ht ht'" using st st' by (simp add: static_eq_def)
  have 3: "resize_eq ht ht'" if q: "quiet ht xs"
  proof -
    have q1: "quiet ?ht1 xs" using q by simp
    then have "quiet ht2 xs2" using inv1 inv2 u2 st by (rule quiet_transfer)
    with qu qu' q1 show ?thesis by (auto simp add: resize_eq_def)
  qed
  show ?case using 1 2 3 inv' u' u2 by auto
qed

subsection \<open>\<^verbatim>\<open>init_table\<close>\<close>

text \<open>
  \<open>table_inv ht xs\<close>: the size of the table is a power of two and the list \<open>xs\<close> holds the
  buckets of the indexes below the size. \<open>resized ht ht'\<close>: the fields that a resize does
  not write are the same.
\<close>

definition table_inv :: "cds_lfht \<Rightarrow> addr list \<Rightarrow> bool" where
  "table_inv ht xs = ((\<exists>k<64. t_size ht = 2 ^ k) \<and> list_inv (mem ht) {d. d < t_size ht} xs)"

definition resized :: "cds_lfht \<Rightarrow> cds_lfht \<Rightarrow> bool" where
  "resized ht ht' =
     (hash_fct ht' = hash_fct ht \<and> compare_fct ht' = compare_fct ht
      \<and> hash_seed ht' = hash_seed ht \<and> flags ht' = flags ht
      \<and> in_progress_destroy ht' = in_progress_destroy ht \<and> ht_count ht' = ht_count ht)"

lemma resized_refl [simp]: "resized ht ht"
  by (simp add: resized_def)

lemma resized_trans: "resized a b \<Longrightarrow> resized b c \<Longrightarrow> resized a c"
  by (simp add: resized_def)

lemma static_resized: "static_eq ht ht' \<Longrightarrow> resized ht ht'"
  by (simp add: static_eq_def resized_def)

lemma fields_zero_level [simp]:
  "t_size (zero_level ht i len) = t_size ht"
  "t_resize_target (zero_level ht i len) = t_resize_target ht"
  "t_resize_initiated (zero_level ht i len) = t_resize_initiated ht"
  "hash_fct (zero_level ht i len) = hash_fct ht"
  "compare_fct (zero_level ht i len) = compare_fct ht"
  "hash_seed (zero_level ht i len) = hash_seed ht" "flags (zero_level ht i len) = flags ht"
  "in_progress_resize (zero_level ht i len) = in_progress_resize ht"
  "in_progress_destroy (zero_level ht i len) = in_progress_destroy ht"
  "ht_count (zero_level ht i len) = ht_count ht"
  "call_rcu_queue (zero_level ht i len) = call_rcu_queue ht"
  "heap_free (zero_level ht i len) = heap_free ht"
  by (simp_all add: zero_level_def)

lemma mem_zero_level:
  "mem (zero_level ht i len) (Bucket i' j) = (if i' = i \<and> j < len then zero_node else mem ht (Bucket i' j))"
  "mem (zero_level ht i len) (User n) = mem ht (User n)"
  by (simp_all add: zero_level_def)

lemma init_table_populate_eq:
  "init_table_populate ht i len = init_table_populate_partition_loop ht i 0 len"
  by (simp add: init_table_populate_def init_table_populate_partition_def nr_cpus_mask_def)

lemma init_level:
  assumes inv: "list_inv (mem ht) {d. d < half_size i} xs" and i: "0 < i" "i < 64"
  shows "\<exists>ht' xs'. init_table_populate (zero_level ht i (half_size i)) i (half_size i) = Some ht'
          \<and> list_inv (mem ht') {d. d < order_size i} xs' \<and> users xs' = users xs
          \<and> static_eq ht ht' \<and> (quiet ht xs \<longrightarrow> resize_eq ht ht')"
proof -
  let ?ht1 = "zero_level ht i (half_size i)"
  have i64: "i \<le> 64" using i by simp
  have same: "mem ?ht1 a = mem ht a" if a: "a \<in> set xs" for a
  proof (cases a)
    case (Bucket i' j)
    show ?thesis
    proof (cases "i' = i \<and> j < half_size i")
      case True
      from inv a have "node_ok (mem ht) {d. d < half_size i} a" by (rule list_inv_node_ok)
      then have "half_size i + j < half_size i"
        using True by (simp add: node_ok_def Bucket bucket_index_def)
      moreover have "half_size i + j \<notin> level_part i j"
        using i(1) i64 True by (intro level_part_notin) simp_all
      ultimately show ?thesis by (simp add: level_part_def)
    next
      case False
      then show ?thesis by (auto simp add: Bucket mem_zero_level)
    qed
  next
    case (User n)
    then show ?thesis by (simp add: mem_zero_level)
  qed
  have inv1: "list_inv (mem ?ht1) (level_part i 0) xs"
    unfolding level_part_0 using inv by (subst list_inv_cong [of xs _ "mem ht"]) (simp_all add: same)
  from init_table_populate_partition_loop_run [OF inv1 i(1) i64, of "half_size i"]
  obtain ht' xs' where run: "init_table_populate_partition_loop ?ht1 i 0 (half_size i) = Some ht'"
    and inv': "list_inv (mem ht') (level_part i (half_size i)) xs'"
    and u: "users xs' = users xs" and st: "static_eq ?ht1 ht'"
    and qu: "quiet ?ht1 xs \<longrightarrow> resize_eq ?ht1 ht'"
    by auto
  have 1: "list_inv (mem ht') {d. d < order_size i} xs'"
    using inv' by (simp only: level_part_full [OF i])
  have 2: "static_eq ht ht'" using st by (simp add: static_eq_def)
  have 3: "resize_eq ht ht'" if "quiet ht xs"
  proof -
    have "static_eq ht ?ht1" by (simp add: static_eq_def)
    with that inv inv1 have "quiet ?ht1 xs" by (intro quiet_transfer [of ht xs _ ?ht1]) simp_all
    with qu show ?thesis by (simp add: resize_eq_def)
  qed
  show ?thesis using run 1 2 3 u by (auto simp add: init_table_populate_eq)
qed

lemma below_1: "{d :: ulong. d < 1} = {0}"
  by (auto simp add: word_less_nat_alt unat_eq_0)

lemma init_level_0:
  "\<exists>ht'. init_table_populate (zero_level ht 0 1) 0 1 = Some ht'
          \<and> list_inv (mem ht') {d. d < order_size 0} [Bucket 0 0]
          \<and> static_eq ht ht' \<and> resize_eq ht ht'"
proof -
  let ?ht1 = "set_reverse_hash (zero_level ht 0 1) (Bucket 0 0) 0"
  have "rhash ?ht1 (Bucket 0 0) = 0" by simp
  from cds_lfht_add_first [OF this] obtain ht' where
    run: "cds_lfht_add' ?ht1 0 (Bucket 0 0) ADD_DEFAULT True = Some (ht', Some (Bucket 0 0))"
    and inv: "list_inv (mem ht') {0} [Bucket 0 0]"
    and st: "static_eq ?ht1 ht'" "resize_eq ?ht1 ht'"
    by blast
  have "init_table_populate_partition_loop ht' 0 (0 + 1) 1 = Some ht'"
    by (subst init_table_populate_partition_loop.simps) simp
  then have "init_table_populate_partition_loop (zero_level ht 0 1) 0 0 1 = Some ht'"
    by (subst init_table_populate_partition_loop.simps) (simp add: half_size_def run)
  moreover have "static_eq ht ht'" "resize_eq ht ht'"
    using st by (simp_all add: static_eq_def resize_eq_def)
  ultimately show ?thesis using inv by (simp add: init_table_populate_eq order_size_def below_1)
qed

text \<open>One round of the loop of \<^verbatim>\<open>init_table\<close>, for a level above 0.\<close>

lemma init_table_round:
  assumes inv: "table_inv ht xs" and sz: "t_size ht = 2 ^ (i - 1)" and i: "0 < i" "i < 64"
  shows "\<exists>ht2 xs'. init_table_populate (zero_level ht i (half_size i)) i (half_size i) = Some ht2
          \<and> table_inv (ht2\<lparr>t_size := order_size i\<rparr>) xs' \<and> order_size i = 2 ^ i
          \<and> users xs' = users xs \<and> static_eq ht ht2
          \<and> (quiet ht xs \<longrightarrow> resize_eq ht ht2 \<and> quiet (ht2\<lparr>t_size := order_size i\<rparr>) xs')"
proof -
  have hs: "half_size i = 2 ^ (i - 1)" using i(1) by (rule half_size_pow)
  have os: "order_size i = 2 ^ i" using i(1) by (simp add: order_size_def push_bit_eq_mult)
  have inv0: "list_inv (mem ht) {d. d < half_size i} xs"
    using inv by (simp add: table_inv_def sz hs)
  from init_level [OF inv0 i] obtain ht2 xs' where
    run: "init_table_populate (zero_level ht i (half_size i)) i (half_size i) = Some ht2"
    and inv2: "list_inv (mem ht2) {d. d < order_size i} xs'" and u: "users xs' = users xs"
    and st: "static_eq ht ht2" and qu: "quiet ht xs \<longrightarrow> resize_eq ht ht2"
    by blast
  let ?ht3 = "ht2\<lparr>t_size := order_size i\<rparr>"
  have 1: "table_inv ?ht3 xs'" using inv2 i(2) by (auto simp add: table_inv_def os)
  have 2: "quiet ?ht3 xs'" if "quiet ht xs"
  proof -
    have "quiet ht2 xs'" using that inv0 inv2 u st by (rule quiet_transfer)
    then show ?thesis by (simp add: quiet_def next_of_def)
  qed
  show ?thesis using run 1 2 os u st qu by auto
qed

lemma table_inv_fields:
  assumes "table_inv ht xs" "mem ht' = mem ht" "t_size ht' = t_size ht"
  shows "table_inv ht' xs"
  using assms by (simp add: table_inv_def)

subsection \<open>The memory of a level\<close>

text \<open>\<open>level_bytes i\<close>: the bytes of the dummy nodes of level \<open>i\<close>.\<close>

definition level_bytes :: "nat \<Rightarrow> nat" where
  "level_bytes i = 16 * 2 ^ (i - 1)"

lemma calloc_level_eq:
  "calloc_level ht i len =
     (if unat len * 16 < 2 ^ 64 \<and> unat len * 16 \<le> heap_free ht
      then Some (zero_level (ht\<lparr>heap_free := heap_free ht - unat len * 16\<rparr>) i len)
      else None)"
proof -
  have u: "unat (len * sizeof_cds_lfht_node) = (unat len * 16) mod 2 ^ 64"
    by (simp add: sizeof_cds_lfht_node_def unat_word_ariths)
  show ?thesis
  proof (cases "unat len * 16 < 2 ^ 64")
    case True
    then have "unat (len * sizeof_cds_lfht_node) = unat len * 16" by (simp add: u)
    then show ?thesis
      using True by (simp add: calloc_level_def calloc_def Let_def sizeof_cds_lfht_node_def)
  next
    case False
    have "(unat len * 16) mod 2 ^ 64 < 2 ^ 64" by simp
    with False have "unat (len * sizeof_cds_lfht_node) \<noteq> unat len * 16" unfolding u by linarith
    then show ?thesis
      using False
      by (auto simp add: calloc_level_def calloc_def Let_def sizeof_cds_lfht_node_def
          bind_eq_None_conv)
  qed
qed

lemma calloc_level_half:
  assumes "0 < i" "i < 64"
  shows "calloc_level ht i (half_size i) =
     (if i \<le> 60 \<and> level_bytes i \<le> heap_free ht
      then Some (zero_level (ht\<lparr>heap_free := heap_free ht - level_bytes i\<rparr>) i (half_size i))
      else None)"
proof -
  have hs: "half_size i = 2 ^ (i - 1)" using assms(1) by (rule half_size_pow)
  have u: "unat (half_size i) = 2 ^ (i - 1)" using assms by (simp add: hs unat_2p)
  have b: "unat (half_size i) * 16 = level_bytes i" by (simp add: u level_bytes_def)
  have "(level_bytes i < 2 ^ 64) = (i \<le> 60)"
  proof -
    have "level_bytes i = 2 ^ (i - 1 + 4)" by (simp add: level_bytes_def power_add)
    then have "(level_bytes i < 2 ^ 64) = (i - 1 + 4 < 64)"
      by (simp only: power_strict_increasing_iff one_less_numeral_iff semiring_norm)
    then show ?thesis using assms(1) by auto
  qed
  then show ?thesis unfolding calloc_level_eq b by simp
qed

lemma calloc_level_0:
  "calloc_level ht 0 1 =
     (if 16 \<le> heap_free ht then Some (zero_level (ht\<lparr>heap_free := heap_free ht - 16\<rparr>) 0 1)
      else None)"
  by (simp add: calloc_level_eq)

lemma init_table_loop_step:
  assumes "0 < i" "i < e" "\<not> t_resize_target ht < order_size i" "i < 64"
    and "calloc_level ht i (half_size i) = Some ht1"
    and "init_table_populate ht1 i (half_size i) = Some ht2"
  shows "init_table_loop ht i e
      = (if in_progress_destroy ht2 \<noteq> 0 then Some (ht2\<lparr>t_size := order_size i\<rparr>)
         else init_table_loop (ht2\<lparr>t_size := order_size i\<rparr>) (i + 1) e)"
  using assms
  by (subst init_table_loop.simps) (simp add: Let_def MAX_TABLE_ORDER_def half_size_def)

lemma init_table_loop_no_memory:
  assumes "0 < i" "i < e" "\<not> t_resize_target ht < order_size i"
    and "calloc_level ht i (half_size i) = None"
  shows "init_table_loop ht i e = None"
  using assms
  by (subst init_table_loop.simps) (simp add: Let_def MAX_TABLE_ORDER_def half_size_def)

lemma init_table_loop_inv:
  assumes "table_inv ht xs" "t_size ht = 2 ^ (i - 1)" "0 < i" "i \<le> 64"
    and "init_table_loop ht i e = Some ht'"
  shows "\<exists>xs'. table_inv ht' xs' \<and> users xs' = users xs \<and> resized ht ht'"
  using assms
proof (induction "e - i" arbitrary: ht i xs)
  case 0
  then have "init_table_loop ht i e = Some ht"
    by (subst init_table_loop.simps) simp
  with 0 show ?case by auto
next
  case (Suc n)
  note run = Suc.prems(5)
  from Suc.hyps(2) have lt: "i < e" by simp
  show ?case
  proof (cases "t_resize_target ht < order_size i")
    case True
    with lt run have "ht' = ht" by (subst (asm) init_table_loop.simps) (simp add: Let_def)
    with Suc.prems show ?thesis by auto
  next
    case False
    have i64: "i < 64"
    proof (rule ccontr)
      assume "\<not> i < 64"
      with lt False run show False
        by (subst (asm) init_table_loop.simps) (simp add: Let_def MAX_TABLE_ORDER_def)
    qed
    have "calloc_level ht i (half_size i) \<noteq> None"
      using init_table_loop_no_memory [OF Suc.prems(3) lt False] run by auto
    then obtain r where
      cl: "calloc_level ht i (half_size i) = Some (zero_level (ht\<lparr>heap_free := r\<rparr>) i (half_size i))"
      unfolding calloc_level_half [OF Suc.prems(3) i64] by (auto split: if_splits)
    let ?ht0 = "ht\<lparr>heap_free := r\<rparr>"
    have inv0: "table_inv ?ht0 xs" using Suc.prems(1) by (rule table_inv_fields) simp_all
    have sz0: "t_size ?ht0 = 2 ^ (i - 1)" using Suc.prems(2) by simp
    from init_table_round [OF inv0 sz0 Suc.prems(3) i64] obtain ht2 xs2 where
      pop: "init_table_populate (zero_level ?ht0 i (half_size i)) i (half_size i) = Some ht2"
      and inv2: "table_inv (ht2\<lparr>t_size := order_size i\<rparr>) xs2" and os: "order_size i = 2 ^ i"
      and u: "users xs2 = users xs" and st: "static_eq ?ht0 ht2"
      by blast
    let ?ht3 = "ht2\<lparr>t_size := order_size i\<rparr>"
    have rs: "resized ht ?ht3" using st by (simp add: static_eq_def resized_def)
    have step: "init_table_loop ht i e
        = (if in_progress_destroy ?ht3 \<noteq> 0 then Some ?ht3 else init_table_loop ?ht3 (i + 1) e)"
      using init_table_loop_step [OF Suc.prems(3) lt False i64 cl pop] by simp
    show ?thesis
    proof (cases "in_progress_destroy ?ht3 \<noteq> 0")
      case True
      with step run have "ht' = ?ht3" by simp
      with inv2 u rs show ?thesis by auto
    next
      case False
      with step run have run': "init_table_loop ?ht3 (i + 1) e = Some ht'" by simp
      have n: "n = e - (i + 1)" using Suc.hyps(2) by simp
      from Suc.hyps(1) [OF n inv2 _ _ _ run'] i64 os obtain xs' where
        "table_inv ht' xs'" "users xs' = users xs2" "resized ?ht3 ht'"
        by auto
      with u rs show ?thesis by (auto intro: resized_trans)
    qed
  qed
qed

text \<open>
  The levels \<open>i\<close> to \<open>t\<close> take \<open>16 * 2 ^ t - 16 * 2 ^ (i - 1)\<close> bytes. With that much
  memory, and no level beyond 60, the loop goes to the end; without, it does not return.
\<close>

lemma init_table_loop_total:
  assumes "table_inv ht xs" "t_size ht = 2 ^ (i - 1)" "0 < i" "i \<le> t + 1" "t < 64"
    and "t_resize_target ht = 2 ^ t" "in_progress_destroy ht = 0" "quiet ht xs"
    and "t \<le> 60" "16 * 2 ^ t \<le> heap_free ht + 16 * 2 ^ (i - 1)"
  shows "\<exists>ht' xs'. init_table_loop ht i (t + 1) = Some ht' \<and> table_inv ht' xs'
          \<and> t_size ht' = 2 ^ t \<and> users xs' = users xs \<and> resized ht ht' \<and> resize_eq ht ht'
          \<and> heap_free ht' + 16 * 2 ^ t = heap_free ht + 16 * 2 ^ (i - 1)"
  using assms
proof (induction "t + 1 - i" arbitrary: ht i xs)
  case 0
  then have "init_table_loop ht i (t + 1) = Some ht"
    by (subst init_table_loop.simps) simp
  moreover from 0 have "i - 1 = t" by simp
  ultimately show ?case using 0 by auto
next
  case (Suc n)
  from Suc.hyps(2) have lt: "i < t + 1" by simp
  then have i64: "i < 64" using Suc.prems(5) by simp
  have os: "order_size i = 2 ^ i" using Suc.prems(3) by (simp add: order_size_def push_bit_eq_mult)
  have "unat (2 ^ i :: ulong) \<le> unat (2 ^ t :: ulong)"
    using lt Suc.prems(5) i64 by (simp add: unat_2p)
  then have nb: "\<not> t_resize_target ht < order_size i"
    by (simp add: os Suc.prems(6) word_less_nat_alt)
  have dbl: "(2::nat) ^ i = 2 * 2 ^ (i - 1)" using Suc.prems(3) by (simp flip: power_Suc)
  have "i \<le> t" using lt by simp
  then have "(2::nat) ^ i \<le> 2 ^ t" by (intro power_increasing) simp_all
  with Suc.prems(10) dbl have fit: "level_bytes i \<le> heap_free ht"
    unfolding level_bytes_def by linarith
  have i60: "i \<le> 60" using lt Suc.prems(9) by simp
  let ?ht0 = "ht\<lparr>heap_free := heap_free ht - level_bytes i\<rparr>"
  have cl: "calloc_level ht i (half_size i) = Some (zero_level ?ht0 i (half_size i))"
    using fit i60 by (simp add: calloc_level_half [OF Suc.prems(3) i64])
  have inv0: "table_inv ?ht0 xs" using Suc.prems(1) by (rule table_inv_fields) simp_all
  have sz0: "t_size ?ht0 = 2 ^ (i - 1)" using Suc.prems(2) by simp
  have q0: "quiet ?ht0 xs" using Suc.prems(8) by (simp add: quiet_def next_of_def)
  from init_table_round [OF inv0 sz0 Suc.prems(3) i64] q0 obtain ht2 xs2 where
    pop: "init_table_populate (zero_level ?ht0 i (half_size i)) i (half_size i) = Some ht2"
    and inv2: "table_inv (ht2\<lparr>t_size := order_size i\<rparr>) xs2"
    and u: "users xs2 = users xs" and st: "static_eq ?ht0 ht2"
    and re: "resize_eq ?ht0 ht2" and q: "quiet (ht2\<lparr>t_size := order_size i\<rparr>) xs2"
    by blast
  let ?ht3 = "ht2\<lparr>t_size := order_size i\<rparr>"
  have rs: "resized ht ?ht3" using st by (simp add: static_eq_def resized_def)
  have re3: "resize_eq ht ?ht3" using re by (simp add: resize_eq_def)
  have d3: "in_progress_destroy ?ht3 = 0" using st Suc.prems(7) by (simp add: static_eq_def)
  have h3: "heap_free ?ht3 = heap_free ht - level_bytes i" using st by (simp add: static_eq_def)
  have step: "init_table_loop ht i (t + 1) = init_table_loop ?ht3 (i + 1) (t + 1)"
    using init_table_loop_step [OF Suc.prems(3) lt nb i64 cl pop] d3 by simp
  have n: "n = t + 1 - (i + 1)" using Suc.hyps(2) by simp
  have tg: "t_resize_target ?ht3 = 2 ^ t" using re Suc.prems(6) by (simp add: resize_eq_def)
  have m3: "16 * 2 ^ t \<le> heap_free ?ht3 + 16 * 2 ^ (i + 1 - 1)"
    using Suc.prems(10) fit dbl unfolding h3 level_bytes_def by simp
  have e3: "heap_free ?ht3 + 16 * 2 ^ (i + 1 - 1) = heap_free ht + 16 * 2 ^ (i - 1)"
    using fit dbl unfolding h3 level_bytes_def by simp
  from Suc.hyps(1) [OF n inv2 _ _ _ Suc.prems(5) tg d3 q Suc.prems(9) m3] lt os obtain ht' xs' where
    "init_table_loop ?ht3 (i + 1) (t + 1) = Some ht'" "table_inv ht' xs'" "t_size ht' = 2 ^ t"
    "users xs' = users xs2" "resized ?ht3 ht'" "resize_eq ?ht3 ht'"
    "heap_free ht' + 16 * 2 ^ t = heap_free ?ht3 + 16 * 2 ^ (i + 1 - 1)"
    by auto
  with step u rs re3 e3 show ?case
    by (auto intro: resized_trans resize_eq_trans simp del: One_nat_def)
qed

lemma init_table_loop_none:
  assumes "table_inv ht xs" "t_size ht = 2 ^ (i - 1)" "0 < i" "i \<le> t" "t < 64"
    and "t_resize_target ht = 2 ^ t" "in_progress_destroy ht = 0" "quiet ht xs"
    and "\<not> (t \<le> 60 \<and> 16 * 2 ^ t \<le> heap_free ht + 16 * 2 ^ (i - 1))"
  shows "init_table_loop ht i (t + 1) = None"
  using assms
proof (induction "t - i" arbitrary: ht i xs)
  case 0
  then have it: "i = t" by simp
  have lt: "i < t + 1" using it by simp
  have i64: "i < 64" using it 0(6) by simp
  have os: "order_size i = 2 ^ i" using 0(4) by (simp add: order_size_def push_bit_eq_mult)
  have nb: "\<not> t_resize_target ht < order_size i" unfolding os 0(7) it [symmetric] by simp
  have dbl: "(2::nat) ^ i = 2 * 2 ^ (i - 1)" using 0(4) by (simp flip: power_Suc)
  have "\<not> (i \<le> 60 \<and> level_bytes i \<le> heap_free ht)"
    using 0(10) dbl unfolding it [symmetric] level_bytes_def by auto
  then have "calloc_level ht i (half_size i) = None"
    by (simp add: calloc_level_half [OF 0(4) i64])
  from init_table_loop_no_memory [OF 0(4) lt nb this] show ?case .
next
  case (Suc n)
  from Suc.hyps(2) have lt: "i < t + 1" and lt': "i + 1 \<le> t" by simp_all
  then have i64: "i < 64" using Suc.prems(5) by simp
  have os: "order_size i = 2 ^ i" using Suc.prems(3) by (simp add: order_size_def push_bit_eq_mult)
  have "unat (2 ^ i :: ulong) \<le> unat (2 ^ t :: ulong)"
    using lt Suc.prems(5) i64 by (simp add: unat_2p)
  then have nb: "\<not> t_resize_target ht < order_size i"
    by (simp add: os Suc.prems(6) word_less_nat_alt)
  have dbl: "(2::nat) ^ i = 2 * 2 ^ (i - 1)" using Suc.prems(3) by (simp flip: power_Suc)
  show ?case
  proof (cases "i \<le> 60 \<and> level_bytes i \<le> heap_free ht")
    case False
    then have "calloc_level ht i (half_size i) = None"
      by (simp add: calloc_level_half [OF Suc.prems(3) i64])
    from init_table_loop_no_memory [OF Suc.prems(3) lt nb this] show ?thesis .
  next
    case True
    let ?ht0 = "ht\<lparr>heap_free := heap_free ht - level_bytes i\<rparr>"
    have cl: "calloc_level ht i (half_size i) = Some (zero_level ?ht0 i (half_size i))"
      using True by (simp add: calloc_level_half [OF Suc.prems(3) i64])
    have inv0: "table_inv ?ht0 xs" using Suc.prems(1) by (rule table_inv_fields) simp_all
    have sz0: "t_size ?ht0 = 2 ^ (i - 1)" using Suc.prems(2) by simp
    have q0: "quiet ?ht0 xs" using Suc.prems(8) by (simp add: quiet_def next_of_def)
    from init_table_round [OF inv0 sz0 Suc.prems(3) i64] q0 obtain ht2 xs2 where
      pop: "init_table_populate (zero_level ?ht0 i (half_size i)) i (half_size i) = Some ht2"
      and inv2: "table_inv (ht2\<lparr>t_size := order_size i\<rparr>) xs2"
      and st: "static_eq ?ht0 ht2"
      and re: "resize_eq ?ht0 ht2" and q: "quiet (ht2\<lparr>t_size := order_size i\<rparr>) xs2"
      by blast
    let ?ht3 = "ht2\<lparr>t_size := order_size i\<rparr>"
    have d3: "in_progress_destroy ?ht3 = 0" using st Suc.prems(7) by (simp add: static_eq_def)
    have h3: "heap_free ?ht3 = heap_free ht - level_bytes i" using st by (simp add: static_eq_def)
    have step: "init_table_loop ht i (t + 1) = init_table_loop ?ht3 (i + 1) (t + 1)"
      using init_table_loop_step [OF Suc.prems(3) lt nb i64 cl pop] d3 by simp
    have n: "n = t - (i + 1)" using Suc.hyps(2) by simp
    have tg: "t_resize_target ?ht3 = 2 ^ t" using re Suc.prems(6) by (simp add: resize_eq_def)
    have e3: "heap_free ?ht3 + 16 * 2 ^ (i + 1 - 1) = heap_free ht + 16 * 2 ^ (i - 1)"
      using True dbl unfolding h3 level_bytes_def by simp
    have m3: "\<not> (t \<le> 60 \<and> 16 * 2 ^ t \<le> heap_free ?ht3 + 16 * 2 ^ (i + 1 - 1))"
      using Suc.prems(9) unfolding e3 .
    from Suc.hyps(1) [OF n inv2 _ _ lt' Suc.prems(5) tg d3 q m3] os
    have "init_table_loop ?ht3 (i + 1) (t + 1) = None" by simp
    with step show ?thesis by simp
  qed
qed

subsection \<open>Powers of two\<close>

lemma unat_pow2_minus_1: "k < 64 \<Longrightarrow> unat (2 ^ k - 1 :: ulong) = 2 ^ k - 1"
proof -
  assume k: "k < 64"
  have "(1 :: ulong) \<le> 2 ^ k" using k by (simp add: word_le_nat_alt unat_2p)
  then have "unat (2 ^ k - 1 :: ulong) = unat (2 ^ k :: ulong) - unat (1 :: ulong)"
    by (rule unat_sub)
  then show ?thesis using k by (simp add: unat_2p)
qed

lemma msb_index_pow2_minus_1: "msb_index (2 ^ k - 1) = k"
proof (cases "k = 0")
  case True
  then show ?thesis by simp
next
  case False
  then have k: "0 < k" by simp
  have "(2::nat) ^ k = 2 * 2 ^ (k - 1)" using k by (simp flip: power_Suc)
  then have "(2::nat) ^ (k - 1) \<le> 2 ^ k - 1" by simp
  then show ?thesis using k by (intro msb_index_bounds) simp_all
qed

lemma get_count_order_ulong_pow2: "k < 64 \<Longrightarrow> get_count_order_ulong (2 ^ k) = int k"
proof -
  assume k: "k < 64"
  have "(2 ^ k :: ulong) \<noteq> 0" using pow2_pos [OF k] by (simp only: word_neq_0_conv)
  then show ?thesis
    by (simp only: get_count_order_ulong_def fls_ulong_msb unat_pow2_minus_1 [OF k]
        msb_index_pow2_minus_1 if_False)
qed

lemma pow2_and_pred: "k < 64 \<Longrightarrow> (2 ^ k :: ulong) AND (2 ^ k - 1) = 0"
proof -
  assume k: "k < 64"
  have "unat ((2 ^ k :: ulong) AND mask k) = 0"
    using k by (simp add: unat_and_mask unat_2p)
  then show ?thesis by (simp only: pow2_minus_1_mask unat_eq_0)
qed

lemma bit_between:
  fixes x :: ulong
  assumes "2 ^ k \<le> unat x" "unat x < 2 ^ Suc k"
  shows "bit x k"
proof -
  have "unat x div 2 ^ k = 1"
    using assms by (intro div_nat_eqI) simp_all
  then have "bit (unat x) k" by (simp add: bit_iff_odd)
  then show ?thesis by (simp add: bit_unsigned_iff)
qed

lemma pow2_test:
  fixes x :: ulong
  shows "(x AND (x - 1) = 0) = (x = 0 \<or> (\<exists>k<64. x = 2 ^ k))"
proof
  assume z: "x AND (x - 1) = 0"
  show "x = 0 \<or> (\<exists>k<64. x = 2 ^ k)"
  proof (rule ccontr)
    assume n: "\<not> (x = 0 \<or> (\<exists>k<64. x = 2 ^ k))"
    then have x0: "x \<noteq> 0" by simp
    let ?r = "fls_ulong x"
    have u: "0 < unat x" using x0 by (simp add: unat_gt_0)
    have r: "0 < ?r" "?r \<le> 64"
      using msb_index_pos [OF u] fls_ulong_le_64 [of x] by (simp_all add: fls_ulong_msb)
    have lo: "2 ^ (?r - 1) \<le> unat x" and hi: "unat x < 2 ^ ?r"
      using msb_index_range [OF u] by (simp_all add: fls_ulong_msb)
    have r1: "?r - 1 < 64" using r by simp
    have S: "Suc (?r - 1) = ?r" using r by simp
    have p: "unat (2 ^ (?r - 1) :: ulong) = 2 ^ (?r - 1)" using r1 by (simp add: unat_2p)
    from n r1 have "x \<noteq> 2 ^ (?r - 1)" by blast
    then have "unat x \<noteq> 2 ^ (?r - 1)" unfolding word_unat_eq_iff p .
    with lo have lo1: "2 ^ (?r - 1) \<le> unat x - 1" by simp
    have "(1::ulong) \<le> x" using u by (simp add: word_le_nat_alt)
    then have "unat (x - 1) = unat x - unat (1::ulong)" by (rule unat_sub)
    then have ux: "unat (x - 1) = unat x - 1" by simp
    have "bit x (?r - 1)" using lo hi by (intro bit_between) (simp_all only: S)
    moreover have "bit (x - 1) (?r - 1)"
    proof (rule bit_between)
      show "2 ^ (?r - 1) \<le> unat (x - 1)" using lo1 by (simp only: ux)
      have "unat x - 1 < 2 ^ ?r" using hi by simp
      then show "unat (x - 1) < 2 ^ Suc (?r - 1)" by (simp only: ux S)
    qed
    ultimately have "bit (x AND (x - 1)) (?r - 1)" by (simp add: bit_and_iff)
    with z show False by simp
  qed
next
  assume "x = 0 \<or> (\<exists>k<64. x = 2 ^ k)"
  then show "x AND (x - 1) = 0" by (auto simp add: pow2_and_pred)
qed

subsection \<open>Creating a table\<close>

lemma init_table_level_0:
  assumes "t < 64" "t_resize_target ht = 2 ^ t" "in_progress_destroy ht = 0" "16 \<le> heap_free ht"
  shows "\<exists>ht3. init_table ht 0 (t + 1) = init_table_loop ht3 1 (t + 1)
          \<and> table_inv ht3 [Bucket 0 0] \<and> t_size ht3 = 2 ^ 0 \<and> quiet ht3 [Bucket 0 0]
          \<and> resized ht ht3 \<and> resize_eq ht ht3 \<and> heap_free ht3 = heap_free ht - 16"
proof -
  let ?ht0 = "ht\<lparr>heap_free := heap_free ht - 16\<rparr>"
  have cl: "calloc_level ht 0 1 = Some (zero_level ?ht0 0 1)"
    using assms(4) by (simp add: calloc_level_0)
  from init_level_0 [of ?ht0] obtain ht2 where
    pop: "init_table_populate (zero_level ?ht0 0 1) 0 1 = Some ht2"
    and inv: "list_inv (mem ht2) {d. d < order_size 0} [Bucket 0 0]"
    and st: "static_eq ?ht0 ht2" and re: "resize_eq ?ht0 ht2"
    by blast
  let ?ht3 = "ht2\<lparr>t_size := order_size 0\<rparr>"
  have d3: "in_progress_destroy ?ht3 = 0" using st assms(3) by (simp add: static_eq_def)
  have "(2 ^ t :: ulong) \<noteq> 0" using pow2_pos [OF assms(1)] by (simp only: word_neq_0_conv)
  then have nb: "\<not> t_resize_target ht < order_size 0"
    by (simp add: assms(2) order_size_def word_less_nat_alt unat_eq_0)
  have step: "init_table ht 0 (t + 1) = init_table_loop ?ht3 1 (t + 1)"
    using nb d3
    by (subst init_table_def, subst init_table_loop.simps)
      (simp add: Let_def MAX_TABLE_ORDER_def cl pop)
  have inv3: "table_inv ?ht3 [Bucket 0 0]"
    using inv unfolding table_inv_def by (auto simp add: order_size_def intro: exI [of _ 0])
  have u: "users [Bucket 0 0] = {}" by (simp add: users_def)
  have q: "quiet ?ht3 [Bucket 0 0]"
    using inv3 u by (simp add: quiet_iff [of _ "{d. d < t_size ?ht3}"] table_inv_def)
  have "resized ht ?ht3" using st by (simp add: static_eq_def resized_def)
  moreover have "resize_eq ht ?ht3" using re by (simp add: resize_eq_def)
  moreover have "heap_free ?ht3 = heap_free ht - 16" using st by (simp add: static_eq_def)
  moreover have "t_size ?ht3 = 2 ^ 0" by (simp add: order_size_def)
  ultimately show ?thesis using step inv3 q by blast
qed

lemma init_table_first:
  assumes "t < 64" "t_resize_target ht = 2 ^ t" "in_progress_destroy ht = 0"
    and "t \<le> 60" "16 * 2 ^ t \<le> heap_free ht"
  shows "\<exists>ht' xs. init_table ht 0 (t + 1) = Some ht' \<and> table_inv ht' xs \<and> users xs = {}
          \<and> t_size ht' = 2 ^ t \<and> resized ht ht' \<and> resize_eq ht ht'
          \<and> heap_free ht' + 16 * 2 ^ t = heap_free ht"
proof -
  have "(1::nat) \<le> 2 ^ t" by simp
  with assms(5) have h: "16 \<le> heap_free ht" by linarith
  from init_table_level_0 [OF assms(1,2,3) h] obtain ht3 where
    step: "init_table ht 0 (t + 1) = init_table_loop ht3 1 (t + 1)"
    and inv3: "table_inv ht3 [Bucket 0 0]" and sz3: "t_size ht3 = 2 ^ (1 - 1)"
    and q: "quiet ht3 [Bucket 0 0]"
    and rs: "resized ht ht3" and re: "resize_eq ht ht3" and h3: "heap_free ht3 = heap_free ht - 16"
    by auto
  have tg: "t_resize_target ht3 = 2 ^ t" using re assms(2) by (simp add: resize_eq_def)
  have d3: "in_progress_destroy ht3 = 0" using rs assms(3) by (simp add: resized_def)
  have m3: "16 * 2 ^ t \<le> heap_free ht3 + 16 * 2 ^ (1 - 1)" using assms(5) h by (simp add: h3)
  from init_table_loop_total [OF inv3 sz3 _ _ assms(1) tg d3 q assms(4) m3] obtain ht' xs' where
    "init_table_loop ht3 1 (t + 1) = Some ht'" "table_inv ht' xs'" "t_size ht' = 2 ^ t"
    "users xs' = users [Bucket 0 0]" "resized ht3 ht'" "resize_eq ht3 ht'"
    "heap_free ht' + 16 * 2 ^ t = heap_free ht3 + 16 * 2 ^ (1 - 1)"
    by auto
  moreover have "users [Bucket 0 0] = {}" by (simp add: users_def)
  ultimately show ?thesis
    using step rs re h h3 by (auto intro: resized_trans resize_eq_trans)
qed

lemma init_table_first_none:
  assumes "t < 64" "t_resize_target ht = 2 ^ t" "in_progress_destroy ht = 0"
    and "\<not> (t \<le> 60 \<and> 16 * 2 ^ t \<le> heap_free ht)"
  shows "init_table ht 0 (t + 1) = None"
proof (cases "16 \<le> heap_free ht")
  case False
  then have cl: "calloc_level ht 0 1 = None" by (simp add: calloc_level_0)
  have "(2 ^ t :: ulong) \<noteq> 0" using pow2_pos [OF assms(1)] by (simp only: word_neq_0_conv)
  then have nb: "\<not> t_resize_target ht < order_size 0"
    by (simp add: assms(2) order_size_def word_less_nat_alt unat_eq_0)
  show ?thesis
    using nb
    by (subst init_table_def, subst init_table_loop.simps)
      (simp add: Let_def MAX_TABLE_ORDER_def cl)
next
  case True
  from init_table_level_0 [OF assms(1,2,3) True] obtain ht3 where
    step: "init_table ht 0 (t + 1) = init_table_loop ht3 1 (t + 1)"
    and inv3: "table_inv ht3 [Bucket 0 0]" and sz3: "t_size ht3 = 2 ^ (1 - 1)"
    and q: "quiet ht3 [Bucket 0 0]"
    and rs: "resized ht ht3" and re: "resize_eq ht ht3" and h3: "heap_free ht3 = heap_free ht - 16"
    by auto
  have tg: "t_resize_target ht3 = 2 ^ t" using re assms(2) by (simp add: resize_eq_def)
  have d3: "in_progress_destroy ht3 = 0" using rs assms(3) by (simp add: resized_def)
  have t1: "1 \<le> t"
  proof (rule ccontr)
    assume "\<not> 1 \<le> t"
    then have "t = 0" by simp
    with assms(4) True show False by simp
  qed
  have m3: "\<not> (t \<le> 60 \<and> 16 * 2 ^ t \<le> heap_free ht3 + 16 * 2 ^ (1 - 1))"
    using assms(4) True by (simp add: h3)
  from init_table_loop_none [OF inv3 sz3 _ t1 assms(1) tg d3 q m3] step show ?thesis by simp
qed

text \<open>
  \<open>new_fits avail init_size\<close>: the allocator can provide the table and its dummy nodes, and
  no level is so long that the count of its bytes wraps around.
\<close>

definition new_fits :: "nat \<Rightarrow> ulong \<Rightarrow> bool" where
  "new_fits avail init_size =
     (unat (max init_size MIN_TABLE_SIZE) \<le> 2 ^ 60
      \<and> unat sizeof_cds_lfht + unat (max init_size MIN_TABLE_SIZE) * unat sizeof_cds_lfht_node
           \<le> avail)"

lemma new_fits_pow2:
  assumes "t < 64" "max init_size MIN_TABLE_SIZE = 2 ^ t"
  shows "new_fits avail init_size = (t \<le> 60 \<and> 704 + 16 * 2 ^ t \<le> avail)"
proof -
  have u: "unat (2 ^ t :: ulong) = 2 ^ t" using assms(1) by (simp add: unat_2p)
  have "((2::nat) ^ t \<le> 2 ^ 60) = (t \<le> 60)"
    by (simp only: power_increasing_iff one_less_numeral_iff semiring_norm)
  then show ?thesis
    by (auto simp add: new_fits_def assms(2) u sizeof_cds_lfht_def sizeof_cds_lfht_node_def)
qed

lemma max_init_size:
  assumes "init_size = 0 \<or> (\<exists>k<64. init_size = 2 ^ k)"
  shows "\<exists>t<64. max init_size MIN_TABLE_SIZE = 2 ^ t"
proof (cases "init_size = 0")
  case True
  then show ?thesis by (auto simp add: MIN_TABLE_SIZE_def intro: exI [of _ 0])
next
  case False
  with assms obtain k where k: "k < 64" "init_size = 2 ^ k" by blast
  have "(1 :: ulong) \<le> 2 ^ k" using k(1) by (simp add: word_le_nat_alt unat_2p)
  then show ?thesis using k by (auto simp add: MIN_TABLE_SIZE_def max_def)
qed

lemma cds_lfht_new_eq:
  assumes "init_size = 0 \<or> (\<exists>k<64. init_size = 2 ^ k)" "max init_size MIN_TABLE_SIZE = 2 ^ t"
    and "t < 64"
  shows "cds_lfht_new' hf cf seed init_size flgs m avail =
     (if 704 \<le> avail
      then init_table \<lparr>mem = m, t_size = 0, t_resize_target = 2 ^ t, t_resize_initiated = False,
             hash_fct = hf, compare_fct = cf, hash_seed = seed, flags = flgs,
             in_progress_resize = 0, in_progress_destroy = 0, ht_count = 0, call_rcu_queue = 0,
             heap_free = avail - 704\<rparr> 0 (t + 1) \<bind> (\<lambda>ht1. Some (Some ht1))
      else None)"
proof -
  have g: "\<not> (init_size \<noteq> 0 \<and> init_size AND (init_size - 1) \<noteq> 0)"
    using assms(1) by (simp add: pow2_test)
  have o: "nat (get_count_order_ulong (max init_size MIN_TABLE_SIZE) + 1) = t + 1"
    by (simp add: assms(2) get_count_order_ulong_pow2 [OF assms(3)])
  show ?thesis
    using g unfolding cds_lfht_new'_def o Let_def
    by (auto simp add: calloc_def sizeof_cds_lfht_def)
qed

lemma cds_lfht_new_ok:
  assumes "init_size = 0 \<or> (\<exists>k<64. init_size = 2 ^ k)" "new_fits avail init_size"
  shows "\<exists>ht xs. cds_lfht_new' hf cf seed init_size flgs m avail = Some (Some ht)
          \<and> table_inv ht xs \<and> users xs = {} \<and> t_size ht = max init_size MIN_TABLE_SIZE
          \<and> hash_fct ht = hf \<and> compare_fct ht = cf \<and> hash_seed ht = seed \<and> flags ht = flgs
          \<and> in_progress_destroy ht = 0 \<and> in_progress_resize ht = 0
          \<and> \<not> t_resize_initiated ht \<and> call_rcu_queue ht = 0
          \<and> t_resize_target ht = t_size ht \<and> ht_count ht = 0"
proof -
  from max_init_size [OF assms(1)] obtain t where
    t: "t < 64" "max init_size MIN_TABLE_SIZE = 2 ^ t" by blast
  from assms(2) have f: "t \<le> 60" "704 + 16 * 2 ^ t \<le> avail"
    by (simp_all add: new_fits_pow2 [OF t])
  let ?ht0 = "\<lparr>mem = m, t_size = 0, t_resize_target = 2 ^ t, t_resize_initiated = False,
      hash_fct = hf, compare_fct = cf, hash_seed = seed, flags = flgs,
      in_progress_resize = 0, in_progress_destroy = 0, ht_count = 0, call_rcu_queue = 0,
      heap_free = avail - 704\<rparr>"
  have m: "16 * 2 ^ t \<le> heap_free ?ht0" using f(2) by simp
  from init_table_first [OF t(1) _ _ f(1) m] obtain ht' xs where
    run: "init_table ?ht0 0 (t + 1) = Some ht'" and inv: "table_inv ht' xs" "users xs = {}"
    and sz: "t_size ht' = 2 ^ t" and rs: "resized ?ht0 ht'" and re: "resize_eq ?ht0 ht'"
    by auto
  have "cds_lfht_new' hf cf seed init_size flgs m avail = Some (Some ht')"
    using f(2) run by (simp add: cds_lfht_new_eq [OF assms(1) t(2,1)])
  then show ?thesis
    using inv sz rs re t(2) by (auto simp add: resized_def resize_eq_def)
qed

lemma cds_lfht_new_none:
  assumes "init_size = 0 \<or> (\<exists>k<64. init_size = 2 ^ k)" "\<not> new_fits avail init_size"
  shows "cds_lfht_new' hf cf seed init_size flgs m avail = None"
proof -
  from max_init_size [OF assms(1)] obtain t where
    t: "t < 64" "max init_size MIN_TABLE_SIZE = 2 ^ t" by blast
  from assms(2) have f: "\<not> (t \<le> 60 \<and> 704 + 16 * 2 ^ t \<le> avail)"
    by (simp add: new_fits_pow2 [OF t])
  let ?ht0 = "\<lparr>mem = m, t_size = 0, t_resize_target = 2 ^ t, t_resize_initiated = False,
      hash_fct = hf, compare_fct = cf, hash_seed = seed, flags = flgs,
      in_progress_resize = 0, in_progress_destroy = 0, ht_count = 0, call_rcu_queue = 0,
      heap_free = avail - 704\<rparr>"
  show ?thesis
  proof (cases "704 \<le> avail")
    case False
    then show ?thesis by (simp add: cds_lfht_new_eq [OF assms(1) t(2,1)])
  next
    case True
    with f have "\<not> (t \<le> 60 \<and> 16 * 2 ^ t \<le> heap_free ?ht0)" by auto
    from init_table_first_none [OF t(1) _ _ this]
    have "init_table ?ht0 0 (t + 1) = None" by simp
    then show ?thesis using True by (simp add: cds_lfht_new_eq [OF assms(1) t(2,1)])
  qed
qed

lemma cds_lfht_new_NULL:
  "(cds_lfht_new' hf cf seed init_size flgs m avail = Some None)
    = (init_size \<noteq> 0 \<and> \<not> (\<exists>k<64. init_size = 2 ^ k))"
proof (cases "init_size = 0 \<or> (\<exists>k<64. init_size = 2 ^ k)")
  case True
  show ?thesis
  proof (cases "new_fits avail init_size")
    case f: True
    from cds_lfht_new_ok [OF True f, of hf cf seed flgs m] True show ?thesis by auto
  next
    case False
    from cds_lfht_new_none [OF True False, of hf cf seed flgs m] True show ?thesis by auto
  qed
next
  case False
  then have "init_size \<noteq> 0 \<and> init_size AND (init_size - 1) \<noteq> 0"
    using pow2_test [of init_size] by simp
  then show ?thesis using False by (simp add: cds_lfht_new'_def)
qed

section \<open>Reading a table\<close>

subsection \<open>The nodes reachable from the head\<close>

text \<open>
  \<open>linked ht a\<close>: the node \<open>a\<close> is reached from the dummy node of level 0 along the
  \<^verbatim>\<open>next\<close> pointers.
\<close>

inductive linked :: "cds_lfht \<Rightarrow> addr \<Rightarrow> bool" for ht where
  head: "linked ht (Bucket 0 0)"
| step: "linked ht a \<Longrightarrow> unflagged (next_of ht a) = Some b \<Longrightarrow> linked ht b"

lemma seg_next:
  assumes "seg h p xs None" "a \<in> set xs" "unflagged (p_next (h a)) = Some b"
  shows "\<exists>ys zs. xs = ys @ a # b # zs"
proof -
  from assms(2) obtain ys zs where xs: "xs = ys @ a # zs" by (auto simp add: in_set_conv_decomp)
  with assms(1) have "seg h (unflagged (p_next (h a))) zs None" by (simp add: seg_split)
  with assms(3) obtain zs' where "zs = b # zs'" by (cases zs) auto
  with xs show ?thesis by blast
qed

lemma seg_all_linked:
  assumes "seg (mem ht) (Some p) xs None" "linked ht p"
  shows "\<forall>a\<in>set xs. linked ht a"
  using assms
proof (induction xs arbitrary: p)
  case Nil
  then show ?case by simp
next
  case (Cons x xs)
  then have x: "p = x" and s: "seg (mem ht) (unflagged (next_of ht x)) xs None"
    by (simp_all add: next_of_def)
  show ?case
  proof (cases xs)
    case Nil
    with Cons.prems x show ?thesis by simp
  next
    case (Cons y ys)
    with s have n: "unflagged (next_of ht x) = Some y" by simp
    with Cons.prems(2) x have "linked ht y" by (auto intro: linked.step)
    with Cons.IH [of y] s n have "\<forall>a\<in>set xs. linked ht a" by simp
    with Cons.prems(2) x show ?thesis by simp
  qed
qed

lemma linked_iff:
  assumes "seg (mem ht) (Some (Bucket 0 0)) xs None"
  shows "linked ht a = (a \<in> set xs)"
proof
  assume "linked ht a"
  then show "a \<in> set xs"
  proof induction
    case head
    from assms show ?case by (cases xs) auto
  next
    case (step a b)
    from seg_next [OF assms step.IH] step.hyps(2) show ?case by (auto simp add: next_of_def)
  qed
next
  assume "a \<in> set xs"
  with seg_all_linked [OF assms linked.head] show "linked ht a" by blast
qed

lemma table_inv_linked: "table_inv ht xs \<Longrightarrow> linked ht a = (a \<in> set xs)"
  by (rule linked_iff) (simp add: table_inv_def list_inv_def)

lemma adjacent_before:
  assumes "list_inv (mem ht) D xs" "a \<in> set xs" "unflagged (next_of ht a) = Some b"
  shows "before (mem ht) a b"
proof -
  from assms(1) have s: "seg (mem ht) (Some (Bucket 0 0)) xs None"
    and o: "sorted_wrt (before (mem ht)) xs"
    by (simp_all add: list_inv_def)
  from seg_next [OF s assms(2)] assms(3) obtain ys zs where "xs = ys @ a # b # zs"
    by (auto simp add: next_of_def)
  with o show ?thesis by (simp add: sorted_wrt_append)
qed

subsection \<open>\<^verbatim>\<open>cds_lfht_lookup\<close>\<close>

text \<open>\<open>found ht k c\<close>: the loop of \<^verbatim>\<open>cds_lfht_lookup\<close> for the key \<open>k\<close> stops at the node \<open>c\<close>.\<close>

definition found :: "cds_lfht \<Rightarrow> key \<Rightarrow> addr \<Rightarrow> bool" where
  "found ht k c =
     (\<not> is_bucket c \<and> rhash ht c = bit_reverse_ulong (hash_fct ht k (hash_seed ht))
      \<and> compare_fct ht (node_key (mem ht c)) k = 0)"

lemma cds_lfht_lookup_scan_run:
  assumes "seg (mem ht) (unflagged node) ys None"
    and "\<forall>a\<in>set ys. \<not> REMOVED_FLAG (next_of ht a) \<and> DUMMY_FLAG (next_of ht a) = is_bucket a"
    and "sorted_wrt (before (mem ht)) ys"
    and "rh = bit_reverse_ulong (hash_fct ht k (hash_seed ht))"
  shows "cds_lfht_lookup_scan ht k rh node
      = Some (case List.find (found ht k) ys of None \<Rightarrow> (None, plain None)
              | Some c \<Rightarrow> (Some c, next_of ht c))"
  using assms(1,2,3)
proof (induction ys arbitrary: node)
  case Nil
  then show ?case by (subst cds_lfht_lookup_scan.simps) simp
next
  case (Cons c ys)
  then have c: "unflagged node = Some c" "\<not> REMOVED_FLAG (next_of ht c)"
    "DUMMY_FLAG (next_of ht c) = is_bucket c"
    and s: "seg (mem ht) (unflagged (next_of ht c)) ys None"
    by (simp_all add: next_of_def)
  show ?case
  proof (cases "rh < rhash ht c")
    case True
    have "\<not> found ht k a" if "a \<in> set (c # ys)" for a
    proof -
      from that Cons.prems(3) have "rhash ht c \<le> rhash ht a"
        by (auto simp add: before_def rhash_def)
      with True show ?thesis by (auto simp add: found_def assms(4))
    qed
    then have "List.find (found ht k) (c # ys) = None" by (simp only: find_None_iff) blast
    then show ?thesis using True c by (subst cds_lfht_lookup_scan.simps) simp
  next
    case False
    show ?thesis
    proof (cases "found ht k c")
      case True
      then show ?thesis
        using False c by (subst cds_lfht_lookup_scan.simps) (simp add: found_def assms(4))
    next
      case nf: False
      from Cons.IH [of "clear_flag (next_of ht c)"] s Cons.prems(2,3)
      have "cds_lfht_lookup_scan ht k rh (clear_flag (next_of ht c))
          = Some (case List.find (found ht k) ys of None \<Rightarrow> (None, plain None)
                  | Some c \<Rightarrow> (Some c, next_of ht c))"
        by simp
      then show ?thesis
        using False c nf
        by (subst cds_lfht_lookup_scan.simps) (auto simp add: found_def assms(4))
    qed
  qed
qed

lemma find_append_None: "List.find P xs = None \<Longrightarrow> List.find P (xs @ ys) = List.find P ys"
  by (induction xs) (auto split: if_splits)

lemma cds_lfht_lookup_eq:
  assumes "table_inv ht xs"
  shows "cds_lfht_lookup ht k
      = Some (case List.find (found ht k) xs of
                None \<Rightarrow> \<lparr>iter_node = None, iter_next = plain None\<rparr>
              | Some c \<Rightarrow> \<lparr>iter_node = Some c, iter_next = next_of ht c\<rparr>)"
proof -
  let ?hash = "hash_fct ht k (hash_seed ht)"
  let ?rh = "bit_reverse_ulong ?hash"
  let ?b = "bucket_addr (?hash AND (t_size ht - 1))"
  from assms obtain n where n: "n < 64" "t_size ht = 2 ^ n"
    and inv: "list_inv (mem ht) {d. d < t_size ht} xs"
    by (auto simp add: table_inv_def)
  from bucket_in_list [OF inv _ n(2,1), of ?hash] obtain pre ys where
    lk: "lookup_bucket (t_size ht) ?hash = Some ?b" and xs: "xs = pre @ ?b # ys"
    and rb: "p_reverse_hash (mem ht ?b) = bit_reverse_ulong (?hash AND (t_size ht - 1))"
    by blast
  have le: "rhash ht ?b \<le> ?rh"
    using bucket_reverse_hash_le [of ?rh "t_size ht - 1"] by (simp add: rhash_def rb)
  from inv have s: "seg (mem ht) (Some (Bucket 0 0)) xs None"
    and o: "sorted_wrt (before (mem ht)) xs"
    and ok: "\<And>a. a \<in> set xs \<Longrightarrow> node_ok (mem ht) {d. d < t_size ht} a"
    by (simp_all add: list_inv_def)
  have s': "seg (mem ht) (unflagged (clear_flag (next_of ht ?b))) ys None"
    using s by (simp add: xs seg_split next_of_def)
  have f: "\<forall>a\<in>set ys. \<not> REMOVED_FLAG (next_of ht a) \<and> DUMMY_FLAG (next_of ht a) = is_bucket a"
    using ok by (auto simp add: xs node_ok_def next_of_def)
  have o': "sorted_wrt (before (mem ht)) ys" using o by (simp add: xs sorted_wrt_append)
  note run = cds_lfht_lookup_scan_run [OF s' f o' refl, of k]
  have "\<not> found ht k a" if "a \<in> set (pre @ [?b])" for a
  proof (cases "a = ?b")
    case True
    then show ?thesis by (simp add: found_def)
  next
    case False
    with that have "a \<in> set pre" by simp
    with o have "before (mem ht) a ?b" by (simp add: xs sorted_wrt_append)
    then have "rhash ht a < rhash ht ?b" by (simp add: before_def rhash_def)
    with le show ?thesis by (auto simp add: found_def)
  qed
  then have "List.find (found ht k) (pre @ [?b]) = None" by (simp only: find_None_iff) blast
  then have fd: "List.find (found ht k) xs = List.find (found ht k) ys"
    using find_append_None [of "found ht k" "pre @ [?b]" ys] by (simp add: xs)
  have asrt: "\<not> DUMMY_FLAG (next_of ht c)" if "List.find (found ht k) ys = Some c" for c
  proof -
    from that have "c \<in> set ys" "found ht k c" by (auto simp add: find_Some_iff)
    with f show ?thesis by (simp add: found_def)
  qed
  show ?thesis
    unfolding fd
    by (cases "List.find (found ht k) ys")
      (simp_all add: cds_lfht_lookup_def Let_def lk run asrt)
qed

subsection \<open>\<^verbatim>\<open>cds_lfht_count_nodes\<close>\<close>

lemma cds_lfht_count_nodes_loop_run:
  assumes "seg (mem ht) (Some n) (n # ys) None"
    and "\<forall>a\<in>set (n # ys). \<not> REMOVED_FLAG (next_of ht a) \<and> DUMMY_FLAG (next_of ht a) = is_bucket a"
  shows "cds_lfht_count_nodes_loop ht n cnt removed
      = Some (cnt + length (filter (\<lambda>a. \<not> is_bucket a) (n # ys)), removed)"
  using assms
proof (induction ys arbitrary: n cnt)
  case Nil
  then show ?case by (subst cds_lfht_count_nodes_loop.simps) (simp add: next_of_def)
next
  case (Cons c ys)
  then have n: "unflagged (next_of ht n) = Some c"
    and s: "seg (mem ht) (Some c) (c # ys) None"
    by (simp_all add: next_of_def)
  from Cons.IH [OF s] Cons.prems(2)
  have "cds_lfht_count_nodes_loop ht c cnt' removed
      = Some (cnt' + length (filter (\<lambda>a. \<not> is_bucket a) (c # ys)), removed)" for cnt'
    by simp
  then show ?case
    using n Cons.prems(2) by (subst cds_lfht_count_nodes_loop.simps) simp
qed

lemma cds_lfht_count_nodes_eq:
  assumes "table_inv ht xs"
  shows "cds_lfht_count_nodes ht = Some (length (filter (\<lambda>a. \<not> is_bucket a) xs), 0)"
proof -
  from assms have s: "seg (mem ht) (Some (Bucket 0 0)) xs None"
    and ok: "\<And>a. a \<in> set xs \<Longrightarrow> node_ok (mem ht) {d. d < t_size ht} a"
    by (simp_all add: table_inv_def list_inv_def)
  from s obtain ys where xs: "xs = Bucket 0 0 # ys" by (cases xs) auto
  have "\<forall>a\<in>set (Bucket 0 0 # ys).
      \<not> REMOVED_FLAG (next_of ht a) \<and> DUMMY_FLAG (next_of ht a) = is_bucket a"
    using ok by (auto simp add: xs node_ok_def next_of_def)
  from cds_lfht_count_nodes_loop_run [OF s [unfolded xs] this, of 0 0]
  show ?thesis by (simp add: cds_lfht_count_nodes_def xs)
qed

section \<open>The public operations keep the table in order\<close>

lemma ht_count_simps [simp]: "ht_count_add ht sz = ht" "ht_count_del ht sz = ht"
  by (simp_all add: ht_count_add_def ht_count_del_def)

lemma table_inv_cong:
  assumes "table_inv ht xs" "t_size ht' = t_size ht"
    and "\<And>a. a \<in> set xs \<Longrightarrow> mem ht' a = mem ht a"
  shows "table_inv ht' xs"
proof -
  have "list_inv (mem ht') {d. d < t_size ht} xs = list_inv (mem ht) {d. d < t_size ht} xs"
    by (rule list_inv_cong) (simp_all add: assms(3))
  with assms(1,2) show ?thesis by (simp add: table_inv_def)
qed

lemma table_inv_resched: "table_inv ht xs \<Longrightarrow> resched ht ht' \<Longrightarrow> table_inv ht' xs"
  by (erule table_inv_cong) (simp_all add: resched_def)

lemma user_behind_bucket:
  assumes inv: "table_inv ht xs" and n: "n \<in> set xs" "\<not> is_bucket n"
  shows "\<exists>A d ys1 B. xs = A @ d # ys1 @ n # B
          \<and> lookup_bucket (t_size ht) (bit_reverse_ulong (rhash ht n)) = Some d"
proof -
  let ?hash = "bit_reverse_ulong (rhash ht n)"
  let ?b = "bucket_addr (?hash AND (t_size ht - 1))"
  from inv obtain k where k: "k < 64" "t_size ht = 2 ^ k"
    and li: "list_inv (mem ht) {d. d < t_size ht} xs"
    by (auto simp add: table_inv_def)
  from bucket_in_list [OF li _ k(2,1), of ?hash] obtain pre ys where
    lk: "lookup_bucket (t_size ht) ?hash = Some ?b" and xs: "xs = pre @ ?b # ys"
    and rb: "p_reverse_hash (mem ht ?b) = bit_reverse_ulong (?hash AND (t_size ht - 1))"
    by blast
  have "rhash ht ?b = bit_reverse_ulong (?hash AND (t_size ht - 1))"
    using rb by (simp only: rhash_def)
  then have le: "rhash ht ?b \<le> rhash ht n"
    using bucket_reverse_hash_le [of "rhash ht n" "t_size ht - 1"] by (simp only:)
  have "node_ok (mem ht) {d. d < t_size ht} n" using li n(1) by (rule list_inv_node_ok)
  then have nd: "\<not> DUMMY_FLAG (next_of ht n)" using n(2) by (simp add: node_ok_def next_of_def)
  have "n \<in> set ys"
    using li [unfolded xs] _ le n(1) [unfolded xs] refl nd by (rule match_behind_bucket) simp
  then obtain ys1 B where "ys = ys1 @ n # B" by (auto simp add: in_set_conv_decomp)
  with xs lk show ?thesis by blast
qed

subsection \<open>\<^verbatim>\<open>cds_lfht_add\<close>, \<^verbatim>\<open>cds_lfht_add_unique\<close> and \<^verbatim>\<open>cds_lfht_add_replace\<close>\<close>

text \<open>\<open>hashed ht node\<close>: the table after the store to \<^verbatim>\<open>node->p.reverse_hash\<close>.\<close>

definition hashed :: "cds_lfht \<Rightarrow> addr \<Rightarrow> cds_lfht" where
  "hashed ht node =
     set_reverse_hash ht node
       (bit_reverse_ulong (hash_fct ht (node_key (mem ht node)) (hash_seed ht)))"

lemma hashed_simps [simp]:
  "next_of (hashed ht node) b = next_of ht b"
  "node_key (mem (hashed ht node) b) = node_key (mem ht b)"
  "rhash (hashed ht node) node
     = bit_reverse_ulong (hash_fct ht (node_key (mem ht node)) (hash_seed ht))"
  "b \<noteq> node \<Longrightarrow> rhash (hashed ht node) b = rhash ht b"
  "b \<noteq> node \<Longrightarrow> mem (hashed ht node) b = mem ht b"
  "t_size (hashed ht node) = t_size ht" "hash_fct (hashed ht node) = hash_fct ht"
  "compare_fct (hashed ht node) = compare_fct ht" "hash_seed (hashed ht node) = hash_seed ht"
  "flags (hashed ht node) = flags ht"
  "t_resize_target (hashed ht node) = t_resize_target ht"
  "t_resize_initiated (hashed ht node) = t_resize_initiated ht"
  "in_progress_resize (hashed ht node) = in_progress_resize ht"
  "in_progress_destroy (hashed ht node) = in_progress_destroy ht"
  "ht_count (hashed ht node) = ht_count ht" "call_rcu_queue (hashed ht node) = call_rcu_queue ht"
  "heap_free (hashed ht node) = heap_free ht"
  "static_eq ht' (hashed ht node) = static_eq ht' ht"
  "resize_eq ht' (hashed ht node) = resize_eq ht' ht"
  by (simp_all add: hashed_def) (simp add: set_reverse_hash_def)

lemma table_inv_hashed:
  "table_inv ht xs \<Longrightarrow> node \<notin> set xs \<Longrightarrow> table_inv (hashed ht node) xs"
  by (erule table_inv_cong) (auto simp add: hashed_def set_reverse_hash_def)

lemma quiet_hashed [simp]: "quiet (hashed ht node) xs = quiet ht xs"
  by (simp add: hashed_def)

lemma cds_lfht_add_insert:
  assumes inv: "table_inv ht xs" and node: "\<not> is_bucket node" "node \<notin> set xs"
    and nomatch: "\<forall>a\<in>set xs. \<not> matches (hashed ht node) node mode a"
  shows "\<exists>ht' A B. cds_lfht_add' (hashed ht node) (t_size ht) node mode False
              = Some (ht', if mode = ADD_REPLACE then None else Some node)
          \<and> xs = A @ B \<and> A \<noteq> [] \<and> table_inv ht' (A @ node # B)
          \<and> static_eq ht ht' \<and> frame (hashed ht node) ht' (insert node (set xs))
          \<and> (quiet ht xs \<longrightarrow> resize_eq ht ht')"
proof -
  let ?ht1 = "hashed ht node"
  from table_inv_hashed [OF inv node(2)] obtain k where k: "k < 64" "t_size ht = 2 ^ k"
    and li: "list_inv (mem ?ht1) {d. d < t_size ht} xs"
    by (auto simp add: table_inv_def)
  from cds_lfht_add_user_insert [OF li subset_refl k(2,1) node(2,1) nomatch] obtain ht' A B where
    run: "cds_lfht_add' ?ht1 (t_size ht) node mode False
              = Some (ht', if mode = ADD_REPLACE then None else Some node)"
    and xs: "xs = A @ B" "A \<noteq> []" and li': "list_inv (mem ht') {d. d < t_size ht} (A @ node # B)"
    and st: "static_eq ?ht1 ht'" and fr: "frame ?ht1 ht' (insert node (set xs))"
    and qu: "quiet ?ht1 xs \<longrightarrow> resize_eq ?ht1 ht'"
    by blast
  have "t_size ht' = t_size ht" using st by (simp add: static_eq_def)
  with li' k have "table_inv ht' (A @ node # B)" by (auto simp add: table_inv_def)
  moreover have "static_eq ht ht'" using st by (simp add: static_eq_def)
  moreover have "quiet ht xs \<longrightarrow> resize_eq ht ht'" using qu by (simp add: resize_eq_def)
  ultimately show ?thesis using run xs fr by blast
qed

lemma cds_lfht_add_found:
  assumes inv: "table_inv ht xs" and node: "\<not> is_bucket node" "node \<notin> set xs"
    and ex: "\<exists>a\<in>set xs. matches (hashed ht node) node mode a"
  shows "\<exists>ht' A c B. xs = A @ c # B \<and> (\<forall>a\<in>set A. \<not> matches (hashed ht node) node mode a)
          \<and> matches (hashed ht node) node mode c
          \<and> cds_lfht_add' (hashed ht node) (t_size ht) node mode False = Some (ht', Some c)
          \<and> static_eq ht ht' \<and> (quiet ht xs \<longrightarrow> resize_eq ht ht')
          \<and> (if mode = ADD_UNIQUE then resched (hashed ht node) ht'
              else table_inv ht' (A @ node # B)
                  \<and> frame (hashed ht node) ht' (insert node (set xs))
                  \<and> next_of ht' c = flag_removed (plain (Some node))
                  \<and> next_of ht' node = clear_flag (next_of ht c))"
proof -
  let ?ht1 = "hashed ht node"
  from table_inv_hashed [OF inv node(2)] obtain k where k: "k < 64" "t_size ht = 2 ^ k"
    and li: "list_inv (mem ?ht1) {d. d < t_size ht} xs"
    by (auto simp add: table_inv_def)
  from cds_lfht_add_user_match [OF li subset_refl k(2,1) node(2,1) ex] obtain ht' A c B where
    all: "xs = A @ c # B \<and> (\<forall>a\<in>set A. \<not> matches ?ht1 node mode a)
          \<and> matches ?ht1 node mode c
          \<and> cds_lfht_add' ?ht1 (t_size ht) node mode False = Some (ht', Some c)
          \<and> static_eq ?ht1 ht' \<and> (quiet ?ht1 xs \<longrightarrow> resize_eq ?ht1 ht')
          \<and> (if mode = ADD_UNIQUE then resched ?ht1 ht'
              else list_inv (mem ht') {d. d < t_size ht} (A @ node # B)
                  \<and> frame ?ht1 ht' (insert node (set xs))
                  \<and> next_of ht' c = flag_removed (plain (Some node))
                  \<and> next_of ht' node = clear_flag (next_of ?ht1 c))"
    by (elim exE) (rule that)
  note xs = all [THEN conjunct1]
  note nm = all [THEN conjunct2, THEN conjunct1]
  note m = all [THEN conjunct2, THEN conjunct2, THEN conjunct1]
  note run = all [THEN conjunct2, THEN conjunct2, THEN conjunct2, THEN conjunct1]
  note st = all [THEN conjunct2, THEN conjunct2, THEN conjunct2, THEN conjunct2, THEN conjunct1]
  note qu = all [THEN conjunct2, THEN conjunct2, THEN conjunct2, THEN conjunct2, THEN conjunct2,
      THEN conjunct1]
  note rest = all [THEN conjunct2, THEN conjunct2, THEN conjunct2, THEN conjunct2, THEN conjunct2,
      THEN conjunct2]
  have sz: "t_size ht' = t_size ht" using st by (simp add: static_eq_def)
  have 1: "static_eq ht ht'" using st by (simp add: static_eq_def)
  have 2: "quiet ht xs \<longrightarrow> resize_eq ht ht'" using qu by (simp add: resize_eq_def)
  have 3: "if mode = ADD_UNIQUE then resched ?ht1 ht'
              else table_inv ht' (A @ node # B)
                  \<and> frame ?ht1 ht' (insert node (set xs))
                  \<and> next_of ht' c = flag_removed (plain (Some node))
                  \<and> next_of ht' node = clear_flag (next_of ht c)"
    using rest k sz by (cases "mode = ADD_UNIQUE") (auto simp add: table_inv_def)
  show ?thesis
    using xs nm m run 1 2 3
    by (intro exI [of _ ht'] exI [of _ A] exI [of _ c] exI [of _ B]) simp
qed

lemma cds_lfht_add_eq:
  "cds_lfht_add ht node
     = cds_lfht_add' (hashed ht node) (t_size ht) node ADD_DEFAULT False \<bind> (\<lambda>(ht2, r). Some ht2)"
  by (simp add: cds_lfht_add_def hashed_def Let_def)

lemma cds_lfht_add_unique_eq:
  "cds_lfht_add_unique ht node = cds_lfht_add' (hashed ht node) (t_size ht) node ADD_UNIQUE False"
  by (simp add: cds_lfht_add_unique_def hashed_def Let_def split_def cong: if_cong)

lemma cds_lfht_add_replace_eq:
  "cds_lfht_add_replace ht node = cds_lfht_add' (hashed ht node) (t_size ht) node ADD_REPLACE False"
  by (simp add: cds_lfht_add_replace_def hashed_def Let_def split_def cong: if_cong)

subsection \<open>\<^verbatim>\<open>cds_lfht_del\<close>\<close>

lemma cds_lfht_del_linked:
  assumes inv: "table_inv ht xs" and n: "n \<in> set xs" "\<not> is_bucket n"
  shows "\<exists>ht' A B. cds_lfht_del ht \<lparr>iter_node = Some n, iter_next = nx\<rparr> = Some (ht', 0)
          \<and> xs = A @ n # B \<and> table_inv ht' (A @ B)
          \<and> static_eq ht ht' \<and> frame ht ht' (set xs) \<and> resize_eq ht ht'
          \<and> REMOVED_FLAG (next_of ht' n)"
proof -
  from user_behind_bucket [OF inv n] obtain A d ys1 B where
    xs: "xs = A @ d # ys1 @ n # B"
    and lk: "lookup_bucket (t_size ht) (bit_reverse_ulong (rhash ht n)) = Some d"
    by blast
  from inv obtain k where k: "k < 64" "t_size ht = 2 ^ k"
    and li: "list_inv (mem ht) {d. d < t_size ht} (A @ d # ys1 @ n # B)"
    by (auto simp add: table_inv_def xs)
  have D: "{d. d < t_size ht} = {x \<in> {d. d < t_size ht}. bucket_addr x \<noteq> n}"
    using n(2) by (auto simp add: is_bucket_simps)
  have dr: "False = is_bucket n" using n(2) by simp
  from cds_lfht_del_unlink [OF li lk dr D] obtain ht' where
    run: "cds_lfht_del' ht (t_size ht) (Some n) False = Some (ht', 0)"
    and li': "list_inv (mem ht') {d. d < t_size ht} (A @ d # ys1 @ B)"
    and st: "static_eq ht ht'" and fr: "frame ht ht' {n, last (d # ys1)}"
    and rm: "REMOVED_FLAG (next_of ht' n)" and re: "resize_eq ht ht'"
    by blast
  have 1: "cds_lfht_del ht \<lparr>iter_node = Some n, iter_next = nx\<rparr> = Some (ht', 0)"
    by (simp add: cds_lfht_del_def run)
  have 2: "xs = (A @ d # ys1) @ n # B" by (simp add: xs)
  have "t_size ht' = t_size ht" using st by (simp add: static_eq_def)
  with li' k have 3: "table_inv ht' ((A @ d # ys1) @ B)" by (auto simp add: table_inv_def)
  have "last (d # ys1) \<in> set (d # ys1)" by (rule last_in_set) simp
  then have "last (d # ys1) \<in> set xs" unfolding xs by auto
  then have 4: "frame ht ht' (set xs)" using n(1) by (intro frame_mono [OF fr]) auto
  show ?thesis using 1 2 3 4 st re rm by blast
qed

lemma cds_lfht_del_stale:
  assumes "REMOVED_FLAG (next_of ht n)"
  shows "cds_lfht_del ht \<lparr>iter_node = Some n, iter_next = nx\<rparr> = Some (ht, - ENOENT)"
  using assms by (simp add: cds_lfht_del_def cds_lfht_del_removed ENOENT_def)

subsection \<open>\<^verbatim>\<open>cds_lfht_replace\<close>\<close>



section \<open>Resizing keeps the table in order\<close>

subsection \<open>Removing the dummy nodes of a level\<close>

text \<open>
  \<open>rest_part i j\<close>: the indexes of the buckets below level \<open>i\<close> and of the buckets of level
  \<open>i\<close> from \<open>j\<close> on.
\<close>

definition rest_part :: "nat \<Rightarrow> ulong \<Rightarrow> ulong set" where
  "rest_part i j =
     {d. d < half_size i} \<union> (\<lambda>j'. half_size i + j') ` {j'. j \<le> j' \<and> j' < half_size i}"

lemma rest_part_0: "rest_part i 0 = level_part i (half_size i)"
  by (simp add: rest_part_def level_part_def)

lemma rest_part_full: "rest_part i (half_size i) = {d. d < half_size i}"
  by (auto simp add: rest_part_def)

lemma rest_part_step:
  assumes "0 < i" "i \<le> 64" "j < half_size i"
  shows "{x \<in> rest_part i j. bucket_addr x \<noteq> Bucket i j} = rest_part i (j + 1)"
proof -
  have hs: "half_size i = 2 ^ (i - 1)" using assms(1) by (rule half_size_pow)
  have j': "j < 2 ^ (i - 1)" using assms(3) hs by simp
  have ba: "Bucket i j = bucket_addr (half_size i + j)"
    using bucket_addr_level [OF assms(1,2) j'] by simp
  have notin: "half_size i + j \<notin> {d. d < half_size i}"
    using level_part_notin [OF assms] by (simp add: level_part_def)
  have s: "(j + 1 \<le> j') = (j \<le> j' \<and> j' \<noteq> j)" for j'
    unfolding word_le_nat_alt unat_succ [OF assms(3)] word_unat_eq_iff by auto
  have "(x \<in> rest_part i (j + 1)) = (x \<in> rest_part i j \<and> x \<noteq> half_size i + j)" for x
  proof (cases "x < half_size i")
    case True
    with notin show ?thesis by (auto simp add: rest_part_def)
  next
    case False
    have "(x \<in> rest_part i (j + 1))
        = (\<exists>j'. x = half_size i + j' \<and> j \<le> j' \<and> j' \<noteq> j \<and> j' < half_size i)"
      using False unfolding rest_part_def s by blast
    also have "\<dots> = (x \<in> rest_part i j \<and> x \<noteq> half_size i + j)"
      using False unfolding rest_part_def by auto
    finally show ?thesis .
  qed
  then show ?thesis unfolding ba bucket_addr_inj by blast
qed

lemma set_reverse_hash_same: "rhash ht a = v \<Longrightarrow> set_reverse_hash ht a v = ht"
  by (auto simp add: set_reverse_hash_def rhash_def)

lemma earlier_in_list:
  assumes "sorted_wrt (before h) xs" "d \<in> set xs" "n \<in> set xs"
    and "p_reverse_hash (h d) < p_reverse_hash (h n)"
  shows "\<exists>A ys1 B. xs = A @ d # ys1 @ n # B"
proof -
  from assms(3) obtain P B where xs: "xs = P @ n # B" by (auto simp add: in_set_conv_decomp)
  have "d \<notin> set B"
  proof
    assume "d \<in> set B"
    with assms(1) have "before h n d" by (simp add: xs sorted_wrt_append)
    with assms(4) show False unfolding before_def by (metis leD)
  qed
  moreover have "d \<noteq> n" using assms(4) by auto
  ultimately have "d \<in> set P" using assms(2) by (simp add: xs)
  then obtain A ys1 where "P = A @ d # ys1" by (auto simp add: in_set_conv_decomp)
  with xs have "xs = A @ d # ys1 @ n # B" by simp
  then show ?thesis by blast
qed

lemma cds_lfht_del_dummy:
  assumes inv: "list_inv (mem ht) (rest_part i j) xs"
    and i: "0 < i" "i \<le> 64" and j: "j < half_size i"
  shows "\<exists>ht' xs'. cds_lfht_del' ht (half_size i) (Some (Bucket i j)) True = Some (ht', 0)
          \<and> rhash ht (Bucket i j) = bit_reverse_ulong (half_size i + j)
          \<and> list_inv (mem ht') (rest_part i (j + 1)) xs' \<and> users xs' = users xs
          \<and> static_eq ht ht' \<and> resize_eq ht ht'"
proof -
  let ?n = "Bucket i j"
  let ?sz = "half_size i"
  have hs: "?sz = 2 ^ (i - 1)" using i(1) by (rule half_size_pow)
  have i1: "i - 1 < 64" using i by simp
  have j': "j < 2 ^ (i - 1)" using j hs by simp
  have ba: "bucket_addr (?sz + j) = ?n" using i j' by (rule bucket_addr_level)
  have idx: "(?sz + j) AND (?sz - 1) = j" unfolding hs using i j' by (rule level_index_mask)
  have inD: "?sz + j \<in> rest_part i j" using j by (auto simp add: rest_part_def)
  have jD: "j \<in> rest_part i j" using j by (simp add: rest_part_def)
  note n = list_inv_bucket [OF inv inD, unfolded ba]
  note d = list_inv_bucket [OF inv jD]
  have rn: "rhash ht ?n = bit_reverse_ulong (?sz + j)" using n(2) by (simp only: rhash_def)
  have "0 < ?sz" unfolding hs by (rule pow2_pos [OF i1])
  then have z: "?sz \<noteq> 0" by (simp only: word_neq_0_conv)
  have lk: "lookup_bucket ?sz (bit_reverse_ulong (rhash ht ?n)) = Some (bucket_addr j)"
    using \<open>0 < ?sz\<close> by (simp add: lookup_bucket_eq rn idx)
  have "bit_reverse_ulong j \<le> bit_reverse_ulong (?sz + j)"
    using bucket_reverse_hash_le [of "bit_reverse_ulong (?sz + j)" "?sz - 1"] by (simp add: idx)
  moreover have "bit_reverse_ulong j \<noteq> bit_reverse_ulong (?sz + j)" using z by simp
  ultimately have lt: "p_reverse_hash (mem ht (bucket_addr j)) < p_reverse_hash (mem ht ?n)"
    by (simp add: d(2) n(2) order.strict_iff_order)
  have s: "sorted_wrt (before (mem ht)) xs" using inv by (simp add: list_inv_def)
  from earlier_in_list [OF s d(1) n(1) lt] obtain A ys1 B where
    xs: "xs = A @ bucket_addr j # ys1 @ ?n # B"
    by blast
  have dr: "True = is_bucket ?n" by simp
  from cds_lfht_del_unlink [OF inv [unfolded xs] lk dr refl] obtain ht' where
    run: "cds_lfht_del' ht ?sz (Some ?n) True = Some (ht', 0)"
    and inv': "list_inv (mem ht') {x \<in> rest_part i j. bucket_addr x \<noteq> ?n}
        (A @ bucket_addr j # ys1 @ B)"
    and st: "static_eq ht ht'" and re: "resize_eq ht ht'"
    by blast
  have 1: "list_inv (mem ht') (rest_part i (j + 1)) (A @ bucket_addr j # ys1 @ B)"
    using inv' by (simp only: rest_part_step [OF i j])
  have 2: "users (A @ bucket_addr j # ys1 @ B) = users xs" by (auto simp add: users_def xs)
  show ?thesis using run rn 1 2 st re by blast
qed

lemma remove_table_partition_loop_run:
  assumes "list_inv (mem ht) (rest_part i j) xs" "0 < i" "i \<le> 64" "j \<le> e" "e \<le> half_size i"
  shows "\<exists>ht' xs'. remove_table_partition_loop ht i j e = Some ht'
          \<and> list_inv (mem ht') (rest_part i e) xs' \<and> users xs' = users xs
          \<and> static_eq ht ht' \<and> resize_eq ht ht'"
  using assms
proof (induction "unat e - unat j" arbitrary: ht j xs)
  case 0
  then have "j = e" by (simp add: word_le_nat_alt word_unat_eq_iff)
  then have "remove_table_partition_loop ht i j e = Some ht"
    by (subst remove_table_partition_loop.simps) simp
  with 0 \<open>j = e\<close> show ?case by auto
next
  case (Suc n)
  from Suc.hyps(2) have lt: "j < e" by (simp add: word_less_nat_alt)
  then have j: "j < half_size i" using Suc.prems(5) by simp
  from cds_lfht_del_dummy [OF Suc.prems(1,2,3) j] obtain ht2 xs2 where
    run: "cds_lfht_del' ht (half_size i) (Some (Bucket i j)) True = Some (ht2, 0)"
    and rn: "rhash ht (Bucket i j) = bit_reverse_ulong (half_size i + j)"
    and inv2: "list_inv (mem ht2) (rest_part i (j + 1)) xs2" and u2: "users xs2 = users xs"
    and st: "static_eq ht ht2" and re: "resize_eq ht ht2"
    by blast
  have le: "j + 1 \<le> e" using lt by (rule inc_le)
  have "unat (j + 1) = unat j + 1" using lt by (rule unat_succ)
  with Suc.hyps(2) have n: "n = unat e - unat (j + 1)" by simp
  from Suc.hyps(1) [OF n inv2 Suc.prems(2,3) le Suc.prems(5)] obtain ht' xs' where
    run': "remove_table_partition_loop ht2 i (j + 1) e = Some ht'"
    and inv': "list_inv (mem ht') (rest_part i e) xs'" and u': "users xs' = users xs2"
    and st': "static_eq ht2 ht'" and re': "resize_eq ht2 ht'"
    by blast
  have 1: "remove_table_partition_loop ht i j e = Some ht'"
    using lt
    by (subst remove_table_partition_loop.simps)
      (simp add: set_reverse_hash_same [OF rn] run run')
  show ?case
    using 1 inv' u' u2 static_eq_trans [OF st st'] resize_eq_trans [OF re re'] by auto
qed

lemma remove_table_eq: "remove_table ht i len = remove_table_partition_loop ht i 0 len"
  by (simp add: remove_table_def remove_table_partition_def nr_cpus_mask_def)

text \<open>One round of the loop of \<^verbatim>\<open>fini_table\<close>.\<close>

lemma fini_table_round:
  assumes inv: "table_inv ht xs" and sz: "t_size ht = 2 ^ i" and i: "0 < i" "i < 64"
  shows "\<exists>ht2 xs'. remove_table (ht\<lparr>t_size := half_size i\<rparr>) i (half_size i) = Some ht2
          \<and> table_inv ht2 xs' \<and> t_size ht2 = 2 ^ (i - 1) \<and> users xs' = users xs
          \<and> resized ht ht2 \<and> resize_eq ht ht2"
proof -
  let ?ht1 = "ht\<lparr>t_size := half_size i\<rparr>"
  have hs: "half_size i = 2 ^ (i - 1)" using i(1) by (rule half_size_pow)
  have os: "order_size i = 2 ^ i" using i(1) by (simp add: order_size_def push_bit_eq_mult)
  have i64: "i \<le> 64" using i by simp
  have "list_inv (mem ht) {d. d < order_size i} xs" using inv by (simp add: table_inv_def sz os)
  then have inv1: "list_inv (mem ?ht1) (rest_part i 0) xs"
    by (simp add: rest_part_0 level_part_full [OF i])
  from remove_table_partition_loop_run [OF inv1 i(1) i64, of "half_size i"] obtain ht2 xs' where
    run: "remove_table_partition_loop ?ht1 i 0 (half_size i) = Some ht2"
    and inv2: "list_inv (mem ht2) (rest_part i (half_size i)) xs'"
    and u: "users xs' = users xs" and st: "static_eq ?ht1 ht2" and re: "resize_eq ?ht1 ht2"
    by auto
  have s2: "t_size ht2 = 2 ^ (i - 1)" using st by (simp add: static_eq_def hs)
  have "i - 1 < 64" using i by simp
  with inv2 s2 have 1: "table_inv ht2 xs'"
    unfolding table_inv_def rest_part_full by (auto simp add: hs)
  have 2: "resized ht ht2" using st by (simp add: static_eq_def resized_def)
  have 3: "resize_eq ht ht2" using re by (simp add: resize_eq_def)
  show ?thesis using run 1 2 3 s2 u by (auto simp add: remove_table_eq)
qed

lemma fini_table_loop_run:
  assumes "table_inv ht xs" "t_size ht = 2 ^ i" "i < 64" "0 < first_order"
  shows "\<exists>ht' xs'. fini_table_loop ht i first_order = Some ht' \<and> table_inv ht' xs'
          \<and> users xs' = users xs \<and> resized ht ht'"
  using assms
proof (induction i arbitrary: ht xs)
  case 0
  then have "fini_table_loop ht 0 first_order = Some ht"
    by (subst fini_table_loop.simps) simp
  with 0 show ?case by auto
next
  case (Suc i)
  let ?i = "Suc i"
  show ?case
  proof (cases "first_order \<le> ?i \<and> \<not> push_bit (?i - 1) 1 < t_resize_target ht")
    case False
    then have "fini_table_loop ht ?i first_order = Some ht"
      by (subst fini_table_loop.simps) (auto simp add: Let_def)
    with Suc.prems show ?thesis by auto
  next
    case True
    from fini_table_round [OF Suc.prems(1,2) _ Suc.prems(3)] obtain ht2 xs2 where
      run: "remove_table (ht\<lparr>t_size := half_size ?i\<rparr>) ?i (half_size ?i) = Some ht2"
      and inv2: "table_inv ht2 xs2" and s2: "t_size ht2 = 2 ^ (?i - 1)"
      and u2: "users xs2 = users xs" and rs: "resized ht ht2"
      by auto
    let ?ht3 = "ht2\<lparr>heap_free := heap_free ht2 + unat (half_size ?i * sizeof_cds_lfht_node)\<rparr>"
    have inv3: "table_inv ?ht3 xs2" using inv2 by (rule table_inv_fields) simp_all
    have s3: "t_size ?ht3 = 2 ^ (?i - 1)" using s2 by simp
    have rs3: "resized ht ?ht3" using rs by (simp add: resized_def)
    have step: "fini_table_loop ht ?i first_order
        = (if in_progress_destroy ?ht3 \<noteq> 0 then Some ?ht3
           else fini_table_loop ?ht3 i first_order)"
      using True run
      by (subst fini_table_loop.simps) (simp add: Let_def half_size_def)
    show ?thesis
    proof (cases "in_progress_destroy ?ht3 \<noteq> 0")
      case True
      with step inv3 u2 rs3 show ?thesis by auto
    next
      case False
      from Suc.IH [OF inv3 _ _ Suc.prems(4)] s3 Suc.prems(3) obtain ht' xs' where
        "fini_table_loop ?ht3 i first_order = Some ht'" "table_inv ht' xs'"
        "users xs' = users xs2" "resized ?ht3 ht'"
        by auto
      with step False u2 rs3 show ?thesis by (auto intro: resized_trans)
    qed
  qed
qed

subsection \<open>\<^verbatim>\<open>_do_cds_lfht_resize\<close>\<close>

lemma get_count_order_ulong_le:
  assumes "x \<noteq> 0" "x \<le> 2 ^ k" "k < 64"
  shows "0 \<le> get_count_order_ulong x" "get_count_order_ulong x \<le> int k"
proof -
  have u: "0 < unat x" using assms(1) by (simp add: unat_gt_0)
  then have "(1 :: ulong) \<le> x" by (simp add: word_le_nat_alt)
  then have "unat (x - 1) = unat x - unat (1 :: ulong)" by (rule unat_sub)
  then have e: "get_count_order_ulong x = int (msb_index (unat x - 1))"
    using assms(1) by (simp add: get_count_order_ulong_def fls_ulong_msb)
  have "unat x \<le> 2 ^ k" using assms(2,3) by (simp add: word_le_nat_alt unat_2p)
  with u have "unat x - 1 < 2 ^ k" by simp
  then have "msb_index (unat x - 1) \<le> k" by (rule msb_index_le)
  then show "get_count_order_ulong x \<le> int k" by (simp add: e)
  show "0 \<le> get_count_order_ulong x" by (simp add: e)
qed

lemma do_cds_lfht_grow_inv:
  assumes "table_inv ht xs" "do_cds_lfht_grow ht (t_size ht) new_size = Some ht'"
  shows "\<exists>xs'. table_inv ht' xs' \<and> users xs' = users xs \<and> resized ht ht'"
proof -
  from assms(1) obtain k where k: "k < 64" "t_size ht = 2 ^ k" by (auto simp add: table_inv_def)
  have o: "nat (get_count_order_ulong (t_size ht) + 1) = k + 1"
    by (simp add: k(2) get_count_order_ulong_pow2 [OF k(1)])
  from assms(2) obtain e where "init_table_loop ht (k + 1) e = Some ht'"
    unfolding do_cds_lfht_grow_def o Let_def init_table_def
    by (auto split: if_splits)
  from init_table_loop_inv [OF assms(1) _ _ _ this] k show ?thesis by simp
qed

lemma do_cds_lfht_shrink_inv:
  assumes "table_inv ht xs" "do_cds_lfht_shrink ht (t_size ht) new_size = Some ht'"
  shows "\<exists>xs'. table_inv ht' xs' \<and> users xs' = users xs \<and> resized ht ht'"
proof -
  from assms(1) obtain k where k: "k < 64" "t_size ht = 2 ^ k" by (auto simp add: table_inv_def)
  let ?new = "max new_size MIN_TABLE_SIZE"
  let ?no = "nat (get_count_order_ulong ?new + 1)"
  have o: "nat (get_count_order_ulong (t_size ht) + 1) = k + 1"
    by (simp add: k(2) get_count_order_ulong_pow2 [OF k(1)])
  from assms(2) have lt: "?new < t_size ht"
    unfolding do_cds_lfht_shrink_def Let_def by (auto split: if_splits)
  have nz: "?new \<noteq> 0" by (auto simp add: MIN_TABLE_SIZE_def max_def)
  have le: "?new \<le> 2 ^ k" using lt unfolding k(2) by (rule less_imp_le)
  note g = get_count_order_ulong_le [OF nz le k(1)]
  have no: "0 < ?no" "?no \<le> k + 1" using g by simp_all
  then have e: "?no + (k + 1 - ?no) - 1 = k" by simp
  from assms(2) lt no(1) have run: "fini_table_loop ht k ?no = Some ht'"
    unfolding do_cds_lfht_shrink_def o Let_def fini_table_def e by simp
  from fini_table_loop_run [OF assms(1) k(2,1) no(1)] run show ?thesis by auto
qed

lemma do_cds_lfht_resize_inv:
  assumes "do_cds_lfht_resize ht = Some ht'" "table_inv ht xs"
  shows "\<exists>xs'. table_inv ht' xs' \<and> users xs' = users xs \<and> resized ht ht'"
proof -
  have "\<forall>xs. table_inv ht xs
      \<longrightarrow> (\<exists>xs'. table_inv ht' xs' \<and> users xs' = users xs \<and> resized ht ht')"
  proof (rule do_cds_lfht_resize.raw_induct [OF _ assms(1)], goal_cases)
    case (1 f ht ht')
    show ?case
    proof (intro allI impI)
      fix xs assume inv: "table_inv ht xs"
      note body = 1(2)
      show "\<exists>xs'. table_inv ht' xs' \<and> users xs' = users xs \<and> resized ht ht'"
      proof (cases "in_progress_destroy ht \<noteq> 0")
        case True
        with body have "ht' = ht" by (auto split: if_splits)
        with inv show ?thesis by auto
      next
        case False
        let ?ht1 = "ht\<lparr>t_resize_initiated := True\<rparr>"
        have inv1: "table_inv ?ht1 xs" using inv by (rule table_inv_fields) simp_all
        have r1: "resized ht ?ht1" by (simp add: resized_def)
        from body False obtain ht2 where
          ht2: "(if t_size ?ht1 < t_resize_target ?ht1
                 then do_cds_lfht_grow ?ht1 (t_size ?ht1) (t_resize_target ?ht1)
                 else if t_resize_target ?ht1 < t_size ?ht1
                      then do_cds_lfht_shrink ?ht1 (t_size ?ht1) (t_resize_target ?ht1)
                      else Some ?ht1) = Some ht2"
          and rest: "(let ht3 = ht2\<lparr>t_resize_initiated := False\<rparr>
                      in if t_size ht3 \<noteq> t_resize_target ht3 then f ht3 else Some ht3) = Some ht'"
          by (auto simp add: Let_def bind_eq_Some_conv split: if_splits)
        have "\<exists>xs2. table_inv ht2 xs2 \<and> users xs2 = users xs \<and> resized ?ht1 ht2"
        proof (cases "t_size ?ht1 < t_resize_target ?ht1")
          case True
          with ht2 do_cds_lfht_grow_inv [OF inv1] show ?thesis by simp
        next
          case ng: False
          show ?thesis
          proof (cases "t_resize_target ?ht1 < t_size ?ht1")
            case True
            with ng ht2 do_cds_lfht_shrink_inv [OF inv1] show ?thesis by simp
          next
            case False
            with ng ht2 have "ht2 = ?ht1" by simp
            with inv1 show ?thesis by auto
          qed
        qed
        then obtain xs2 where inv2: "table_inv ht2 xs2" and u2: "users xs2 = users xs"
          and r2: "resized ?ht1 ht2"
          by blast
        let ?ht3 = "ht2\<lparr>t_resize_initiated := False\<rparr>"
        have inv3: "table_inv ?ht3 xs2" using inv2 by (rule table_inv_fields) simp_all
        have r3: "resized ht ?ht3" using r1 r2 by (simp add: resized_def)
        show ?thesis
        proof (cases "t_size ?ht3 \<noteq> t_resize_target ?ht3")
          case True
          with rest have "f ?ht3 = Some ht'" by (simp add: Let_def)
          from 1(1) [OF this] inv3 obtain xs' where
            "table_inv ht' xs'" "users xs' = users xs2" "resized ?ht3 ht'"
            by blast
          with u2 r3 show ?thesis by (auto intro: resized_trans)
        next
          case False
          with rest have "ht' = ?ht3" by (simp add: Let_def)
          with inv3 u2 r3 show ?thesis by auto
        qed
      qed
    qed
  qed
  with assms(2) show ?thesis by blast
qed

lemma cds_lfht_resize_inv:
  assumes "cds_lfht_resize ht new_size = Some ht'" "table_inv ht xs"
  shows "\<exists>xs'. table_inv ht' xs' \<and> users xs' = users xs \<and> resized ht ht'"
proof -
  let ?ht2 = "ht\<lparr>t_resize_target := max new_size MIN_TABLE_SIZE, t_resize_initiated := True\<rparr>"
  from assms(1) have run: "do_cds_lfht_resize ?ht2 = Some ht'"
    by (simp add: cds_lfht_resize_def resize_target_update_count_def Let_def)
  have "table_inv ?ht2 xs" using assms(2) by (rule table_inv_fields) simp_all
  from do_cds_lfht_resize_inv [OF run this] show ?thesis by (simp add: resized_def)
qed

lemma run_call_rcu_inv:
  assumes "run_call_rcu ht = Some ht'" "table_inv ht xs"
  shows "\<exists>xs'. table_inv ht' xs' \<and> users xs' = users xs \<and> resized ht ht'"
proof -
  let ?ht1 = "ht\<lparr>call_rcu_queue := call_rcu_queue ht - 1\<rparr>"
  from assms(1) obtain ht2 where run: "do_cds_lfht_resize ?ht1 = Some ht2"
    and ht': "ht' = ht2\<lparr>in_progress_resize := in_progress_resize ht2 - 1\<rparr>"
    by (auto simp add: run_call_rcu_def do_resize_cb_def bind_eq_Some_conv split: if_splits)
  have "table_inv ?ht1 xs" using assms(2) by (rule table_inv_fields) simp_all
  from do_cds_lfht_resize_inv [OF run this] obtain xs' where
    inv: "table_inv ht2 xs'" and u: "users xs' = users xs" and r: "resized ?ht1 ht2"
    by blast
  have "table_inv ht' xs'" using inv by (rule table_inv_fields) (simp_all add: ht')
  moreover have "resized ht ht'" using r by (simp add: resized_def ht')
  ultimately show ?thesis using u by blast
qed

section \<open>A table of one bucket\<close>

text \<open>
  The table that \<^verbatim>\<open>_cds_lfht_new\<close> returns for \<open>init_size = 1\<close>, the hash function that
  is 0 everywhere, the comparison of keys by equality and the flag
  \<^verbatim>\<open>CDS_LFHT_AUTO_RESIZE\<close>, in a memory of zeroes with 4096 bytes to allocate.
\<close>

definition zero_hash :: "key \<Rightarrow> ulong \<Rightarrow> ulong" where
  "zero_hash k seed = 0"

definition key_compare :: "key \<Rightarrow> key \<Rightarrow> int" where
  "key_compare a b = (if a = b then 0 else 1)"

definition table_1 :: cds_lfht where
  "table_1 =
     \<lparr>mem = (\<lambda>a. zero_node)(Bucket 0 0 := zero_node\<lparr>p_next := flag_dummy get_end\<rparr>),
      t_size = 1, t_resize_target = 1, t_resize_initiated = False,
      hash_fct = zero_hash, compare_fct = key_compare, hash_seed = 0,
      flags = CDS_LFHT_AUTO_RESIZE, in_progress_resize = 0, in_progress_destroy = 0,
      ht_count = 0, call_rcu_queue = 0, heap_free = 3376\<rparr>"

lemma cds_lfht_new_1:
  "cds_lfht_new' zero_hash key_compare 0 1 CDS_LFHT_AUTO_RESIZE (\<lambda>a. zero_node) 4096
     = Some (Some table_1)"
proof -
  have l1: "init_table_loop ht (Suc 0) (Suc 0) = Some ht" for ht
    by (subst init_table_loop.simps) simp
  have p1: "init_table_populate_partition_loop ht 0 1 1 = Some ht" for ht
    by (subst init_table_populate_partition_loop.simps) simp
  show ?thesis
    unfolding cds_lfht_new'_def init_table_def
    apply (simp add: MIN_TABLE_SIZE_def get_count_order_ulong_def Let_def calloc_def
        sizeof_cds_lfht_def)
    apply (subst init_table_loop.simps)
    apply (simp add: order_size_def MAX_TABLE_ORDER_def init_table_populate_eq calloc_level_0
        zero_level_def)
    apply (subst init_table_populate_partition_loop.simps)
    apply (simp add: half_size_def cds_lfht_add'_def p1 l1 order_size_def)
    apply (simp add: l1 table_1_def set_next_def set_reverse_hash_def zero_node_def fun_eq_iff
        split: addr.splits)
    done
qed

lemma table_1_inv: "table_inv table_1 [Bucket 0 0]"
proof -
  have "list_inv (mem table_1) {0} [Bucket 0 0]"
    by (simp add: table_1_def list_inv_def node_ok_def get_end_def bucket_index_def half_size_def
        zero_node_def)
  moreover have "t_size table_1 = 2 ^ 0" by (simp add: table_1_def)
  ultimately show ?thesis
    unfolding table_inv_def by (auto simp add: below_1 table_1_def intro: exI [of _ 0])
qed

section \<open>Creation and the initial size\<close>

text \<open>
  Claim C5, as the spec states it, says that creation fails exactly when \<open>init_size\<close> is
  not a power of two. The test of \<^verbatim>\<open>_cds_lfht_new\<close> is
  \<^verbatim>\<open>init_size && (init_size & (init_size - 1))\<close>: 0, which is not a power of two, passes
  it, and the table has the size \<^verbatim>\<open>MIN_TABLE_SIZE\<close>.
\<close>

theorem cds_lfht_new_size_0:
  "\<not> (\<exists>k<64. (0 :: ulong) = 2 ^ k)
   \<and> (\<exists>ht. cds_lfht_new' zero_hash key_compare 0 0 0 (\<lambda>a. zero_node) 4096 = Some (Some ht)
          \<and> t_size ht = 1)"
proof -
  have "(0 :: ulong) \<noteq> 2 ^ k" if "k < 64" for k
  proof -
    from pow2_pos [OF that] have "(2 ^ k :: ulong) \<noteq> 0" by (simp only: word_neq_0_conv)
    then show ?thesis by (rule not_sym)
  qed
  moreover have "new_fits 4096 0"
    by (simp add: new_fits_def MIN_TABLE_SIZE_def sizeof_cds_lfht_def sizeof_cds_lfht_node_def)
  from cds_lfht_new_ok [OF _ this, of zero_hash key_compare 0 0 "\<lambda>a. zero_node"]
  have "\<exists>ht. cds_lfht_new' zero_hash key_compare 0 0 0 (\<lambda>a. zero_node) 4096 = Some (Some ht)
          \<and> t_size ht = 1"
    by (auto simp add: MIN_TABLE_SIZE_def)
  ultimately show ?thesis by metis
qed

text \<open>
  Claim C5, amended: creation returns \<^verbatim>\<open>NULL\<close> exactly when \<open>init_size\<close> is neither 0 nor
  a power of two. When \<open>init_size\<close> is 0 or a power of two and \<^verbatim>\<open>calloc\<close> can provide the
  table and its \<open>max init_size MIN_TABLE_SIZE\<close> dummy nodes (\<open>new_fits\<close>: at most \<open>2 ^ 60\<close>
  nodes, so that the byte count of no level wraps around, and 704 bytes and 16 bytes for
  each node available), creation returns a table whose size is
  \<open>max init_size MIN_TABLE_SIZE\<close>; when \<^verbatim>\<open>calloc\<close> cannot, creation does not return (the
  \<^verbatim>\<open>assert\<close> on the result of \<^verbatim>\<open>calloc\<close> fails, or the level is written beyond its end).
\<close>

theorem cds_lfht_new_init_size:
  "(cds_lfht_new' hf cf seed init_size flgs m avail = Some None)
     = (init_size \<noteq> 0 \<and> \<not> (\<exists>k<64. init_size = 2 ^ k))
   \<and> (init_size = 0 \<or> (\<exists>k<64. init_size = 2 ^ k) \<longrightarrow>
        (if new_fits avail init_size
         then \<exists>ht. cds_lfht_new' hf cf seed init_size flgs m avail = Some (Some ht)
                \<and> t_size ht = max init_size MIN_TABLE_SIZE
         else cds_lfht_new' hf cf seed init_size flgs m avail = None))"
proof (intro conjI impI)
  show "(cds_lfht_new' hf cf seed init_size flgs m avail = Some None)
     = (init_size \<noteq> 0 \<and> \<not> (\<exists>k<64. init_size = 2 ^ k))"
    by (rule cds_lfht_new_NULL)
next
  assume v: "init_size = 0 \<or> (\<exists>k<64. init_size = 2 ^ k)"
  show "if new_fits avail init_size
         then \<exists>ht. cds_lfht_new' hf cf seed init_size flgs m avail = Some (Some ht)
                \<and> t_size ht = max init_size MIN_TABLE_SIZE
         else cds_lfht_new' hf cf seed init_size flgs m avail = None"
  proof (cases "new_fits avail init_size")
    case True
    from cds_lfht_new_ok [OF v True, of hf cf seed flgs m] True show ?thesis by auto
  next
    case False
    from cds_lfht_new_none [OF v False, of hf cf seed flgs m] False show ?thesis by simp
  qed
qed

lemma three_not_pow2: "\<not> (\<exists>k<64. (3 :: ulong) = 2 ^ k)"
proof -
  have "(3 :: ulong) \<noteq> 2 ^ k" for k
  proof (cases "k < 2")
    case True
    then have "k = 0 \<or> k = 1" by auto
    then show ?thesis by auto
  next
    case False
    then obtain j where "k = j + 2" by (metis add.commute le_Suc_ex not_less)
    then have "(2 :: ulong) ^ k = 4 * 2 ^ j" by (simp add: power_add)
    moreover have "\<not> bit (4 * 2 ^ j :: ulong) 0" by (simp add: bit_0)
    moreover have "bit (3 :: ulong) 0" by (simp add: bit_0)
    ultimately show ?thesis by metis
  qed
  then show ?thesis by blast
qed

theorem cds_lfht_new_init_size_witness:
  "cds_lfht_new' zero_hash key_compare 0 4 0 (\<lambda>a. zero_node) 4096 \<noteq> Some None
   \<and> (\<exists>ht. cds_lfht_new' zero_hash key_compare 0 4 0 (\<lambda>a. zero_node) 4096 = Some (Some ht)
          \<and> t_size ht = 4)
   \<and> cds_lfht_new' zero_hash key_compare 0 4 0 (\<lambda>a. zero_node) 767 = None
   \<and> cds_lfht_new' zero_hash key_compare 0 (2 ^ 63) 0 (\<lambda>a. zero_node) 4096 = None
   \<and> cds_lfht_new' zero_hash key_compare 0 3 0 (\<lambda>a. zero_node) 4096 = Some None"
proof -
  have 4: "\<exists>k<64. (4 :: ulong) = 2 ^ k" by (rule exI [of _ 2]) simp
  have b: "\<exists>k<64. (2 ^ 63 :: ulong) = 2 ^ k" by (rule exI [of _ 63]) simp
  have f: "new_fits 4096 4" "\<not> new_fits 767 4" "\<not> new_fits 4096 (2 ^ 63)"
    by (simp_all add: new_fits_def MIN_TABLE_SIZE_def sizeof_cds_lfht_def sizeof_cds_lfht_node_def
        max_def word_le_nat_alt)
  show ?thesis
    using cds_lfht_new_init_size [of zero_hash key_compare 0 4 0 "\<lambda>a. zero_node" 4096]
      cds_lfht_new_init_size [of zero_hash key_compare 0 4 0 "\<lambda>a. zero_node" 767]
      cds_lfht_new_init_size [of zero_hash key_compare 0 "2 ^ 63" 0 "\<lambda>a. zero_node" 4096]
      cds_lfht_new_init_size [of zero_hash key_compare 0 3 0 "\<lambda>a. zero_node" 4096]
      4 b f three_not_pow2
    by (simp add: MIN_TABLE_SIZE_def)
qed

section \<open>An iterator without a node\<close>

text \<open>
  Claim C10: \<^verbatim>\<open>cds_lfht_del\<close> and \<^verbatim>\<open>cds_lfht_replace\<close>, called with an iterator whose
  node is \<^verbatim>\<open>NULL\<close>, return \<^verbatim>\<open>-ENOENT\<close> and leave the table as it is.
\<close>

theorem cds_lfht_del_replace_no_node:
  assumes "iter_node it = None"
  shows "cds_lfht_del ht it = Some (ht, - ENOENT)
       \<and> cds_lfht_replace ht it new_node = Some (ht, - ENOENT)"
  using assms by (simp add: cds_lfht_del_def cds_lfht_replace_def ENOENT_def)

theorem cds_lfht_del_replace_no_node_witness:
  "cds_lfht_del table_1 \<lparr>iter_node = None, iter_next = plain None\<rparr> = Some (table_1, - 2)
   \<and> cds_lfht_replace table_1 \<lparr>iter_node = None, iter_next = plain None\<rparr> (User 0)
       = Some (table_1, - 2)"
  using cds_lfht_del_replace_no_node [of "\<lparr>iter_node = None, iter_next = plain None\<rparr>" table_1 "User 0"]
  by (simp add: ENOENT_def)

section \<open>The chain length that \<^verbatim>\<open>_cds_lfht_add\<close> counts\<close>

text \<open>
  \<open>chain_count ht ip ys\<close>: among the nodes \<open>ys\<close> that follow \<open>ip\<close>, the number of those that
  are no dummy nodes and whose reverse hash is not that of the node before them.
  \<open>check_chain ht sz cl n\<close>: the \<open>n\<close> calls \<^verbatim>\<open>check_resize(ht, sz, cl + 1)\<close>, \dots,
  \<^verbatim>\<open>check_resize(ht, sz, cl + n)\<close> one after the other.
\<close>

fun chain_count :: "cds_lfht \<Rightarrow> addr \<Rightarrow> addr list \<Rightarrow> nat" where
  "chain_count ht ip [] = 0"
| "chain_count ht ip (c # ys) =
     (if rhash ht ip \<noteq> rhash ht c \<and> \<not> DUMMY_FLAG (next_of ht c) then 1 else 0)
       + chain_count ht c ys"

fun check_chain :: "cds_lfht \<Rightarrow> ulong \<Rightarrow> 32 word \<Rightarrow> nat \<Rightarrow> cds_lfht option" where
  "check_chain ht sz cl 0 = Some ht"
| "check_chain ht sz cl (Suc n) =
     check_resize ht sz (cl + 1) \<bind> (\<lambda>ht1. check_chain ht1 sz (cl + 1) n)"

lemma chain_count_resched: "resched ht ht' \<Longrightarrow> chain_count ht' ip ys = chain_count ht ip ys"
  by (induction ys arbitrary: ip) (simp_all add: resched_fields)

lemma chain_count_le: "chain_count ht ip ys \<le> length ys"
  by (induction ys arbitrary: ip) (simp_all add: le_SucI)

lemma passes_resched: "resched ht ht' \<Longrightarrow> passes ht' node dummy a = passes ht node dummy a"
  by (simp add: passes_def resched_fields)

text \<open>
  The walk of \<^verbatim>\<open>_cds_lfht_add\<close> with \<^verbatim>\<open>ADD_DEFAULT\<close> along a list without removed nodes:
  it goes past the nodes \<open>ys1\<close> and has called \<^verbatim>\<open>check_resize\<close> once for each node that
  \<open>chain_count\<close> counts.
\<close>

lemma cds_lfht_add_scan_chain:
  assumes "seg (mem ht) (unflagged (next_of ht ip)) ys None"
    and "\<forall>a\<in>set ys. \<not> REMOVED_FLAG (next_of ht a)"
  shows "\<exists>ys1 ys2 h. ys = ys1 @ ys2 \<and> (\<forall>a\<in>set ys1. passes ht node dummy a)
          \<and> (ys2 = [] \<or> \<not> passes ht node dummy (hd ys2))
          \<and> check_chain ht sz cl (chain_count ht ip ys1) = Some h \<and> resched ht h
          \<and> cds_lfht_add_scan ht sz node ADD_DEFAULT dummy cl ip (next_of ht ip)
              = Some (h, Add_insert (last (ip # ys1)) (next_of ht (last (ip # ys1))))"
  using assms
proof (induction ys arbitrary: ht cl ip)
  case Nil
  then have "unflagged (next_of ht ip) = None" by simp
  then have "cds_lfht_add_scan ht sz node ADD_DEFAULT dummy cl ip (next_of ht ip)
      = Some (ht, Add_insert ip (next_of ht ip))"
    by (subst cds_lfht_add_scan.simps) simp
  then show ?case by (intro exI [of _ "[]"] exI [of _ ht]) simp
next
  case (Cons c ys)
  then have c: "unflagged (next_of ht ip) = Some c"
    and ys: "seg (mem ht) (unflagged (next_of ht c)) ys None"
    and nr: "\<not> REMOVED_FLAG (next_of ht c)" "\<forall>a\<in>set ys. \<not> REMOVED_FLAG (next_of ht a)"
    by (simp_all add: next_of_def)
  show ?case
  proof (cases "passes ht node dummy c")
    case False
    have "cds_lfht_add_scan ht sz node ADD_DEFAULT dummy cl ip (next_of ht ip)
        = Some (ht, Add_insert ip (next_of ht ip))"
      using False c by (subst cds_lfht_add_scan.simps) (auto simp add: passes_def)
    then show ?thesis
      using False by (intro exI [of _ "[]"] exI [of _ "c # ys"] exI [of _ ht]) simp
  next
    case p: True
    let ?k = "if rhash ht ip \<noteq> rhash ht c \<and> \<not> DUMMY_FLAG (next_of ht c) then 1 else 0 :: nat"
    obtain ht1 cl1 where ht1: "resched ht ht1"
      and ck: "\<And>n. check_chain ht sz cl (?k + n) = check_chain ht1 sz cl1 n"
      and sc: "cds_lfht_add_scan ht sz node ADD_DEFAULT dummy cl ip (next_of ht ip)
          = cds_lfht_add_scan ht1 sz node ADD_DEFAULT dummy cl1 c (next_of ht c)"
    proof (cases "rhash ht ip \<noteq> rhash ht c \<and> \<not> DUMMY_FLAG (next_of ht c)")
      case True
      obtain ht1 where ht1: "check_resize ht sz (cl + 1) = Some ht1" "resched ht ht1"
        using check_resize_resched by blast
      have "cds_lfht_add_scan ht sz node ADD_DEFAULT dummy cl ip (next_of ht ip)
          = cds_lfht_add_scan ht1 sz node ADD_DEFAULT dummy (cl + 1) c (next_of ht c)"
        using True p c nr ht1(1)
        by (subst cds_lfht_add_scan.simps) (auto simp add: passes_def)
      moreover have "check_chain ht sz cl (?k + n) = check_chain ht1 sz (cl + 1) n" for n
        using True ht1(1) by simp
      ultimately show ?thesis using ht1(2) that by blast
    next
      case False
      have "cds_lfht_add_scan ht sz node ADD_DEFAULT dummy cl ip (next_of ht ip)
          = cds_lfht_add_scan ht sz node ADD_DEFAULT dummy cl c (next_of ht c)"
        using False p c nr
        by (subst cds_lfht_add_scan.simps) (auto simp add: passes_def)
      moreover have "check_chain ht sz cl (?k + n) = check_chain ht sz cl n" for n
        using False by auto
      ultimately show ?thesis using that [of ht cl] by simp
    qed
    note f = resched_fields [OF ht1]
    from Cons.IH [of ht1 c cl1] ys nr(2) obtain ys1 ys2 h where
      y: "ys = ys1 @ ys2" and ps: "\<forall>a\<in>set ys1. passes ht1 node dummy a"
      and stop: "ys2 = [] \<or> \<not> passes ht1 node dummy (hd ys2)"
      and ch: "check_chain ht1 sz cl1 (chain_count ht1 c ys1) = Some h" and rs: "resched ht1 h"
      and run: "cds_lfht_add_scan ht1 sz node ADD_DEFAULT dummy cl1 c (next_of ht1 c)
              = Some (h, Add_insert (last (c # ys1)) (next_of ht1 (last (c # ys1))))"
      by (auto simp add: f)
    have 1: "c # ys = (c # ys1) @ ys2" using y by simp
    have 2: "\<forall>a\<in>set (c # ys1). passes ht node dummy a"
      using p ps by (simp add: passes_resched [OF ht1])
    have 3: "ys2 = [] \<or> \<not> passes ht node dummy (hd ys2)"
      using stop by (simp add: passes_resched [OF ht1])
    have 4: "check_chain ht sz cl (chain_count ht ip (c # ys1)) = Some h"
      using ch ck [of "chain_count ht c ys1"] by (simp add: chain_count_resched [OF ht1])
    have 5: "resched ht h" using ht1 rs by (rule resched_trans)
    have 6: "cds_lfht_add_scan ht sz node ADD_DEFAULT dummy cl ip (next_of ht ip)
        = Some (h, Add_insert (last (ip # c # ys1)) (next_of ht (last (ip # c # ys1))))"
      using run sc by (simp add: f)
    show ?thesis
      using 1 2 3 4 5 6 by (intro exI [of _ "c # ys1"] exI [of _ ys2] exI [of _ h]) simp
  qed
qed

text \<open>The state after the walk and the state that \<^verbatim>\<open>_cds_lfht_add\<close> returns.\<close>

lemma cds_lfht_add_retry_after_scan:
  assumes "cds_lfht_add_retry ht sz node mode dummy lookup = Some (ht', r)"
    and "cds_lfht_add_scan ht sz node mode dummy 0 lookup (next_of ht lookup)
        = Some (h, Add_insert ip it)"
    and "next_of h ip = it" "ip \<noteq> node"
  shows "resize_eq h ht'"
  using assms(1)
  by (subst (asm) cds_lfht_add_retry.simps)
    (auto simp add: assms(2,3,4) Let_def split: if_splits)

subsection \<open>What the calls of \<^verbatim>\<open>check_resize\<close> do\<close>

text \<open>
  \<open>lazy_rel h h' sz G\<close>: \<open>h'\<close> is \<open>h\<close> after calls of \<^verbatim>\<open>cds_lfht_resize_lazy\<close> for the size
  \<open>sz\<close> that asked for the targets \<open>G\<close>. The resize target is the greatest of the old one
  and those asked for; the resize is handed to \<^verbatim>\<open>call_rcu\<close> once, if none was initiated,
  the table is not being destroyed and the target is above \<open>sz\<close>.
\<close>

definition lazy_rel :: "cds_lfht \<Rightarrow> cds_lfht \<Rightarrow> ulong \<Rightarrow> ulong set \<Rightarrow> bool" where
  "lazy_rel h h' sz G =
     (resched h h'
      \<and> t_resize_target h' \<in> insert (t_resize_target h) G
      \<and> (\<forall>x\<in>insert (t_resize_target h) G. x \<le> t_resize_target h')
      \<and> (if G \<noteq> {} \<and> \<not> t_resize_initiated h \<and> in_progress_destroy h = 0
             \<and> sz < t_resize_target h'
          then call_rcu_queue h' = call_rcu_queue h + 1
             \<and> in_progress_resize h' = in_progress_resize h + 1 \<and> t_resize_initiated h'
          else call_rcu_queue h' = call_rcu_queue h
             \<and> in_progress_resize h' = in_progress_resize h
             \<and> t_resize_initiated h' = t_resize_initiated h))"

lemma lazy_rel_refl: "lazy_rel h h sz {}"
  by (simp add: lazy_rel_def)

lemma lazy_rel_call:
  "\<exists>h'. cds_lfht_resize_lazy h sz g = Some h' \<and> lazy_rel h h' sz {push_bit (nat g) sz}"
  unfolding cds_lfht_resize_lazy_eq Let_def lazy_rel_def
  by (auto simp add: resched_def max_def)

lemma lazy_rel_trans:
  assumes "lazy_rel a b sz G1" "lazy_rel b c sz G2"
  shows "lazy_rel a c sz (G1 \<union> G2)"
proof -
  from assms have r: "resched a b" "resched b c" by (simp_all add: lazy_rel_def)
  then have d: "in_progress_destroy b = in_progress_destroy a"
    by (simp add: resched_def)
  from assms(1) have t1: "t_resize_target b \<in> insert (t_resize_target a) G1"
    "\<forall>x\<in>insert (t_resize_target a) G1. x \<le> t_resize_target b"
    by (simp_all add: lazy_rel_def)
  from assms(2) have t2: "t_resize_target c \<in> insert (t_resize_target b) G2"
    "\<forall>x\<in>insert (t_resize_target b) G2. x \<le> t_resize_target c"
    by (simp_all add: lazy_rel_def)
  have le: "t_resize_target b \<le> t_resize_target c" using t2(2) by simp
  have 1: "t_resize_target c \<in> insert (t_resize_target a) (G1 \<union> G2)" using t1(1) t2(1) by auto
  have 2: "\<forall>x\<in>insert (t_resize_target a) (G1 \<union> G2). x \<le> t_resize_target c"
    using t1(2) t2(2) le by (auto intro: order_trans)
  have e1: "G1 = {} \<Longrightarrow> t_resize_target b = t_resize_target a" using t1(1) by simp
  have e2: "G2 = {} \<Longrightarrow> t_resize_target c = t_resize_target b" using t2(1) by simp
  have 3: "if G1 \<union> G2 \<noteq> {} \<and> \<not> t_resize_initiated a \<and> in_progress_destroy a = 0
             \<and> sz < t_resize_target c
          then call_rcu_queue c = call_rcu_queue a + 1
             \<and> in_progress_resize c = in_progress_resize a + 1 \<and> t_resize_initiated c
          else call_rcu_queue c = call_rcu_queue a
             \<and> in_progress_resize c = in_progress_resize a
             \<and> t_resize_initiated c = t_resize_initiated a"
  proof (cases "G1 \<noteq> {} \<and> \<not> t_resize_initiated a \<and> in_progress_destroy a = 0
      \<and> sz < t_resize_target b")
    case True
    with assms(1) have b: "call_rcu_queue b = call_rcu_queue a + 1"
      "in_progress_resize b = in_progress_resize a + 1" "t_resize_initiated b"
      by (simp_all add: lazy_rel_def)
    with assms(2) have "call_rcu_queue c = call_rcu_queue b"
      "in_progress_resize c = in_progress_resize b" "t_resize_initiated c"
      by (simp_all add: lazy_rel_def)
    moreover have "sz < t_resize_target c" using True le by (auto intro: less_le_trans)
    ultimately show ?thesis using True b by simp
  next
    case False
    with assms(1) have b: "call_rcu_queue b = call_rcu_queue a"
      "in_progress_resize b = in_progress_resize a"
      "t_resize_initiated b = t_resize_initiated a"
      by (simp_all add: lazy_rel_def)
    show ?thesis
    proof (cases "G2 \<noteq> {} \<and> \<not> t_resize_initiated b \<and> in_progress_destroy b = 0
        \<and> sz < t_resize_target c")
      case True
      with assms(2) have "call_rcu_queue c = call_rcu_queue b + 1"
        "in_progress_resize c = in_progress_resize b + 1" "t_resize_initiated c"
        by (simp_all add: lazy_rel_def)
      then show ?thesis using True b d by auto
    next
      case f2: False
      with assms(2) have c: "call_rcu_queue c = call_rcu_queue b"
        "in_progress_resize c = in_progress_resize b"
        "t_resize_initiated c = t_resize_initiated b"
        by (simp_all add: lazy_rel_def)
      have "\<not> (G1 \<union> G2 \<noteq> {} \<and> \<not> t_resize_initiated a \<and> in_progress_destroy a = 0
             \<and> sz < t_resize_target c)"
      proof
        assume a: "G1 \<union> G2 \<noteq> {} \<and> \<not> t_resize_initiated a \<and> in_progress_destroy a = 0
             \<and> sz < t_resize_target c"
        with f2 b d have g2: "G2 = {}" by auto
        with a have "G1 \<noteq> {}" by simp
        moreover from a e2 [OF g2] have "sz < t_resize_target b" by simp
        ultimately show False using False a by simp
      qed
      with b c show ?thesis by simp
    qed
  qed
  from r have "resched a c" by (rule resched_trans)
  with 1 2 3 show ?thesis unfolding lazy_rel_def by simp
qed

text \<open>The targets that the calls \<open>cl + 1\<close>, \dots, \<open>cl + n\<close> ask for.\<close>

definition asked :: "ulong \<Rightarrow> 32 word \<Rightarrow> nat \<Rightarrow> ulong set" where
  "asked sz cl n =
     {push_bit (nat (get_count_order_u32 (cl + of_nat j - (CHAIN_LEN_TARGET - 1)))) sz | j.
        1 \<le> j \<and> j \<le> n \<and> CHAIN_LEN_RESIZE_THRESHOLD \<le> cl + of_nat j}"

lemma range_Suc:
  "{F (cl + of_nat j) | j. 1 \<le> j \<and> j \<le> Suc n \<and> P (cl + of_nat j)}
     = (if P (cl + 1) then {F (cl + 1)} else {})
       \<union> {F (cl + 1 + of_nat j) | j. 1 \<le> j \<and> j \<le> n \<and> P (cl + 1 + of_nat j)}"
  (is "?L = ?R") for cl :: "32 word"
proof (rule set_eqI)
  fix x
  have a: "cl + of_nat (Suc i) = cl + 1 + of_nat i" for i by simp
  show "x \<in> ?L \<longleftrightarrow> x \<in> ?R"
  proof
    assume "x \<in> ?L"
    then obtain j where j: "x = F (cl + of_nat j)" "1 \<le> j" "j \<le> Suc n" "P (cl + of_nat j)"
      by blast
    show "x \<in> ?R"
    proof (cases "j = 1")
      case True
      then show ?thesis using j by simp
    next
      case False
      then obtain i where i: "j = Suc i" "1 \<le> i" "i \<le> n" using j by (cases j) auto
      have "x = F (cl + 1 + of_nat i)" "P (cl + 1 + of_nat i)"
        using j(1,4) unfolding i(1) a by simp_all
      then show ?thesis using i(2,3) by blast
    qed
  next
    assume "x \<in> ?R"
    then consider "P (cl + 1)" "x = F (cl + 1)"
      | j where "x = F (cl + 1 + of_nat j)" "1 \<le> j" "j \<le> n" "P (cl + 1 + of_nat j)"
      by (auto split: if_splits)
    then show "x \<in> ?L"
    proof cases
      case 1
      then have "x = F (cl + of_nat 1)" "1 \<le> (1::nat)" "1 \<le> Suc n" "P (cl + of_nat 1)"
        by simp_all
      then show ?thesis by blast
    next
      case 2
      then have "x = F (cl + of_nat (Suc j))" "1 \<le> Suc j" "Suc j \<le> Suc n"
        "P (cl + of_nat (Suc j))"
        unfolding a by simp_all
      then show ?thesis by blast
    qed
  qed
qed

lemma asked_Suc:
  "asked sz cl (Suc n) =
     (if CHAIN_LEN_RESIZE_THRESHOLD \<le> cl + 1
      then {push_bit (nat (get_count_order_u32 (cl + 1 - (CHAIN_LEN_TARGET - 1)))) sz} else {})
     \<union> asked sz (cl + 1) n"
  unfolding asked_def
  by (rule range_Suc [where F = "\<lambda>c. push_bit (nat (get_count_order_u32 (c - (CHAIN_LEN_TARGET - 1)))) sz"
        and P = "\<lambda>c. CHAIN_LEN_RESIZE_THRESHOLD \<le> c"])

lemma check_chain_lazy:
  assumes "flags h AND CDS_LFHT_AUTO_RESIZE \<noteq> 0" "ht_count h < 2 ^ COUNT_COMMIT_ORDER"
  shows "\<exists>h'. check_chain h sz cl n = Some h' \<and> lazy_rel h h' sz (asked sz cl n)"
  using assms
proof (induction n arbitrary: h cl)
  case 0
  then show ?case by (simp add: asked_def lazy_rel_refl)
next
  case (Suc n)
  have small: "\<not> push_bit COUNT_COMMIT_ORDER 1 \<le> ht_count h"
    using Suc.prems(2) by (simp add: push_bit_eq_mult)
  let ?G = "if CHAIN_LEN_RESIZE_THRESHOLD \<le> cl + 1
      then {push_bit (nat (get_count_order_u32 (cl + 1 - (CHAIN_LEN_TARGET - 1)))) sz} else {}"
  have "\<exists>h1. check_resize h sz (cl + 1) = Some h1 \<and> lazy_rel h h1 sz ?G"
  proof (cases "CHAIN_LEN_RESIZE_THRESHOLD \<le> cl + 1")
    case True
    then show ?thesis
      using Suc.prems(1) small lazy_rel_call by (simp add: check_resize_def Let_def)
  next
    case False
    then show ?thesis
      using Suc.prems(1) small by (simp add: check_resize_def Let_def lazy_rel_refl)
  qed
  then obtain h1 where h1: "check_resize h sz (cl + 1) = Some h1" "lazy_rel h h1 sz ?G" by blast
  then have r: "resched h h1" by (simp add: lazy_rel_def)
  have "flags h1 AND CDS_LFHT_AUTO_RESIZE \<noteq> 0" "ht_count h1 < 2 ^ COUNT_COMMIT_ORDER"
    using Suc.prems by (simp_all add: resched_fields [OF r])
  from Suc.IH [OF this, of "cl + 1"] obtain h' where
    h': "check_chain h1 sz (cl + 1) n = Some h'" "lazy_rel h1 h' sz (asked sz (cl + 1) n)"
    by blast
  have "check_chain h sz cl (Suc n) = Some h'" using h1(1) h'(1) by simp
  moreover have "lazy_rel h h' sz (asked sz cl (Suc n))"
    unfolding asked_Suc using h1(2) h'(2) by (rule lazy_rel_trans)
  ultimately show ?case by blast
qed


subsection \<open>The growth that the chain length asks for\<close>

text \<open>\<open>is_ceil_log2 g n\<close>: \<open>g\<close> is the least order with \<open>n \<le> 2 ^ g\<close>.\<close>

definition is_ceil_log2 :: "nat \<Rightarrow> nat \<Rightarrow> bool" where
  "is_ceil_log2 g n = (n \<le> 2 ^ g \<and> (\<forall>k<g. 2 ^ k < n))"

lemma msb_index_ceil_log2:
  assumes "0 < n"
  shows "is_ceil_log2 (msb_index (n - 1)) n"
proof (cases "n - 1 = 0")
  case True
  with assms have "n = 1" by simp
  then show ?thesis by (simp add: is_ceil_log2_def)
next
  case False
  then have m: "0 < n - 1" by simp
  let ?r = "msb_index (n - 1)"
  from msb_index_range [OF m] have lo: "2 ^ (?r - 1) \<le> n - 1" and hi: "n - 1 < 2 ^ ?r"
    by simp_all
  have "2 ^ k < n" if "k < ?r" for k
  proof -
    from that have "k \<le> ?r - 1" by simp
    then have "(2::nat) ^ k \<le> 2 ^ (?r - 1)" by (simp only: power_increasing_iff one_less_numeral_iff semiring_norm)
    with lo m show ?thesis by linarith
  qed
  moreover have "n \<le> 2 ^ ?r" using hi by simp
  ultimately show ?thesis by (simp add: is_ceil_log2_def)
qed

lemma get_count_order_u32_ceil_log2:
  assumes "x \<noteq> 0"
  shows "\<exists>g. get_count_order_u32 x = int g \<and> is_ceil_log2 g (unat x)"
proof -
  have u: "0 < unat x" using assms by (simp add: unat_gt_0)
  then have "(1 :: 32 word) \<le> x" by (simp add: word_le_nat_alt)
  then have "unat (x - 1) = unat x - unat (1 :: 32 word)" by (rule unat_sub)
  then have "fls_u32 (x - 1) = msb_index (unat x - 1)" by (simp add: fls_u32_msb)
  then show ?thesis using assms msb_index_ceil_log2 [OF u] by (simp add: get_count_order_u32_def)
qed

lemma is_ceil_log2_unique:
  assumes "is_ceil_log2 g n" "is_ceil_log2 g' n"
  shows "g = g'"
proof -
  have "\<not> a < b" if "is_ceil_log2 a n" "is_ceil_log2 b n" for a b
  proof
    assume "a < b"
    with that(2) have "2 ^ a < n" unfolding is_ceil_log2_def by blast
    moreover from that(1) have "n \<le> 2 ^ a" by (simp add: is_ceil_log2_def)
    ultimately show False by simp
  qed
  from this [OF assms] this [OF assms(2,1)] show ?thesis by simp
qed

lemma is_ceil_log2_3: "is_ceil_log2 g 3 = (g = 2)"
proof
  have 2: "is_ceil_log2 2 3" by (auto simp add: is_ceil_log2_def less_2_cases_iff)
  {
    assume "is_ceil_log2 g 3"
    then show "g = 2" using 2 by (rule is_ceil_log2_unique)
  }
  {
    assume "g = 2"
    then show "is_ceil_log2 g 3" using 2 by simp
  }
qed

text \<open>
  \<open>grow_targets sz n\<close>: the sizes \<open>sz << g\<close> for the chain lengths \<open>c\<close> from
  \<^verbatim>\<open>CHAIN_LEN_RESIZE_THRESHOLD\<close> to \<open>n\<close>, where \<open>g\<close> is the least order with
  \<open>c - (CHAIN_LEN_TARGET - 1) \<le> 2 ^ g\<close>.
\<close>

definition grow_targets :: "ulong \<Rightarrow> nat \<Rightarrow> ulong set" where
  "grow_targets sz n =
     {push_bit g sz | g c. unat CHAIN_LEN_RESIZE_THRESHOLD \<le> c \<and> c \<le> n
        \<and> is_ceil_log2 g (c - (unat CHAIN_LEN_TARGET - 1))}"

lemma asked_0:
  assumes "n < 2 ^ 32"
  shows "asked sz 0 n = grow_targets sz n"
proof -
  have key: "\<exists>g. get_count_order_u32 (0 + of_nat j - (CHAIN_LEN_TARGET - 1)) = int g
       \<and> is_ceil_log2 g (j - (unat CHAIN_LEN_TARGET - 1))
       \<and> (CHAIN_LEN_RESIZE_THRESHOLD \<le> (0 + of_nat j :: 32 word))
           = (unat CHAIN_LEN_RESIZE_THRESHOLD \<le> j)" if "1 \<le> j" "j \<le> n" for j
  proof -
    from that assms have "j < 2 ^ 32" by simp
    then have u: "unat (of_nat j :: 32 word) = j" by (simp add: unat_of_nat)
    then have nz: "(of_nat j :: 32 word) \<noteq> 0" using that(1) by auto
    from get_count_order_u32_ceil_log2 [OF nz] obtain g where
      "get_count_order_u32 (of_nat j) = int g" "is_ceil_log2 g j"
      by (auto simp add: u)
    then show ?thesis
      using u by (simp add: CHAIN_LEN_TARGET_def word_le_nat_alt)
  qed
  show ?thesis
  proof (rule set_eqI, rule iffI)
    fix x
    assume "x \<in> asked sz 0 n"
    then obtain j where j: "1 \<le> j" "j \<le> n" "CHAIN_LEN_RESIZE_THRESHOLD \<le> (0 + of_nat j :: 32 word)"
      and x: "x = push_bit (nat (get_count_order_u32 (0 + of_nat j - (CHAIN_LEN_TARGET - 1)))) sz"
      unfolding asked_def by blast
    from key [OF j(1,2)] obtain g where
      g: "get_count_order_u32 (0 + of_nat j - (CHAIN_LEN_TARGET - 1)) = int g"
        "is_ceil_log2 g (j - (unat CHAIN_LEN_TARGET - 1))"
        "(CHAIN_LEN_RESIZE_THRESHOLD \<le> (0 + of_nat j :: 32 word))
           = (unat CHAIN_LEN_RESIZE_THRESHOLD \<le> j)"
      by blast
    have "x = push_bit g sz" unfolding x g(1) by simp
    moreover have "unat CHAIN_LEN_RESIZE_THRESHOLD \<le> j" using j(3) g(3) by simp
    ultimately show "x \<in> grow_targets sz n" unfolding grow_targets_def using j(2) g(2) by blast
  next
    fix x
    assume "x \<in> grow_targets sz n"
    then obtain g c where c: "unat CHAIN_LEN_RESIZE_THRESHOLD \<le> c" "c \<le> n"
      "is_ceil_log2 g (c - (unat CHAIN_LEN_TARGET - 1))" and x: "x = push_bit g sz"
      unfolding grow_targets_def by blast
    from c(1) have c1: "1 \<le> c" by (simp add: CHAIN_LEN_RESIZE_THRESHOLD_def)
    from key [OF c1 c(2)] obtain g' where
      g: "get_count_order_u32 (0 + of_nat c - (CHAIN_LEN_TARGET - 1)) = int g'"
        "is_ceil_log2 g' (c - (unat CHAIN_LEN_TARGET - 1))"
        "(CHAIN_LEN_RESIZE_THRESHOLD \<le> (0 + of_nat c :: 32 word))
           = (unat CHAIN_LEN_RESIZE_THRESHOLD \<le> c)"
      by blast
    have "g' = g" using g(2) c(3) by (rule is_ceil_log2_unique)
    then have "x = push_bit (nat (get_count_order_u32 (0 + of_nat c - (CHAIN_LEN_TARGET - 1)))) sz"
      unfolding x g(1) by simp
    moreover have "CHAIN_LEN_RESIZE_THRESHOLD \<le> (0 + of_nat c :: 32 word)"
      using c(1) g(3) by simp
    ultimately show "x \<in> asked sz 0 n" unfolding asked_def using c1 c(2) by blast
  qed
qed

text \<open>
  \<open>scheduled ht ht' n\<close>: what an add that has counted the chain length \<open>n\<close> does to the
  resize fields of the table. Below the threshold they are as before. From the threshold
  on, the resize target is the greatest of the old target and the sizes asked for, and the
  resize is handed to \<^verbatim>\<open>call_rcu\<close> once if no resize is initiated already, the table is
  not being destroyed and the target is above the size; otherwise nothing is handed over.
\<close>

definition scheduled :: "cds_lfht \<Rightarrow> cds_lfht \<Rightarrow> nat \<Rightarrow> bool" where
  "scheduled ht ht' n =
     (if n < unat CHAIN_LEN_RESIZE_THRESHOLD then resize_eq ht ht'
      else t_resize_target ht' \<in> insert (t_resize_target ht) (grow_targets (t_size ht) n)
         \<and> (\<forall>x\<in>insert (t_resize_target ht) (grow_targets (t_size ht) n).
               x \<le> t_resize_target ht')
         \<and> (if \<not> t_resize_initiated ht \<and> in_progress_destroy ht = 0
                \<and> t_size ht < t_resize_target ht'
            then call_rcu_queue ht' = call_rcu_queue ht + 1
               \<and> in_progress_resize ht' = in_progress_resize ht + 1 \<and> t_resize_initiated ht'
            else call_rcu_queue ht' = call_rcu_queue ht
               \<and> in_progress_resize ht' = in_progress_resize ht
               \<and> t_resize_initiated ht' = t_resize_initiated ht))"

lemma grow_targets_empty:
  "(grow_targets sz n = {}) = (n < unat CHAIN_LEN_RESIZE_THRESHOLD)"
proof
  assume e: "grow_targets sz n = {}"
  show "n < unat CHAIN_LEN_RESIZE_THRESHOLD"
  proof (rule ccontr)
    assume "\<not> n < unat CHAIN_LEN_RESIZE_THRESHOLD"
    then have "unat CHAIN_LEN_RESIZE_THRESHOLD \<le> 3" "3 \<le> n"
      "is_ceil_log2 2 (3 - (unat CHAIN_LEN_TARGET - 1))"
      by (simp_all add: CHAIN_LEN_RESIZE_THRESHOLD_def CHAIN_LEN_TARGET_def is_ceil_log2_3)
    then have "push_bit 2 sz \<in> grow_targets sz n" unfolding grow_targets_def by blast
    with e show False by simp
  qed
next
  assume "n < unat CHAIN_LEN_RESIZE_THRESHOLD"
  then show "grow_targets sz n = {}" by (auto simp add: grow_targets_def)
qed

lemma lazy_rel_scheduled:
  assumes "lazy_rel h1 h (t_size ht) (grow_targets (t_size ht) n)"
    and "resize_eq ht h1" "in_progress_destroy h1 = in_progress_destroy ht" "resize_eq h ht'"
  shows "scheduled ht ht' n"
proof (cases "n < unat CHAIN_LEN_RESIZE_THRESHOLD")
  case True
  then have "grow_targets (t_size ht) n = {}" by (simp add: grow_targets_empty)
  with assms have "resize_eq ht ht'" by (simp add: lazy_rel_def resize_eq_def)
  with True show ?thesis by (simp add: scheduled_def)
next
  case False
  then have "grow_targets (t_size ht) n \<noteq> {}" by (simp add: grow_targets_empty)
  with assms False show ?thesis
    unfolding lazy_rel_def scheduled_def resize_eq_def by (simp cong: if_cong)
qed

subsection \<open>The nodes that the walk goes past\<close>

text \<open>
  \<^verbatim>\<open>_cds_lfht_add\<close> walks from the bucket until it meets a node with a reverse hash above
  that of \<open>node\<close>: \<open>walked ht node ys\<close> are the nodes of \<open>ys\<close> that it goes past and
  \<open>not_walked ht node ys\<close> the others.
\<close>

definition walked :: "cds_lfht \<Rightarrow> addr \<Rightarrow> addr list \<Rightarrow> addr list" where
  "walked ht node ys = takeWhile (\<lambda>a. \<not> rhash ht node < rhash ht a) ys"

definition not_walked :: "cds_lfht \<Rightarrow> addr \<Rightarrow> addr list \<Rightarrow> addr list" where
  "not_walked ht node ys = dropWhile (\<lambda>a. \<not> rhash ht node < rhash ht a) ys"

lemma walked_split:
  assumes "\<forall>a\<in>set ys1. passes ht node False a" "ys2 = [] \<or> \<not> passes ht node False (hd ys2)"
  shows "walked ht node (ys1 @ ys2) = ys1" "not_walked ht node (ys1 @ ys2) = ys2"
proof -
  let ?P = "\<lambda>a. \<not> rhash ht node < rhash ht a"
  have 1: "\<And>x. x \<in> set ys1 \<Longrightarrow> ?P x" using assms(1) by (simp add: passes_def)
  have 2: "takeWhile ?P ys2 = [] \<and> dropWhile ?P ys2 = ys2"
    using assms(2) by (cases ys2) (simp_all add: passes_def)
  show "walked ht node (ys1 @ ys2) = ys1" "not_walked ht node (ys1 @ ys2) = ys2"
    unfolding walked_def not_walked_def using 1 2 by simp_all
qed



text \<open>An add that stops at the first node behind the bucket calls no \<^verbatim>\<open>check_resize\<close>.\<close>

lemma cds_lfht_add_front:
  assumes sz: "t_size ht \<noteq> 0"
    and lk: "lookup_bucket (t_size ht) (hash_fct ht (node_key (mem ht node)) (hash_seed ht))
        = Some b"
    and b: "b \<noteq> node" "rhash ht b \<le> rhash (hashed ht node) node"
    and it: "\<not> REMOVED_FLAG (next_of ht b)"
    and c: "unflagged (next_of ht b) = None
        \<or> (\<exists>c. unflagged (next_of ht b) = Some c \<and> c \<noteq> node
              \<and> rhash (hashed ht node) node < rhash ht c)"
  shows "cds_lfht_add ht node
     = Some (set_next (set_next (hashed ht node) node (clear_flag (next_of ht b))) b
         (if is_dummy (next_of ht b) then flag_dummy (plain (Some node)) else plain (Some node)))"
proof -
  let ?ht1 = "hashed ht node"
  have sc: "cds_lfht_add_scan ?ht1 (t_size ht) node ADD_DEFAULT False 0 b (next_of ht b)
      = Some (?ht1, Add_insert b (next_of ht b))"
    using c by (subst cds_lfht_add_scan.simps) auto
  have tg: "Some node \<noteq> unflagged (next_of ht b)" using c by auto
  have "cds_lfht_add_retry ?ht1 (t_size ht) node ADD_DEFAULT False b
     = Some (set_next (set_next ?ht1 node (clear_flag (next_of ht b))) b
         (if is_dummy (next_of ht b) then flag_dummy (plain (Some node)) else plain (Some node)),
         Some node)"
    using b it tg
    by (subst cds_lfht_add_retry.simps) (simp add: sc Let_def uatomic_cmpxchg_def)
  then show ?thesis
    using sz lk by (simp add: cds_lfht_add_eq cds_lfht_add'_def)
qed

section \<open>The chain length and the lazy resize\<close>

text \<open>
  A table of one bucket whose hash function is the bit-reversed length of the key, so that
  the reverse hash of a node is the length of its key. \<open>table_3\<close> is that table after the
  adds of nodes with keys of the lengths 4, 3 and 2, in this order: each add stops at the
  first node behind the bucket.
\<close>

definition length_hash :: "key \<Rightarrow> ulong \<Rightarrow> ulong" where
  "length_hash k seed = bit_reverse_ulong (of_nat (length k))"

definition table_3 :: cds_lfht where
  "table_3 =
     \<lparr>mem = (\<lambda>a. zero_node)
        (Bucket 0 0 := zero_node\<lparr>p_next := flag_dummy (plain (Some (User 2)))\<rparr>,
         User 2 := \<lparr>p_next = plain (Some (User 3)), p_reverse_hash = 2, node_key = [0, 0]\<rparr>,
         User 3 := \<lparr>p_next = plain (Some (User 4)), p_reverse_hash = 3, node_key = [0, 0, 0]\<rparr>,
         User 4 := \<lparr>p_next = plain None, p_reverse_hash = 4, node_key = [0, 0, 0, 0]\<rparr>),
      t_size = 1, t_resize_target = 1, t_resize_initiated = False,
      hash_fct = length_hash, compare_fct = key_compare, hash_seed = 0,
      flags = CDS_LFHT_AUTO_RESIZE, in_progress_resize = 0, in_progress_destroy = 0,
      ht_count = 0, call_rcu_queue = 0, heap_free = 3376\<rparr>"

lemma cds_lfht_new_1_length:
  "cds_lfht_new' length_hash key_compare 0 1 CDS_LFHT_AUTO_RESIZE (\<lambda>a. zero_node) 4096
     = Some (Some (table_1\<lparr>hash_fct := length_hash\<rparr>))"
proof -
  have l1: "init_table_loop ht (Suc 0) (Suc 0) = Some ht" for ht
    by (subst init_table_loop.simps) simp
  have p1: "init_table_populate_partition_loop ht 0 1 1 = Some ht" for ht
    by (subst init_table_populate_partition_loop.simps) simp
  show ?thesis
    unfolding cds_lfht_new'_def init_table_def
    apply (simp add: MIN_TABLE_SIZE_def get_count_order_ulong_def Let_def calloc_def
        sizeof_cds_lfht_def)
    apply (subst init_table_loop.simps)
    apply (simp add: order_size_def MAX_TABLE_ORDER_def init_table_populate_eq calloc_level_0
        zero_level_def)
    apply (subst init_table_populate_partition_loop.simps)
    apply (simp add: half_size_def cds_lfht_add'_def p1 l1 order_size_def)
    apply (simp add: l1 table_1_def set_next_def set_reverse_hash_def zero_node_def fun_eq_iff
        split: addr.splits)
    done
qed

lemma lookup_bucket_1: "lookup_bucket 1 hash = Some (Bucket 0 0)"
  by (simp add: lookup_bucket_eq)

lemmas table_eval =
  table_1_def table_3_def cds_lfht_node_init_def hashed_def set_reverse_hash_def set_next_def
  next_of_def rhash_def length_hash_def lookup_bucket_1 zero_node_def plain_def flag_dummy_def
  clear_flag_def is_dummy_def get_end_def

lemma table_3_built:
  "\<exists>t1 t2.
     cds_lfht_add (cds_lfht_node_init (table_1\<lparr>hash_fct := length_hash\<rparr>) (User 4) [0, 0, 0, 0])
         (User 4) = Some t1
   \<and> cds_lfht_add (cds_lfht_node_init t1 (User 3) [0, 0, 0]) (User 3) = Some t2
   \<and> cds_lfht_add (cds_lfht_node_init t2 (User 2) [0, 0]) (User 2) = Some table_3"
proof -
  let ?b = "Bucket 0 0"
  let ?t0 = "cds_lfht_node_init (table_1\<lparr>hash_fct := length_hash\<rparr>) (User 4) [0, 0, 0, 0]"
  define t1 where "t1 = set_next (set_next (hashed ?t0 (User 4)) (User 4)
      (clear_flag (next_of ?t0 ?b))) ?b (flag_dummy (plain (Some (User 4))))"
  let ?t1 = "cds_lfht_node_init t1 (User 3) [0, 0, 0]"
  define t2 where "t2 = set_next (set_next (hashed ?t1 (User 3)) (User 3)
      (clear_flag (next_of ?t1 ?b))) ?b (flag_dummy (plain (Some (User 3))))"
  let ?t2 = "cds_lfht_node_init t2 (User 2) [0, 0]"
  have 1: "cds_lfht_add ?t0 (User 4) = Some t1"
    unfolding t1_def
    by (subst cds_lfht_add_front [where b = ?b]) (simp_all add: table_eval)
  have 2: "cds_lfht_add ?t1 (User 3) = Some t2"
    unfolding t2_def
    by (subst cds_lfht_add_front [where b = ?b]) (simp_all add: table_eval t1_def)
  have "cds_lfht_add ?t2 (User 2)
      = Some (set_next (set_next (hashed ?t2 (User 2)) (User 2)
          (clear_flag (next_of ?t2 ?b))) ?b (flag_dummy (plain (Some (User 2)))))"
    by (subst cds_lfht_add_front [where b = ?b]) (simp_all add: table_eval t1_def t2_def)
  also have "\<dots> = Some table_3"
    by (simp add: table_eval t1_def t2_def fun_eq_iff split: addr.splits)
  finally show ?thesis using 1 2 by blast
qed

lemma table_3_inv:
  "table_inv (cds_lfht_node_init table_3 (User 5) k) [Bucket 0 0, User 2, User 3, User 4]"
proof -
  let ?ht = "cds_lfht_node_init table_3 (User 5) k"
  have "list_inv (mem ?ht) {0} [Bucket 0 0, User 2, User 3, User 4]"
    by (simp add: table_eval list_inv_def node_ok_def before_def bucket_index_def half_size_def)
  moreover have "t_size ?ht = 2 ^ 0" by (simp add: table_eval)
  ultimately show ?thesis
    unfolding table_inv_def by (auto simp add: below_1 table_eval intro: exI [of _ 0])
qed

lemma grow_targets_3: "grow_targets sz 3 = {push_bit 2 sz}"
proof (rule set_eqI, rule iffI)
  fix x
  assume "x \<in> grow_targets sz 3"
  then obtain g c where "3 \<le> c" "c \<le> 3" "is_ceil_log2 g c" "x = push_bit g sz"
    by (auto simp add: grow_targets_def CHAIN_LEN_RESIZE_THRESHOLD_def CHAIN_LEN_TARGET_def)
  moreover from this have "c = 3" by simp
  ultimately show "x \<in> {push_bit 2 sz}" by (simp add: is_ceil_log2_3)
next
  fix x
  assume "x \<in> {push_bit 2 sz}"
  then have "x = push_bit 2 sz" "unat CHAIN_LEN_RESIZE_THRESHOLD \<le> 3" "(3::nat) \<le> 3"
    "is_ceil_log2 2 (3 - (unat CHAIN_LEN_TARGET - 1))"
    by (simp_all add: CHAIN_LEN_RESIZE_THRESHOLD_def CHAIN_LEN_TARGET_def is_ceil_log2_3)
  then show "x \<in> grow_targets sz 3" unfolding grow_targets_def by blast
qed

text \<open>
  Claim C8, as the spec states it, says that an add schedules a lazy grow whenever the
  chain between two anchors reaches \<^verbatim>\<open>CHAIN_LEN_RESIZE_THRESHOLD\<close> distinct reverse
  hashes. \<^verbatim>\<open>_cds_lfht_add\<close> counts only the nodes that it walks past before it inserts
  its node, not the nodes of the chain behind that place. In the table of one bucket with
  auto-resize and a count of 0, the adds of four nodes with the reverse hashes 4, 3, 2 and 1,
  in this order, leave a chain of four distinct reverse hashes behind the only bucket, and
  no resize is scheduled: the resize target is the size, no resize is initiated, none is
  in progress and nothing is handed to \<^verbatim>\<open>call_rcu\<close>.
\<close>

theorem cds_lfht_add_chain_not_counted:
  "\<exists>t0 t1 t2 t3 t4.
     cds_lfht_new' length_hash key_compare 0 1 CDS_LFHT_AUTO_RESIZE (\<lambda>a. zero_node) 4096
       = Some (Some t0)
   \<and> cds_lfht_add (cds_lfht_node_init t0 (User 4) [0, 0, 0, 0]) (User 4) = Some t1
   \<and> cds_lfht_add (cds_lfht_node_init t1 (User 3) [0, 0, 0]) (User 3) = Some t2
   \<and> cds_lfht_add (cds_lfht_node_init t2 (User 2) [0, 0]) (User 2) = Some t3
   \<and> cds_lfht_add (cds_lfht_node_init t3 (User 1) [0]) (User 1) = Some t4
   \<and> seg (mem t4) (Some (Bucket 0 0)) [Bucket 0 0, User 1, User 2, User 3, User 4] None
   \<and> map (rhash t4) [Bucket 0 0, User 1, User 2, User 3, User 4] = [0, 1, 2, 3, 4]
   \<and> map (\<lambda>a. DUMMY_FLAG (next_of t4 a)) [Bucket 0 0, User 1, User 2, User 3, User 4]
       = [True, False, False, False, False]
   \<and> flags t4 AND CDS_LFHT_AUTO_RESIZE \<noteq> 0 \<and> ht_count t4 < 2 ^ COUNT_COMMIT_ORDER
   \<and> t_size t4 = 1 \<and> t_resize_target t4 = 1 \<and> \<not> t_resize_initiated t4
   \<and> in_progress_resize t4 = 0 \<and> call_rcu_queue t4 = 0"
proof -
  let ?b = "Bucket 0 0"
  let ?t3 = "cds_lfht_node_init table_3 (User 1) [0]"
  define t4 where "t4 = set_next (set_next (hashed ?t3 (User 1)) (User 1)
      (clear_flag (next_of ?t3 ?b))) ?b (flag_dummy (plain (Some (User 1))))"
  from table_3_built obtain t1 t2 where
    1: "cds_lfht_add
          (cds_lfht_node_init (table_1\<lparr>hash_fct := length_hash\<rparr>) (User 4) [0, 0, 0, 0])
          (User 4) = Some t1"
    and 2: "cds_lfht_add (cds_lfht_node_init t1 (User 3) [0, 0, 0]) (User 3) = Some t2"
    and 3: "cds_lfht_add (cds_lfht_node_init t2 (User 2) [0, 0]) (User 2) = Some table_3"
    by blast
  have 4: "cds_lfht_add ?t3 (User 1) = Some t4"
    unfolding t4_def
    by (subst cds_lfht_add_front [where b = ?b]) (simp_all add: table_eval)
  have 5: "seg (mem t4) (Some ?b) [?b, User 1, User 2, User 3, User 4] None"
    by (simp add: t4_def table_eval)
  have 6: "map (rhash t4) [?b, User 1, User 2, User 3, User 4] = [0, 1, 2, 3, 4]"
    by (simp add: t4_def table_eval)
  have 7: "map (\<lambda>a. DUMMY_FLAG (next_of t4 a)) [?b, User 1, User 2, User 3, User 4]
       = [True, False, False, False, False]"
    by (simp add: t4_def table_eval)
  have 8: "flags t4 AND CDS_LFHT_AUTO_RESIZE \<noteq> 0" "ht_count t4 < 2 ^ COUNT_COMMIT_ORDER"
    "t_size t4 = 1" "t_resize_target t4 = 1" "\<not> t_resize_initiated t4"
    "in_progress_resize t4 = 0" "call_rcu_queue t4 = 0"
    by (simp_all add: t4_def table_eval CDS_LFHT_AUTO_RESIZE_def COUNT_COMMIT_ORDER_def)
  show ?thesis
    by (intro exI [of _ "table_1\<lparr>hash_fct := length_hash\<rparr>"] exI [of _ t1] exI [of _ t2]
        exI [of _ table_3] exI [of _ t4] conjI; fact cds_lfht_new_1_length 1 2 3 4 5 6 7 8)
qed

text \<open>
  Claim C8, corrected. Let \<^verbatim>\<open>cds_lfht_add\<close> add a user node that is not linked to a table
  in order, with \<^verbatim>\<open>CDS_LFHT_AUTO_RESIZE\<close> set, a count below \<open>2 ^ COUNT_COMMIT_ORDER\<close> and
  fewer than \<open>2 ^ 32\<close> nodes. The add returns; it walks from the bucket \<open>b\<close> of the hash of
  the node past the nodes whose reverse hash is not above that of the node, and links the
  node behind them. The chain length \<open>n\<close> that it counts is the number of the nodes walked
  past that are no dummy nodes and differ in their reverse hash from the node before them.
  With \<open>n\<close> below \<^verbatim>\<open>CHAIN_LEN_RESIZE_THRESHOLD\<close> the resize target, the initiated flag, the
  count of resizes in progress and the queue of \<^verbatim>\<open>call_rcu\<close> are as before. Otherwise
  every chain length \<open>c\<close> from the threshold to \<open>n\<close> asks for the size shifted by the least
  order \<open>g\<close> with \<open>c - (CHAIN_LEN_TARGET - 1) \<le> 2 ^ g\<close>; the resize target becomes the
  greatest of the old target and the sizes asked for, and one resize is handed to
  \<^verbatim>\<open>call_rcu\<close>, with the count of resizes in progress one higher and the initiated flag
  set, if no resize was initiated, the table is not being destroyed and the new target is
  above the size; if one of the three fails, nothing is handed over and these fields are as
  before.
\<close>

theorem cds_lfht_add_chain_length:
  assumes inv: "table_inv ht xs" and node: "\<not> is_bucket node" "node \<notin> set xs"
    and au: "flags ht AND CDS_LFHT_AUTO_RESIZE \<noteq> 0"
    and cnt: "ht_count ht < 2 ^ COUNT_COMMIT_ORDER"
    and len: "length xs < 2 ^ 32"
  shows "\<exists>ht' b pre ys.
      lookup_bucket (t_size ht) (hash_fct ht (node_key (mem ht node)) (hash_seed ht)) = Some b
    \<and> xs = pre @ b # ys
    \<and> cds_lfht_add ht node = Some ht'
    \<and> table_inv ht'
        (pre @ b # walked (hashed ht node) node ys @ node # not_walked (hashed ht node) node ys)
    \<and> scheduled ht ht' (chain_count (hashed ht node) b (walked (hashed ht node) node ys))"
proof -
  let ?ht1 = "hashed ht node"
  let ?sz = "t_size ht"
  let ?hash = "bit_reverse_ulong (rhash ?ht1 node)"
  let ?b = "bucket_addr (?hash AND (?sz - 1))"
  have hash: "?hash = hash_fct ht (node_key (mem ht node)) (hash_seed ht)" by simp
  from table_inv_hashed [OF inv node(2)] obtain k where k: "k < 64" "t_size ht = 2 ^ k"
    and li: "list_inv (mem ?ht1) {d. d < ?sz} xs"
    by (auto simp add: table_inv_def)
  from bucket_in_list [OF li subset_refl k(2,1), of ?hash] obtain pre ys where
    lk: "lookup_bucket ?sz ?hash = Some ?b" and xs: "xs = pre @ ?b # ys"
    and rb: "p_reverse_hash (mem ?ht1 ?b) = bit_reverse_ulong (?hash AND (?sz - 1))"
    by blast
  have "rhash ?ht1 ?b = bit_reverse_ulong (?hash AND (?sz - 1))" using rb by (simp only: rhash_def)
  then have le: "rhash ?ht1 ?b \<le> rhash ?ht1 node"
    using bucket_reverse_hash_le [of "rhash ?ht1 node" "?sz - 1"] by (simp only:)
  have nm: "\<forall>a\<in>set ys. \<not> matches ?ht1 node ADD_DEFAULT a" by (simp add: matches_def)
  from cds_lfht_add_retry_insert [OF li xs node(2) le _ _ _ _ nm, of False "{d. d < ?sz}" ?sz]
  obtain ht' ys1 ys2 where
    run: "cds_lfht_add_retry ?ht1 ?sz node ADD_DEFAULT False ?b = Some (ht', Some node)"
    and y: "ys = ys1 @ ys2"
    and ps: "\<forall>a\<in>set ys1. passes ?ht1 node False a"
    and stop: "ys2 = [] \<or> \<not> passes ?ht1 node False (hd ys2)"
    and inv': "list_inv (mem ht') {d. d < ?sz} (pre @ ?b # ys1 @ node # ys2)"
    and st: "static_eq ?ht1 ht'"
    using node(1) by auto
  have w: "walked ?ht1 node ys = ys1" "not_walked ?ht1 node ys = ys2"
    unfolding y using ps stop by (rule walked_split)+
  have l: "seg (mem ?ht1) (Some (Bucket 0 0)) (pre @ ?b # ys) None"
    using li xs by (simp add: list_inv_def)
  have sg: "seg (mem ?ht1) (unflagged (next_of ?ht1 ?b)) ys None"
    unfolding next_of_def using l by (simp only: seg_split)
  have nr: "\<forall>a\<in>set ys. \<not> REMOVED_FLAG (next_of ?ht1 a)"
  proof
    fix a
    assume "a \<in> set ys"
    then have "a \<in> set xs" by (simp add: xs)
    with li have "node_ok (mem ?ht1) {d. d < ?sz} a" by (rule list_inv_node_ok)
    then show "\<not> REMOVED_FLAG (next_of ?ht1 a)" by (simp only: node_ok_def next_of_def) simp
  qed
  from cds_lfht_add_scan_chain [OF sg nr, of node False ?sz 0] obtain z1 z2 h where
    z: "ys = z1 @ z2" "\<forall>a\<in>set z1. passes ?ht1 node False a"
      "z2 = [] \<or> \<not> passes ?ht1 node False (hd z2)"
    and ck: "check_chain ?ht1 ?sz 0 (chain_count ?ht1 ?b z1) = Some h" and rs: "resched ?ht1 h"
    and sc: "cds_lfht_add_scan ?ht1 ?sz node ADD_DEFAULT False 0 ?b (next_of ?ht1 ?b)
              = Some (h, Add_insert (last (?b # z1)) (next_of ?ht1 (last (?b # z1))))"
    by blast
  have "walked ?ht1 node ys = z1" unfolding z(1) using z(2,3) by (rule walked_split)
  then have z1: "z1 = ys1" using w(1) by simp
  have "last (?b # ys1) \<in> set (?b # ys1)" by (rule last_in_set) simp
  then have "last (?b # ys1) \<in> set xs" unfolding xs y by auto
  then have ipn: "last (?b # ys1) \<noteq> node" using node(2) by auto
  have nx: "next_of h (last (?b # ys1)) = next_of ?ht1 (last (?b # ys1))"
    by (simp only: resched_fields(9) [OF rs])
  have re: "resize_eq h ht'"
    using run sc [unfolded z1] nx ipn by (rule cds_lfht_add_retry_after_scan)
  let ?n = "chain_count ?ht1 ?b ys1"
  have "flags ?ht1 AND CDS_LFHT_AUTO_RESIZE \<noteq> 0" "ht_count ?ht1 < 2 ^ COUNT_COMMIT_ORDER"
    using au cnt by simp_all
  from check_chain_lazy [OF this, of ?sz 0 ?n] ck have lz: "lazy_rel ?ht1 h ?sz (asked ?sz 0 ?n)"
    by (simp add: z1)
  have "?n \<le> length ys1" by (rule chain_count_le)
  also have "\<dots> \<le> length xs" by (simp add: xs y)
  finally have "?n < 2 ^ 32" using len by simp
  then have "asked ?sz 0 ?n = grow_targets ?sz ?n" by (rule asked_0)
  with lz have "lazy_rel ?ht1 h ?sz (grow_targets ?sz ?n)" by simp
  then have 5: "scheduled ht ht' ?n"
    by (rule lazy_rel_scheduled) (simp_all add: re)
  have zz: "?sz \<noteq> 0" using k pow2_pos [of k] by auto
  have "cds_lfht_add' ?ht1 ?sz node ADD_DEFAULT False = Some (ht', Some node)"
    using zz lk run by (simp add: cds_lfht_add'_def)
  then have 3: "cds_lfht_add ht node = Some ht'" by (simp add: cds_lfht_add_eq)
  have "t_size ht' = t_size ht" using st by (simp add: static_eq_def)
  with inv' k have 4: "table_inv ht' (pre @ ?b # ys1 @ node # ys2)"
    by (auto simp add: table_inv_def)
  have 1: "lookup_bucket ?sz (hash_fct ht (node_key (mem ht node)) (hash_seed ht)) = Some ?b"
    using lk by (simp only: hash)
  show ?thesis
    using 1 xs 3 4 5 unfolding w
    by (intro exI [of _ ht'] exI [of _ ?b] exI [of _ pre] exI [of _ ys]) (simp add: w)
qed

theorem cds_lfht_add_chain_length_witness:
  "\<exists>ht'. cds_lfht_add (cds_lfht_node_init table_3 (User 5) [0, 0, 0, 0, 0]) (User 5) = Some ht'
     \<and> table_inv ht' [Bucket 0 0, User 2, User 3, User 4, User 5]
     \<and> t_resize_target ht' = 4 \<and> t_resize_initiated ht' \<and> in_progress_resize ht' = 1
     \<and> call_rcu_queue ht' = 1"
proof -
  let ?ht = "cds_lfht_node_init table_3 (User 5) [0, 0, 0, 0, 0]"
  let ?xs = "[Bucket 0 0, User 2, User 3, User 4]"
  have a: "flags ?ht AND CDS_LFHT_AUTO_RESIZE \<noteq> 0" "ht_count ?ht < 2 ^ COUNT_COMMIT_ORDER"
    by (simp_all add: table_eval CDS_LFHT_AUTO_RESIZE_def COUNT_COMMIT_ORDER_def)
  have n: "\<not> is_bucket (User 5)" "User 5 \<notin> set ?xs" "length ?xs < 2 ^ 32" by simp_all
  from cds_lfht_add_chain_length [OF table_3_inv n(1,2) a n(3)] obtain ht' b pre ys where
    lk: "lookup_bucket (t_size ?ht) (hash_fct ?ht (node_key (mem ?ht (User 5))) (hash_seed ?ht))
        = Some b"
    and xs: "?xs = pre @ b # ys"
    and run: "cds_lfht_add ?ht (User 5) = Some ht'"
    and inv: "table_inv ht' (pre @ b # walked (hashed ?ht (User 5)) (User 5) ys
        @ User 5 # not_walked (hashed ?ht (User 5)) (User 5) ys)"
    and sch: "scheduled ?ht ht'
        (chain_count (hashed ?ht (User 5)) b (walked (hashed ?ht (User 5)) (User 5) ys))"
    by blast
  have b: "b = Bucket 0 0" using lk by (simp add: table_eval)
  have py: "pre = [] \<and> ys = [User 2, User 3, User 4]"
    using xs unfolding b by (auto simp add: Cons_eq_append_conv)
  have w: "walked (hashed ?ht (User 5)) (User 5) ys = [User 2, User 3, User 4]"
    "not_walked (hashed ?ht (User 5)) (User 5) ys = []"
    by (simp_all add: py walked_def not_walked_def table_eval)
  have c: "chain_count (hashed ?ht (User 5)) b [User 2, User 3, User 4] = 3"
    by (simp add: b table_eval)
  have s: "scheduled ?ht ht' 3" using sch by (simp only: w c)
  have f: "t_size ?ht = 1" "t_resize_target ?ht = 1" "\<not> t_resize_initiated ?ht"
    "in_progress_destroy ?ht = 0" "in_progress_resize ?ht = 0" "call_rcu_queue ?ht = 0"
    by (simp_all add: table_eval)
  have t: "t_resize_target ht' = 4"
    using s
    by (auto simp add: scheduled_def grow_targets_3 f CHAIN_LEN_RESIZE_THRESHOLD_def
        word_le_nat_alt)
  have "t_resize_initiated ht' \<and> in_progress_resize ht' = 1 \<and> call_rcu_queue ht' = 1"
    using s
    by (simp add: scheduled_def grow_targets_3 f t CHAIN_LEN_RESIZE_THRESHOLD_def
        word_less_nat_alt)
  moreover have "table_inv ht' [Bucket 0 0, User 2, User 3, User 4, User 5]"
    using inv unfolding w by (simp add: py b)
  ultimately show ?thesis using run t by blast
qed

section \<open>The tables that the operations reach\<close>

lemma cds_lfht_new_handle:
  assumes "cds_lfht_new' hf cf seed init_size flgs m avail = Some (Some ht)"
  shows "\<exists>xs. table_inv ht xs \<and> users xs = {} \<and> t_size ht = max init_size MIN_TABLE_SIZE
          \<and> hash_fct ht = hf \<and> compare_fct ht = cf \<and> hash_seed ht = seed \<and> flags ht = flgs
          \<and> in_progress_destroy ht = 0 \<and> in_progress_resize ht = 0
          \<and> \<not> t_resize_initiated ht \<and> call_rcu_queue ht = 0
          \<and> t_resize_target ht = t_size ht \<and> ht_count ht = 0"
proof -
  have v: "init_size = 0 \<or> (\<exists>k<64. init_size = 2 ^ k)"
  proof (rule ccontr)
    assume "\<not> ?thesis"
    then have "cds_lfht_new' hf cf seed init_size flgs m avail = Some None"
      by (simp add: cds_lfht_new_NULL)
    with assms show False by simp
  qed
  have f: "new_fits avail init_size"
  proof (rule ccontr)
    assume "\<not> ?thesis"
    with v have "cds_lfht_new' hf cf seed init_size flgs m avail = None"
      by (rule cds_lfht_new_none)
    with assms show False by simp
  qed
  from cds_lfht_new_ok [OF v f, of hf cf seed flgs m] assms show ?thesis by auto
qed

lemma cds_lfht_resize_idle:
  "in_progress_resize ht = 0 \<Longrightarrow> cds_lfht_resize ht new_size = None"
  unfolding cds_lfht_resize_def Let_def
  by (subst do_cds_lfht_resize.simps) (simp add: resize_target_update_count_def assert_def)

text \<open>
  \<open>valid_iter ht it\<close>: the iterator \<open>it\<close> has no node, or its node is a node of the caller
  that is in the list or has been removed from it.
\<close>

definition valid_iter :: "cds_lfht \<Rightarrow> cds_lfht_iter \<Rightarrow> bool" where
  "valid_iter ht it =
     (case iter_node it of
        None \<Rightarrow> True
      | Some n \<Rightarrow> \<not> is_bucket n \<and> (linked ht n \<or> REMOVED_FLAG (next_of ht n)))"

text \<open>
  \<open>reachable ht\<close>: the table \<open>ht\<close> is what a single thread gets from \<^verbatim>\<open>_cds_lfht_new\<close> by
  calls of the public operations that return. The caller sets the key of a node of its own
  that is not in the list, adds such a node, and deletes with a valid iterator;
  \<open>run_call_rcu\<close> is the worker thread running a lazy resize, and the bucket garbage
  collection is called as \<^verbatim>\<open>_cds_lfht_del\<close> and \<^verbatim>\<open>_cds_lfht_replace\<close> call it, with the
  bucket of the node.
\<close>

inductive reachable :: "cds_lfht \<Rightarrow> bool" where
  new: "cds_lfht_new' hf cf seed init_size flgs m avail = Some (Some ht) \<Longrightarrow> reachable ht"
| node_init: "reachable ht \<Longrightarrow> \<not> is_bucket node \<Longrightarrow> \<not> linked ht node
    \<Longrightarrow> reachable (cds_lfht_node_init ht node k)"
| add: "reachable ht \<Longrightarrow> \<not> is_bucket node \<Longrightarrow> \<not> linked ht node
    \<Longrightarrow> cds_lfht_add ht node = Some ht' \<Longrightarrow> reachable ht'"
| add_unique: "reachable ht \<Longrightarrow> \<not> is_bucket node \<Longrightarrow> \<not> linked ht node
    \<Longrightarrow> cds_lfht_add_unique ht node = Some (ht', r) \<Longrightarrow> reachable ht'"
| add_replace: "reachable ht \<Longrightarrow> \<not> is_bucket node \<Longrightarrow> \<not> linked ht node
    \<Longrightarrow> cds_lfht_add_replace ht node = Some (ht', r) \<Longrightarrow> reachable ht'"
| del: "reachable ht \<Longrightarrow> valid_iter ht it \<Longrightarrow> cds_lfht_del ht it = Some (ht', ret)
    \<Longrightarrow> reachable ht'"
| resize: "reachable ht \<Longrightarrow> cds_lfht_resize ht new_size = Some ht' \<Longrightarrow> reachable ht'"
| call_rcu: "reachable ht \<Longrightarrow> run_call_rcu ht = Some ht' \<Longrightarrow> reachable ht'"
| gc_bucket: "reachable ht
    \<Longrightarrow> lookup_bucket (t_size ht) (bit_reverse_ulong (rhash ht node)) = Some dummy
    \<Longrightarrow> cds_lfht_gc_bucket' ht dummy node = Some ht' \<Longrightarrow> reachable ht'"

lemma cds_lfht_add_mode_inv:
  assumes inv: "table_inv ht xs" and node: "\<not> is_bucket node" "node \<notin> set xs"
    and run: "cds_lfht_add' (hashed ht node) (t_size ht) node mode False = Some (ht', r)"
  shows "\<exists>xs'. table_inv ht' xs'"
proof (cases "\<exists>a\<in>set xs. matches (hashed ht node) node mode a")
  case True
  from cds_lfht_add_found [OF inv node True] obtain ht'' A c B where
    r: "cds_lfht_add' (hashed ht node) (t_size ht) node mode False = Some (ht'', Some c)"
    and i: "if mode = ADD_UNIQUE then resched (hashed ht node) ht''
            else table_inv ht'' (A @ node # B)
                  \<and> frame (hashed ht node) ht'' (insert node (set xs))
                  \<and> next_of ht'' c = flag_removed (plain (Some node))
                  \<and> next_of ht'' node = clear_flag (next_of ht c)"
    by (elim exE conjE) (rule that)
  from r run have e: "ht'' = ht'" by simp
  show ?thesis
  proof (cases "mode = ADD_UNIQUE")
    case True
    with i have "resched (hashed ht node) ht'" by (simp add: e)
    with table_inv_hashed [OF inv node(2)] have "table_inv ht' xs" by (rule table_inv_resched)
    then show ?thesis ..
  next
    case False
    with i have "table_inv ht' (A @ node # B)" by (simp add: e)
    then show ?thesis ..
  qed
next
  case False
  then have "\<forall>a\<in>set xs. \<not> matches (hashed ht node) node mode a" by simp
  from cds_lfht_add_insert [OF inv node this] run show ?thesis by auto
qed

lemma cds_lfht_del_inv:
  assumes inv: "table_inv ht xs" and it: "valid_iter ht it"
    and run: "cds_lfht_del ht it = Some (ht', ret)"
  shows "\<exists>xs'. table_inv ht' xs'"
proof (cases "iter_node it")
  case None
  with run have "ht' = ht" by (auto simp add: cds_lfht_del_def cds_lfht_del'_def ENOENT_def)
  with inv show ?thesis by auto
next
  case (Some n)
  then have e: "it = \<lparr>iter_node = Some n, iter_next = iter_next it\<rparr>" by simp
  from it Some have n: "\<not> is_bucket n" "linked ht n \<or> REMOVED_FLAG (next_of ht n)"
    by (simp_all add: valid_iter_def)
  show ?thesis
  proof (cases "n \<in> set xs")
    case True
    from cds_lfht_del_linked [OF inv True n(1), of "iter_next it"] run e show ?thesis by auto
  next
    case False
    with n(2) have "REMOVED_FLAG (next_of ht n)" by (simp add: table_inv_linked [OF inv])
    from cds_lfht_del_stale [OF this, of "iter_next it"] run e have "ht' = ht" by auto
    with inv show ?thesis by auto
  qed
qed

lemma cds_lfht_gc_bucket_inv:
  assumes inv: "table_inv ht xs"
    and lk: "lookup_bucket (t_size ht) (bit_reverse_ulong (rhash ht node)) = Some d"
    and run: "cds_lfht_gc_bucket' ht d node = Some ht'"
  shows "ht' = ht"
proof -
  let ?hash = "bit_reverse_ulong (rhash ht node)"
  from inv obtain k where k: "k < 64" "t_size ht = 2 ^ k"
    and li: "list_inv (mem ht) {d. d < t_size ht} xs"
    by (auto simp add: table_inv_def)
  from bucket_in_list [OF li subset_refl k(2,1), of ?hash] lk obtain pre ys where
    xs: "xs = pre @ d # ys"
    by auto
  from li have "seg (mem ht) (Some (Bucket 0 0)) (pre @ d # ys) None"
    by (simp add: list_inv_def xs)
  then have sg: "seg (mem ht) (Some d) (d # ys) None" by (auto simp add: seg_append)
  have nr: "\<forall>a\<in>set ys. \<not> REMOVED_FLAG (next_of ht a)"
  proof
    fix a
    assume "a \<in> set ys"
    then have "a \<in> set xs" by (simp add: xs)
    with li have "node_ok (mem ht) {d. d < t_size ht} a" by (rule list_inv_node_ok)
    then show "\<not> REMOVED_FLAG (next_of ht a)" by (simp add: node_ok_def next_of_def)
  qed
  from run have a: "rhash ht d \<le> rhash ht node" "d \<noteq> node"
    by (subst (asm) cds_lfht_gc_bucket'.simps,
        auto simp add: assert_def bind_eq_Some_conv Let_def split: if_splits)+
  from cds_lfht_gc_bucket_clean [OF sg nr a] run show ?thesis by simp
qed

lemma reachable_table_inv: "reachable ht \<Longrightarrow> \<exists>xs. table_inv ht xs"
proof (induction rule: reachable.induct)
  case (new hf cf seed init_size flgs m avail ht)
  from cds_lfht_new_handle [OF this] show ?case by blast
next
  case (node_init ht node k)
  then obtain xs where inv: "table_inv ht xs" by blast
  from node_init.hyps(3) have "node \<notin> set xs" by (simp add: table_inv_linked [OF inv])
  then have "table_inv (cds_lfht_node_init ht node k) xs"
    by (intro table_inv_cong [OF inv]) (auto simp add: cds_lfht_node_init_def)
  then show ?case ..
next
  case (add ht node ht')
  then obtain xs where inv: "table_inv ht xs" by blast
  from add.hyps(3) have n: "node \<notin> set xs" by (simp add: table_inv_linked [OF inv])
  from add.hyps(4) obtain r where
    "cds_lfht_add' (hashed ht node) (t_size ht) node ADD_DEFAULT False = Some (ht', r)"
    by (auto simp add: cds_lfht_add_eq bind_eq_Some_conv)
  with inv add.hyps(2) n show ?case by (rule cds_lfht_add_mode_inv)
next
  case (add_unique ht node ht' r)
  then obtain xs where inv: "table_inv ht xs" by blast
  from add_unique.hyps(3) have n: "node \<notin> set xs" by (simp add: table_inv_linked [OF inv])
  from add_unique.hyps(4)
  have "cds_lfht_add' (hashed ht node) (t_size ht) node ADD_UNIQUE False = Some (ht', r)"
    by (simp add: cds_lfht_add_unique_eq)
  with inv add_unique.hyps(2) n show ?case by (rule cds_lfht_add_mode_inv)
next
  case (add_replace ht node ht' r)
  then obtain xs where inv: "table_inv ht xs" by blast
  from add_replace.hyps(3) have n: "node \<notin> set xs" by (simp add: table_inv_linked [OF inv])
  from add_replace.hyps(4)
  have "cds_lfht_add' (hashed ht node) (t_size ht) node ADD_REPLACE False = Some (ht', r)"
    by (simp add: cds_lfht_add_replace_eq)
  with inv add_replace.hyps(2) n show ?case by (rule cds_lfht_add_mode_inv)
next
  case (del ht it ht' ret)
  then obtain xs where inv: "table_inv ht xs" by blast
  from inv del.hyps(2,3) show ?case by (rule cds_lfht_del_inv)
next
  case (resize ht new_size ht')
  then obtain xs where inv: "table_inv ht xs" by blast
  from cds_lfht_resize_inv [OF resize.hyps(2) inv] show ?case by blast
next
  case (call_rcu ht ht')
  then obtain xs where inv: "table_inv ht xs" by blast
  from run_call_rcu_inv [OF call_rcu.hyps(2) inv] show ?case by blast
next
  case (gc_bucket ht node dummy ht')
  then obtain xs where inv: "table_inv ht xs" by blast
  from cds_lfht_gc_bucket_inv [OF inv gc_bucket.hyps(2,3)] inv show ?case by auto
qed

section \<open>The order of the reverse hashes\<close>

text \<open>
  Claim C1: in every table that a single thread reaches from \<^verbatim>\<open>_cds_lfht_new\<close> by the
  operations add, add_unique, add_replace, del, resize (called by hand or run as a lazy
  resize) and bucket garbage collection, a node \<open>a\<close> that is reached from the head of the
  list and the node \<open>b\<close> that its \<^verbatim>\<open>next\<close> pointer names have
  \<open>a.reverse_hash \<le> b.reverse_hash\<close>.
\<close>

theorem reachable_reverse_hash_ordered:
  assumes "reachable ht" "linked ht a" "unflagged (next_of ht a) = Some b"
  shows "rhash ht a \<le> rhash ht b"
proof -
  from reachable_table_inv [OF assms(1)] obtain xs where inv: "table_inv ht xs" by blast
  then have li: "list_inv (mem ht) {d. d < t_size ht} xs" by (simp add: table_inv_def)
  from assms(2) have "a \<in> set xs" by (simp add: table_inv_linked [OF inv])
  with li have "before (mem ht) a b" using assms(3) by (rule adjacent_before)
  then show ?thesis by (simp add: before_def rhash_def)
qed

theorem reachable_reverse_hash_ordered_witness:
  "\<exists>ht. cds_lfht_add
          (cds_lfht_node_init (table_1\<lparr>hash_fct := length_hash\<rparr>) (User 4) [0, 0, 0, 0])
          (User 4) = Some ht
     \<and> reachable ht \<and> linked ht (Bucket 0 0)
     \<and> unflagged (next_of ht (Bucket 0 0)) = Some (User 4)
     \<and> rhash ht (Bucket 0 0) = 0 \<and> rhash ht (User 4) = 4
     \<and> rhash ht (Bucket 0 0) \<le> rhash ht (User 4)"
proof -
  let ?b = "Bucket 0 0"
  let ?tab = "table_1\<lparr>hash_fct := length_hash\<rparr>"
  let ?init = "cds_lfht_node_init ?tab (User 4) [0, 0, 0, 0]"
  define t1 where "t1 = set_next (set_next (hashed ?init (User 4)) (User 4)
      (clear_flag (next_of ?init ?b))) ?b (flag_dummy (plain (Some (User 4))))"
  have run: "cds_lfht_add ?init (User 4) = Some t1"
    unfolding t1_def
    by (subst cds_lfht_add_front [where b = ?b]) (simp_all add: table_eval)
  have i: "table_inv ?tab [?b]" using table_1_inv by (rule table_inv_fields) simp_all
  then have i0: "table_inv ?init [?b]"
    by (rule table_inv_cong) (simp_all add: cds_lfht_node_init_def)
  have "reachable ?tab" using cds_lfht_new_1_length by (rule reachable.new)
  then have "reachable ?init"
    by (rule reachable.node_init) (simp_all add: table_inv_linked [OF i])
  then have r: "reachable t1"
    by (rule reachable.add [where node = "User 4"]) (simp_all add: table_inv_linked [OF i0] run)
  have n: "unflagged (next_of t1 ?b) = Some (User 4)" by (simp add: t1_def table_eval)
  have h: "rhash t1 ?b = 0" "rhash t1 (User 4) = 4" by (simp_all add: t1_def table_eval)
  from reachable_reverse_hash_ordered [OF r linked.head n]
  have "rhash t1 ?b \<le> rhash t1 (User 4)" .
  with run r n h linked.head [of t1] show ?thesis by blast
qed

section \<open>Resizing by hand\<close>

text \<open>
  Claim C6 says that \<^verbatim>\<open>cds_lfht_resize\<close> blocks until the resize is complete and leaves
  the size \<open>new_size\<close>, rounded up to a power of two. \<^verbatim>\<open>_do_cds_lfht_resize\<close> asserts that
  \<^verbatim>\<open>in_progress_resize\<close> is not 0. Only \<^verbatim>\<open>cds_lfht_resize_lazy\<close> increments that
  counter; \<^verbatim>\<open>cds_lfht_resize\<close> does not. On a table as \<^verbatim>\<open>_cds_lfht_new\<close> returns it the
  counter is 0, so the assertion fails and \<^verbatim>\<open>cds_lfht_resize\<close> does not return, whatever
  \<open>new_size\<close> is.
\<close>

theorem cds_lfht_resize_after_new:
  assumes "cds_lfht_new' hf cf seed init_size flgs m avail = Some (Some ht)"
  shows "cds_lfht_resize ht new_size = None"
proof -
  from cds_lfht_new_handle [OF assms] have "in_progress_resize ht = 0" by blast
  then show ?thesis by (rule cds_lfht_resize_idle)
qed

theorem cds_lfht_resize_after_new_witness:
  "cds_lfht_new' zero_hash key_compare 0 1 CDS_LFHT_AUTO_RESIZE (\<lambda>a. zero_node) 4096
     = Some (Some table_1)
   \<and> cds_lfht_resize table_1 2 = None"
  using cds_lfht_resize_after_new [OF cds_lfht_new_1, of 2] cds_lfht_new_1 by simp

section \<open>A table of one bucket with two nodes\<close>

lemma check_resize_below:
  "chain_len < CHAIN_LEN_RESIZE_THRESHOLD \<Longrightarrow> check_resize ht sz chain_len = Some ht"
  by (simp add: check_resize_def Let_def not_le [symmetric])

text \<open>An add that walks past one node.\<close>

lemma cds_lfht_add_second:
  assumes sz: "t_size ht \<noteq> 0"
    and lk: "lookup_bucket (t_size ht) (hash_fct ht (node_key (mem ht node)) (hash_seed ht))
        = Some b"
    and b: "b \<noteq> node" "rhash ht b \<le> rhash (hashed ht node) node"
    and c: "unflagged (next_of ht b) = Some c" "c \<noteq> node"
      "rhash ht c \<le> rhash (hashed ht node) node" "\<not> REMOVED_FLAG (next_of ht c)"
    and d: "unflagged (next_of ht c) = None
        \<or> (\<exists>d. unflagged (next_of ht c) = Some d \<and> d \<noteq> node
              \<and> rhash (hashed ht node) node < rhash ht d)"
  shows "cds_lfht_add ht node
     = Some (set_next (set_next (hashed ht node) node (clear_flag (next_of ht c))) c
         (if is_dummy (next_of ht c) then flag_dummy (plain (Some node)) else plain (Some node)))"
proof -
  let ?ht1 = "hashed ht node"
  have sc2: "cds_lfht_add_scan ?ht1 (t_size ht) node ADD_DEFAULT False cl c (next_of ht c)
      = Some (?ht1, Add_insert c (next_of ht c))" for cl
    using d c(2) by (subst cds_lfht_add_scan.simps) auto
  have one: "(1 :: 32 word) < CHAIN_LEN_RESIZE_THRESHOLD"
    by (simp add: CHAIN_LEN_RESIZE_THRESHOLD_def)
  have sc: "cds_lfht_add_scan ?ht1 (t_size ht) node ADD_DEFAULT False 0 b (next_of ht b)
      = Some (?ht1, Add_insert c (next_of ht c))"
    using c
    by (subst cds_lfht_add_scan.simps)
      (auto simp add: sc2 check_resize_below [OF one] Let_def simp flip: not_le)
  have tg: "Some node \<noteq> unflagged (next_of ht c)" using d by auto
  have "cds_lfht_add_retry ?ht1 (t_size ht) node ADD_DEFAULT False b
     = Some (set_next (set_next ?ht1 node (clear_flag (next_of ht c))) c
         (if is_dummy (next_of ht c) then flag_dummy (plain (Some node)) else plain (Some node)),
         Some node)"
    using b c tg
    by (subst cds_lfht_add_retry.simps) (simp add: sc Let_def uatomic_cmpxchg_def)
  then show ?thesis
    using sz lk by (simp add: cds_lfht_add_eq cds_lfht_add'_def)
qed

text \<open>
  \<open>table_2\<close> is \<open>table_1\<close> after the adds of the nodes \<open>User 0\<close> and \<open>User 1\<close>, which both
  have the empty key.
\<close>

definition table_2 :: cds_lfht where
  "table_2 =
     \<lparr>mem = (\<lambda>a. zero_node)
        (Bucket 0 0 := zero_node\<lparr>p_next := flag_dummy (plain (Some (User 0)))\<rparr>,
         User 0 := zero_node\<lparr>p_next := plain (Some (User 1))\<rparr>),
      t_size = 1, t_resize_target = 1, t_resize_initiated = False,
      hash_fct = zero_hash, compare_fct = key_compare, hash_seed = 0,
      flags = CDS_LFHT_AUTO_RESIZE, in_progress_resize = 0, in_progress_destroy = 0,
      ht_count = 0, call_rcu_queue = 0, heap_free = 3376\<rparr>"

lemmas table_2_eval = table_eval table_2_def zero_hash_def key_compare_def

lemma table_2_built:
  "\<exists>t1. cds_lfht_add table_1 (User 0) = Some t1
     \<and> cds_lfht_lookup t1 [] = Some \<lparr>iter_node = Some (User 0), iter_next = plain None\<rparr>
     \<and> cds_lfht_add t1 (User 1) = Some table_2"
proof -
  let ?b = "Bucket 0 0"
  define t1 where "t1 = set_next (set_next (hashed table_1 (User 0)) (User 0)
      (clear_flag (next_of table_1 ?b))) ?b (flag_dummy (plain (Some (User 0))))"
  have 1: "cds_lfht_add table_1 (User 0) = Some t1"
    unfolding t1_def
    by (subst cds_lfht_add_front [where b = ?b]) (simp_all add: table_2_eval)
  have "list_inv (mem t1) {0} [?b, User 0]"
    by (simp add: t1_def table_2_eval list_inv_def node_ok_def before_def bucket_index_def
        half_size_def)
  moreover have "t_size t1 = 2 ^ 0" by (simp add: t1_def table_2_eval)
  ultimately have i: "table_inv t1 [?b, User 0]"
    unfolding table_inv_def by (auto simp add: below_1 intro: exI [of _ 0])
  have 2: "cds_lfht_lookup t1 [] = Some \<lparr>iter_node = Some (User 0), iter_next = plain None\<rparr>"
    by (simp add: cds_lfht_lookup_eq [OF i] found_def) (simp add: t1_def table_2_eval)
  have "cds_lfht_add t1 (User 1)
      = Some (set_next (set_next (hashed t1 (User 1)) (User 1)
          (clear_flag (next_of t1 (User 0)))) (User 0) (plain (Some (User 1))))"
    by (subst cds_lfht_add_second [where b = ?b and c = "User 0"])
      (simp_all add: t1_def table_2_eval)
  also have "\<dots> = Some table_2"
    by (simp add: t1_def table_2_eval fun_eq_iff split: addr.splits)
  finally show ?thesis using 1 2 by blast
qed

lemma table_2_inv: "table_inv table_2 [Bucket 0 0, User 0, User 1]"
proof -
  have "list_inv (mem table_2) {0} [Bucket 0 0, User 0, User 1]"
    by (simp add: table_2_eval list_inv_def node_ok_def before_def bucket_index_def half_size_def)
  moreover have "t_size table_2 = 2 ^ 0" by (simp add: table_2_eval)
  ultimately show ?thesis
    unfolding table_inv_def by (auto simp add: below_1 intro: exI [of _ 0])
qed

section \<open>Replacing a node whose successor has changed\<close>




section \<open>Adding, deleting and looking up a key\<close>

lemma found_frame:
  assumes "static_eq ht ht'" "frame ht ht' S"
  shows "found ht' k a = found ht k a"
  using assms by (simp add: found_def static_eq_def frame_def)

lemma found_hashed: "a \<noteq> node \<Longrightarrow> found (hashed ht node) k a = found ht k a"
  by (simp add: found_def)

lemma found_hashed_node:
  assumes "\<not> is_bucket node" "compare_fct ht (node_key (mem ht node)) k = 0"
    "hash_fct ht (node_key (mem ht node)) (hash_seed ht) = hash_fct ht k (hash_seed ht)"
  shows "found (hashed ht node) k node"
  using assms by (simp add: found_def)

lemma find_none: "\<forall>a\<in>set xs. \<not> P a \<Longrightarrow> List.find P xs = None"
  by (simp add: find_None_iff)

text \<open>
  Claim C2, as the spec states it, says that after an add of a key, a successful delete with
  the iterator that a lookup of the key returns makes the next lookup of the key find
  nothing. \<^verbatim>\<open>cds_lfht_add\<close> adds a node whether or not its key is in the table. In
  \<open>table_2\<close> the nodes \<open>User 0\<close> and \<open>User 1\<close> both have the empty key: the lookup of that key
  returns \<open>User 0\<close>, the delete returns 0, and the next lookup returns \<open>User 1\<close>.
\<close>

theorem cds_lfht_del_duplicate_key:
  "\<exists>t1 it t3 it'.
     cds_lfht_add table_1 (User 0) = Some t1
   \<and> cds_lfht_add t1 (User 1) = Some table_2
   \<and> node_key (mem table_2 (User 0)) = [] \<and> node_key (mem table_2 (User 1)) = []
   \<and> cds_lfht_lookup table_2 [] = Some it
   \<and> iter_node it = Some (User 0)
   \<and> cds_lfht_del table_2 it = Some (t3, 0)
   \<and> cds_lfht_lookup t3 [] = Some it'
   \<and> iter_node it' = Some (User 1)"
proof -
  let ?xs = "[Bucket 0 0, User 0, User 1]"
  let ?it = "\<lparr>iter_node = Some (User 0), iter_next = plain (Some (User 1))\<rparr>"
  from table_2_built obtain t1 where
    1: "cds_lfht_add table_1 (User 0) = Some t1"
    and 2: "cds_lfht_add t1 (User 1) = Some table_2"
    by blast
  have 3: "node_key (mem table_2 (User 0)) = []" "node_key (mem table_2 (User 1)) = []"
    by (simp_all add: table_2_eval)
  have f: "\<not> found table_2 [] (Bucket 0 0)" "found table_2 [] (User 0)"
    "found table_2 [] (User 1)"
    by (simp_all add: found_def table_2_eval)
  have 4: "cds_lfht_lookup table_2 [] = Some ?it"
    by (simp add: cds_lfht_lookup_eq [OF table_2_inv] f) (simp add: table_2_eval)
  have "User 0 \<in> set ?xs" "\<not> is_bucket (User 0)" by simp_all
  from cds_lfht_del_linked [OF table_2_inv this, of "plain (Some (User 1))"]
  obtain t3 A B where
    5: "cds_lfht_del table_2 ?it = Some (t3, 0)"
    and x: "?xs = A @ User 0 # B" and i: "table_inv t3 (A @ B)"
    and st: "static_eq table_2 t3" and fr: "frame table_2 t3 (set ?xs)"
    by blast
  from x have "A = [Bucket 0 0] \<and> B = [User 1]" by (auto simp add: Cons_eq_append_conv)
  with i have i3: "table_inv t3 [Bucket 0 0, User 1]" by simp
  note ff = found_frame [OF st fr]
  have 6: "cds_lfht_lookup t3 []
      = Some \<lparr>iter_node = Some (User 1), iter_next = next_of t3 (User 1)\<rparr>"
    using f by (simp add: cds_lfht_lookup_eq [OF i3] ff)
  show ?thesis
    by (intro exI [of _ t1] exI [of _ ?it] exI [of _ t3]
        exI [of _ "\<lparr>iter_node = Some (User 1), iter_next = next_of t3 (User 1)\<rparr>"] conjI;
        (fact 1 2 3 4 5 6 | simp))
qed

text \<open>
  Claim C2, corrected. Let the table be in order and hold no node that a lookup of the key
  \<open>k\<close> finds, let \<open>node\<close> be a node of the caller with the key \<open>k\<close> that is not in the list,
  and let the comparison function find \<open>k\<close> equal to itself. Then \<^verbatim>\<open>cds_lfht_add\<close> returns,
  the lookup of \<open>k\<close> returns an iterator with \<open>node\<close>, \<^verbatim>\<open>cds_lfht_del\<close> with that iterator
  returns 0, and the next lookup of \<open>k\<close> returns an iterator whose node is \<^verbatim>\<open>NULL\<close>; the
  list is then as it was before the add.
\<close>

theorem cds_lfht_add_del_lookup:
  assumes inv: "table_inv ht xs" and node: "\<not> is_bucket node" "node \<notin> set xs"
    and key: "node_key (mem ht node) = k" "compare_fct ht k k = 0"
    and absent: "\<forall>a\<in>set xs. \<not> found ht k a"
  shows "\<exists>ht1 it ht2. cds_lfht_add ht node = Some ht1
     \<and> cds_lfht_lookup ht1 k = Some it \<and> iter_node it = Some node
     \<and> cds_lfht_del ht1 it = Some (ht2, 0)
     \<and> cds_lfht_lookup ht2 k = Some \<lparr>iter_node = None, iter_next = plain None\<rparr>
     \<and> table_inv ht2 xs"
proof -
  let ?h = "hashed ht node"
  have nm: "\<forall>a\<in>set xs. \<not> matches ?h node ADD_DEFAULT a" by (simp add: matches_def)
  from cds_lfht_add_insert [OF inv node nm] obtain ht1 A B where
    run: "cds_lfht_add' ?h (t_size ht) node ADD_DEFAULT False = Some (ht1, Some node)"
    and xs: "xs = A @ B" and i1: "table_inv ht1 (A @ node # B)"
    and st: "static_eq ht ht1" and fr: "frame ?h ht1 (insert node (set xs))"
    by auto
  have 1: "cds_lfht_add ht node = Some ht1" by (simp add: cds_lfht_add_eq run)
  have sth: "static_eq ?h ht1" using st by (simp add: static_eq_def)
  note f1 = found_frame [OF sth fr]
  have fn: "found ht1 k node"
    unfolding f1 using node(1) key by (intro found_hashed_node) simp_all
  have fa: "\<not> found ht1 k a" if "a \<in> set xs" for a
  proof -
    from that node(2) have "a \<noteq> node" by auto
    then show ?thesis using absent that by (simp add: f1 found_hashed)
  qed
  have "List.find (found ht1 k) A = None" using fa by (intro find_none) (simp add: xs)
  then have "List.find (found ht1 k) (A @ node # B) = Some node"
    by (simp add: find_append_None fn)
  then have 2: "cds_lfht_lookup ht1 k
      = Some \<lparr>iter_node = Some node, iter_next = next_of ht1 node\<rparr>"
    by (simp add: cds_lfht_lookup_eq [OF i1])
  have "node \<in> set (A @ node # B)" by simp
  from cds_lfht_del_linked [OF i1 this node(1), of "next_of ht1 node"] obtain ht2 A' B' where
    3: "cds_lfht_del ht1 \<lparr>iter_node = Some node, iter_next = next_of ht1 node\<rparr> = Some (ht2, 0)"
    and x: "A @ node # B = A' @ node # B'" and i2: "table_inv ht2 (A' @ B')"
    and st2: "static_eq ht1 ht2" and fr2: "frame ht1 ht2 (set (A @ node # B))"
    by blast
  have "node \<notin> set A" "node \<notin> set B" using node(2) xs by simp_all
  with x have "A = A' \<and> B = B'" by (simp add: append_Cons_eq_iff)
  with i2 xs have 5: "table_inv ht2 xs" by simp
  note f2 = found_frame [OF st2 fr2]
  have "List.find (found ht2 k) xs = None" using fa by (intro find_none) (simp add: f2)
  then have 4: "cds_lfht_lookup ht2 k = Some \<lparr>iter_node = None, iter_next = plain None\<rparr>"
    by (simp add: cds_lfht_lookup_eq [OF 5])
  show ?thesis
    by (intro exI [of _ ht1] exI [of _ "\<lparr>iter_node = Some node, iter_next = next_of ht1 node\<rparr>"]
        exI [of _ ht2] conjI; (fact 1 2 3 4 5 | simp))
qed

theorem cds_lfht_add_del_lookup_witness:
  "\<exists>ht1 it ht2.
     cds_lfht_add (cds_lfht_node_init table_3 (User 5) [0, 0, 0, 0, 0]) (User 5) = Some ht1
     \<and> cds_lfht_lookup ht1 [0, 0, 0, 0, 0] = Some it \<and> iter_node it = Some (User 5)
     \<and> cds_lfht_del ht1 it = Some (ht2, 0)
     \<and> cds_lfht_lookup ht2 [0, 0, 0, 0, 0] = Some \<lparr>iter_node = None, iter_next = plain None\<rparr>
     \<and> table_inv ht2 [Bucket 0 0, User 2, User 3, User 4]"
proof -
  let ?ht = "cds_lfht_node_init table_3 (User 5) [0, 0, 0, 0, 0]"
  let ?xs = "[Bucket 0 0, User 2, User 3, User 4]"
  have n: "\<not> is_bucket (User 5)" "User 5 \<notin> set ?xs" by simp_all
  have k: "node_key (mem ?ht (User 5)) = [0, 0, 0, 0, 0]"
    "compare_fct ?ht [0, 0, 0, 0, 0] [0, 0, 0, 0, 0] = 0"
    by (simp_all add: table_eval key_compare_def)
  have "\<not> (\<exists>a\<in>set ?xs. found ?ht [0, 0, 0, 0, 0] a)"
    by (simp add: found_def table_eval)
  then have a: "\<forall>a\<in>set ?xs. \<not> found ?ht [0, 0, 0, 0, 0] a" by blast
  from cds_lfht_add_del_lookup [OF table_3_inv n k a] show ?thesis .
qed

section \<open>Adding a key that is in the table\<close>

lemma get_count_order_u32_3: "get_count_order_u32 3 = 2"
proof -
  from get_count_order_u32_ceil_log2 [of 3] obtain g where
    "get_count_order_u32 3 = int g" "is_ceil_log2 g (unat (3 :: 32 word))"
    by auto
  then show ?thesis by (simp add: is_ceil_log2_3)
qed

text \<open>One turn of the loop of \<^verbatim>\<open>_cds_lfht_add\<close>, past a node that counts or to a match.\<close>

lemma cds_lfht_add_scan_pass:
  assumes "unflagged iter = Some c" "\<not> rhash ht node < rhash ht c"
    "\<not> REMOVED_FLAG (next_of ht c)" "\<not> matches ht node mode c"
    "rhash ht ip \<noteq> rhash ht c" "\<not> DUMMY_FLAG (next_of ht c)"
    and "check_resize ht sz (cl + 1) = Some ht1"
    and "cds_lfht_add_scan ht1 sz node mode False (cl + 1) c (next_of ht c) = r"
  shows "cds_lfht_add_scan ht sz node mode False cl ip iter = r"
  using assms by (subst cds_lfht_add_scan.simps) (auto simp add: matches_def)

lemma cds_lfht_add_scan_match:
  assumes "unflagged iter = Some c" "\<not> rhash ht node < rhash ht c"
    "\<not> REMOVED_FLAG (next_of ht c)" "matches ht node mode c"
  shows "cds_lfht_add_scan ht sz node mode False cl ip iter
     = Some (ht, Add_match c (next_of ht c))"
  using assms by (subst cds_lfht_add_scan.simps) (auto simp add: matches_def)

text \<open>\<open>table_4\<close> is \<open>table_3\<close> after the add of a node with a key of the length 1.\<close>

definition table_4 :: cds_lfht where
  "table_4 =
     \<lparr>mem = (\<lambda>a. zero_node)
        (Bucket 0 0 := zero_node\<lparr>p_next := flag_dummy (plain (Some (User 1)))\<rparr>,
         User 1 := \<lparr>p_next = plain (Some (User 2)), p_reverse_hash = 1, node_key = [0]\<rparr>,
         User 2 := \<lparr>p_next = plain (Some (User 3)), p_reverse_hash = 2, node_key = [0, 0]\<rparr>,
         User 3 := \<lparr>p_next = plain (Some (User 4)), p_reverse_hash = 3, node_key = [0, 0, 0]\<rparr>,
         User 4 := \<lparr>p_next = plain None, p_reverse_hash = 4, node_key = [0, 0, 0, 0]\<rparr>),
      t_size = 1, t_resize_target = 1, t_resize_initiated = False,
      hash_fct = length_hash, compare_fct = key_compare, hash_seed = 0,
      flags = CDS_LFHT_AUTO_RESIZE, in_progress_resize = 0, in_progress_destroy = 0,
      ht_count = 0, call_rcu_queue = 0, heap_free = 3376\<rparr>"

lemma table_4_built:
  "cds_lfht_add (cds_lfht_node_init table_3 (User 1) [0]) (User 1) = Some table_4"
proof -
  let ?b = "Bucket 0 0"
  let ?init = "cds_lfht_node_init table_3 (User 1) [0]"
  have "cds_lfht_add ?init (User 1)
      = Some (set_next (set_next (hashed ?init (User 1)) (User 1)
          (clear_flag (next_of ?init ?b))) ?b (flag_dummy (plain (Some (User 1)))))"
    by (subst cds_lfht_add_front [where b = ?b]) (simp_all add: table_eval)
  also have "\<dots> = Some table_4"
    by (simp add: table_eval table_4_def fun_eq_iff split: addr.splits)
  finally show ?thesis .
qed

lemma table_4_unique:
  "\<exists>ht'. cds_lfht_add_unique (cds_lfht_node_init table_4 (User 5) [0, 0, 0, 0]) (User 5)
         = Some (ht', Some (User 4))
     \<and> t_resize_target ht' = 4 \<and> t_resize_initiated ht' \<and> in_progress_resize ht' = 1
     \<and> call_rcu_queue ht' = 1"
proof -
  let ?b = "Bucket 0 0"
  let ?init = "cds_lfht_node_init table_4 (User 5) [0, 0, 0, 0]"
  let ?h = "hashed ?init (User 5)"
  define h' where "h' = ?h\<lparr>t_resize_target := 4, in_progress_resize := 1, call_rcu_queue := 1,
      t_resize_initiated := True\<rparr>"
  note ev = table_eval table_4_def key_compare_def matches_def
  have c1: "check_resize ?h 1 (0 + 1) = Some ?h"
    and c2: "check_resize ?h 1 (0 + 1 + 1) = Some ?h"
    by (simp_all add: check_resize_below CHAIN_LEN_RESIZE_THRESHOLD_def word_less_nat_alt)
  have c3: "check_resize ?h 1 (0 + 1 + 1 + 1) = Some h'"
    by (simp add: check_resize_def cds_lfht_resize_lazy_eq Let_def h'_def ev
        CDS_LFHT_AUTO_RESIZE_def COUNT_COMMIT_ORDER_def CHAIN_LEN_RESIZE_THRESHOLD_def
        CHAIN_LEN_TARGET_def get_count_order_u32_3 word_le_nat_alt word_less_nat_alt)
  have s4: "cds_lfht_add_scan h' 1 (User 5) ADD_UNIQUE False (0 + 1 + 1 + 1) (User 3)
      (next_of ?h (User 3)) = Some (h', Add_match (User 4) (next_of h' (User 4)))"
    by (rule cds_lfht_add_scan_match) (simp_all add: h'_def ev)
  have s3: "cds_lfht_add_scan ?h 1 (User 5) ADD_UNIQUE False (0 + 1 + 1) (User 2)
      (next_of ?h (User 2)) = Some (h', Add_match (User 4) (next_of h' (User 4)))"
    by (rule cds_lfht_add_scan_pass [where c = "User 3", OF _ _ _ _ _ _ c3 s4])
      (simp_all add: ev)
  have s2: "cds_lfht_add_scan ?h 1 (User 5) ADD_UNIQUE False (0 + 1) (User 1)
      (next_of ?h (User 1)) = Some (h', Add_match (User 4) (next_of h' (User 4)))"
    by (rule cds_lfht_add_scan_pass [where c = "User 2", OF _ _ _ _ _ _ c2 s3])
      (simp_all add: ev)
  have s1: "cds_lfht_add_scan ?h 1 (User 5) ADD_UNIQUE False 0 ?b (next_of ?h ?b)
      = Some (h', Add_match (User 4) (next_of h' (User 4)))"
    by (rule cds_lfht_add_scan_pass [where c = "User 1", OF _ _ _ _ _ _ c1 s2])
      (simp_all add: ev)
  have "cds_lfht_add_retry ?h 1 (User 5) ADD_UNIQUE False ?b = Some (h', Some (User 4))"
    by (subst cds_lfht_add_retry.simps) (simp only: Let_def s1, simp add: ev)
  then have "cds_lfht_add_unique ?init (User 5) = Some (h', Some (User 4))"
    by (simp add: cds_lfht_add_unique_eq cds_lfht_add'_def lookup_bucket_1 ev)
  moreover have "t_resize_target h' = 4" "t_resize_initiated h'" "in_progress_resize h' = 1"
    "call_rcu_queue h' = 1"
    by (simp_all add: h'_def)
  ultimately show ?thesis by blast
qed

lemma find_first: "\<forall>a\<in>set A. \<not> P a \<Longrightarrow> P c \<Longrightarrow> List.find P (A @ c # B) = Some c"
  by (simp add: find_append_None find_none)

lemma table_4_seg:
  "seg (mem table_4) (Some (Bucket 0 0)) [Bucket 0 0, User 1, User 2, User 3, User 4] None"
  by (simp add: table_4_def table_eval)

text \<open>
  Claim C3, as the spec states it, says that \<^verbatim>\<open>cds_lfht_add_unique\<close> of a key that is in
  the table makes no change. On its way to the node with the key, \<^verbatim>\<open>_cds_lfht_add\<close> counts
  the nodes that it walks past and calls \<^verbatim>\<open>check_resize\<close>. In \<open>table_4\<close>, which has
  auto-resize set, the node \<open>User 4\<close> with a key of the length 4 stands behind three nodes
  with other reverse hashes, and no resize is scheduled. \<^verbatim>\<open>cds_lfht_add_unique\<close> of a
  node with that key returns \<open>User 4\<close>, and it has scheduled a resize: the resize target is 4
  and not 1, the resize is initiated, one is in progress and one is handed to
  \<^verbatim>\<open>call_rcu\<close>.
\<close>

theorem cds_lfht_add_unique_schedules_resize:
  "\<exists>ht'.
     cds_lfht_add (cds_lfht_node_init table_3 (User 1) [0]) (User 1) = Some table_4
   \<and> seg (mem table_4) (Some (Bucket 0 0)) [Bucket 0 0, User 1, User 2, User 3, User 4] None
   \<and> node_key (mem table_4 (User 4)) = [0, 0, 0, 0]
   \<and> t_resize_target table_4 = 1 \<and> \<not> t_resize_initiated table_4
   \<and> in_progress_resize table_4 = 0 \<and> call_rcu_queue table_4 = 0
   \<and> cds_lfht_add_unique (cds_lfht_node_init table_4 (User 5) [0, 0, 0, 0]) (User 5)
       = Some (ht', Some (User 4))
   \<and> t_resize_target ht' = 4 \<and> t_resize_initiated ht' \<and> in_progress_resize ht' = 1
   \<and> call_rcu_queue ht' = 1"
proof -
  from table_4_unique obtain ht' where
    1: "cds_lfht_add_unique (cds_lfht_node_init table_4 (User 5) [0, 0, 0, 0]) (User 5)
         = Some (ht', Some (User 4))"
    and 2: "t_resize_target ht' = 4" "t_resize_initiated ht'" "in_progress_resize ht' = 1"
      "call_rcu_queue ht' = 1"
    by blast
  have 3: "node_key (mem table_4 (User 4)) = [0, 0, 0, 0]"
    "t_resize_target table_4 = 1" "\<not> t_resize_initiated table_4"
    "in_progress_resize table_4 = 0" "call_rcu_queue table_4 = 0"
    by (simp_all add: table_4_def)
  show ?thesis
    by (intro exI [of _ ht'] conjI; fact table_4_built table_4_seg 1 2 3)
qed

text \<open>
  Claim C3, corrected. Let the table be in order and \<open>n1\<close> a node of the caller that is not
  in the list. If the list holds a node that the key comparison of \<^verbatim>\<open>ADD_UNIQUE\<close> finds
  equal to \<open>n1\<close> (no dummy node, the reverse hash of the key of \<open>n1\<close>, and \<^verbatim>\<open>compare_fct\<close>
  returns 0), then \<^verbatim>\<open>cds_lfht_add_unique\<close> returns the first such node of the list. The
  list, the memory of its nodes and the size are as before; the table differs from the one
  before at most in the reverse hash stored in \<open>n1\<close> and in the resize target, the initiated
  flag, the count of resizes in progress and the queue of \<^verbatim>\<open>call_rcu\<close>, and not in these
  either if auto-resize is off. If the list holds no such node, and \<open>n2\<close> is a second node
  of the caller with the key of \<open>n1\<close>, which the comparison function finds equal to itself,
  then \<^verbatim>\<open>cds_lfht_add_unique\<close> of \<open>n1\<close> returns \<open>n1\<close>, \<^verbatim>\<open>cds_lfht_add_unique\<close> of \<open>n2\<close> after
  it returns \<open>n1\<close> too, and \<^verbatim>\<open>cds_lfht_count_nodes\<close> counts one node more than before the
  two calls.
\<close>

theorem cds_lfht_add_unique_existing:
  assumes inv: "table_inv ht xs" and n1: "\<not> is_bucket n1" "n1 \<notin> set xs"
  shows "((\<exists>c\<in>set xs. matches (hashed ht n1) n1 ADD_UNIQUE c) \<longrightarrow>
            (\<exists>ht' c. cds_lfht_add_unique ht n1 = Some (ht', Some c)
                \<and> List.find (matches (hashed ht n1) n1 ADD_UNIQUE) xs = Some c
                \<and> table_inv ht' xs \<and> resched (hashed ht n1) ht'
                \<and> (quiet ht xs \<longrightarrow> ht' = hashed ht n1)))
       \<and> ((\<forall>c\<in>set xs. \<not> matches (hashed ht n1) n1 ADD_UNIQUE c)
            \<and> \<not> is_bucket n2 \<and> n2 \<notin> set xs \<and> n2 \<noteq> n1
            \<and> node_key (mem ht n2) = node_key (mem ht n1)
            \<and> compare_fct ht (node_key (mem ht n1)) (node_key (mem ht n1)) = 0 \<longrightarrow>
            (\<exists>ht1 ht2 cnt. cds_lfht_add_unique ht n1 = Some (ht1, Some n1)
                \<and> cds_lfht_add_unique ht1 n2 = Some (ht2, Some n1)
                \<and> cds_lfht_count_nodes ht = Some (cnt, 0)
                \<and> cds_lfht_count_nodes ht2 = Some (cnt + 1, 0)))"
proof (intro conjI impI)
  let ?h = "hashed ht n1"
  assume ex: "\<exists>c\<in>set xs. matches ?h n1 ADD_UNIQUE c"
  from cds_lfht_add_found [OF inv n1 ex] obtain ht' A c B where
    xs: "xs = A @ c # B" and nm: "\<forall>a\<in>set A. \<not> matches ?h n1 ADD_UNIQUE a"
    and m: "matches ?h n1 ADD_UNIQUE c"
    and run: "cds_lfht_add' ?h (t_size ht) n1 ADD_UNIQUE False = Some (ht', Some c)"
    and qu: "quiet ht xs \<longrightarrow> resize_eq ht ht'"
    and i: "if ADD_UNIQUE = ADD_UNIQUE then resched ?h ht'
            else table_inv ht' (A @ n1 # B)
                  \<and> frame ?h ht' (insert n1 (set xs))
                  \<and> next_of ht' c = flag_removed (plain (Some n1))
                  \<and> next_of ht' n1 = clear_flag (next_of ht c)"
    by (elim exE conjE) (rule that)
  from i have rs: "resched ?h ht'" by simp
  have 1: "cds_lfht_add_unique ht n1 = Some (ht', Some c)"
    by (simp add: cds_lfht_add_unique_eq run)
  have 2: "List.find (matches ?h n1 ADD_UNIQUE) xs = Some c"
    unfolding xs using nm m by (rule find_first)
  have 3: "table_inv ht' xs"
    using table_inv_hashed [OF inv n1(2)] rs by (rule table_inv_resched)
  have 4: "quiet ht xs \<longrightarrow> ht' = ?h"
  proof
    assume "quiet ht xs"
    with qu have "resize_eq ?h ht'" by (simp add: resize_eq_def)
    with rs show "ht' = ?h" by (rule resched_resize_eq)
  qed
  show "\<exists>ht' c. cds_lfht_add_unique ht n1 = Some (ht', Some c)
                \<and> List.find (matches ?h n1 ADD_UNIQUE) xs = Some c
                \<and> table_inv ht' xs \<and> resched ?h ht'
                \<and> (quiet ht xs \<longrightarrow> ht' = ?h)"
    using 1 2 3 rs 4 by blast
next
  let ?h = "hashed ht n1"
  let ?k = "node_key (mem ht n1)"
  assume a: "(\<forall>c\<in>set xs. \<not> matches ?h n1 ADD_UNIQUE c)
            \<and> \<not> is_bucket n2 \<and> n2 \<notin> set xs \<and> n2 \<noteq> n1
            \<and> node_key (mem ht n2) = ?k \<and> compare_fct ht ?k ?k = 0"
  then have nm: "\<forall>c\<in>set xs. \<not> matches ?h n1 ADD_UNIQUE c"
    and n2: "\<not> is_bucket n2" "n2 \<notin> set xs" "n2 \<noteq> n1"
    and k2: "node_key (mem ht n2) = ?k" and kk: "compare_fct ht ?k ?k = 0"
    by simp_all
  from cds_lfht_add_insert [OF inv n1 nm] obtain ht1 A B where
    run1: "cds_lfht_add' ?h (t_size ht) n1 ADD_UNIQUE False = Some (ht1, Some n1)"
    and xs: "xs = A @ B" and i1: "table_inv ht1 (A @ n1 # B)"
    and st1: "static_eq ht ht1" and fr1: "frame ?h ht1 (insert n1 (set xs))"
    by auto
  have 1: "cds_lfht_add_unique ht n1 = Some (ht1, Some n1)"
    by (simp add: cds_lfht_add_unique_eq run1)
  let ?g = "hashed ht1 n2"
  have n2': "n2 \<notin> set (A @ n1 # B)" using n2(2,3) xs by simp
  have rh: "rhash ht1 b = rhash ?h b" and ky: "node_key (mem ht1 b) = node_key (mem ht b)" for b
    using fr1 by (simp_all add: frame_def)
  have sf: "hash_fct ht1 = hash_fct ht" "compare_fct ht1 = compare_fct ht"
    "hash_seed ht1 = hash_seed ht" "t_size ht1 = t_size ht"
    using st1 by (simp_all add: static_eq_def)
  have r2: "rhash ?g n2 = rhash ?h n1" by (simp add: sf ky k2)
  have li: "list_inv (mem ht) {d. d < t_size ht} xs"
    and li1: "list_inv (mem ht1) {d. d < t_size ht1} (A @ n1 # B)"
    using inv i1 by (simp_all add: table_inv_def)
  have d: "DUMMY_FLAG (next_of ht b) = is_bucket b" if "b \<in> set xs" for b
    using list_inv_node_ok [OF li that] by (simp add: node_ok_def next_of_def)
  have d1: "DUMMY_FLAG (next_of ht1 b) = is_bucket b" if "b \<in> set (A @ n1 # B)" for b
    using list_inv_node_ok [OF li1 that] by (simp add: node_ok_def next_of_def)
  have same: "matches ?g n2 ADD_UNIQUE b = matches ?h n1 ADD_UNIQUE b" if "b \<in> set xs" for b
  proof -
    from that n1(2) n2(2) have ne: "b \<noteq> n1" "b \<noteq> n2" by auto
    from that have "b \<in> set (A @ n1 # B)" by (simp add: xs)
    then show ?thesis
      using ne d [OF that] d1 [of b] by (simp add: matches_def r2 rh sf ky k2)
  qed
  have m1: "matches ?g n2 ADD_UNIQUE n1"
    using d1 [of n1] n1(1) n2(3) by (simp add: matches_def r2 rh sf ky k2 kk)
  have nmA: "\<forall>a\<in>set A. \<not> matches ?g n2 ADD_UNIQUE a" using nm same by (simp add: xs)
  have f1: "List.find (matches ?g n2 ADD_UNIQUE) (A @ n1 # B) = Some n1"
    using nmA m1 by (rule find_first)
  have ex: "\<exists>a\<in>set (A @ n1 # B). matches ?g n2 ADD_UNIQUE a" using m1 by auto
  from cds_lfht_add_found [OF i1 n2(1) n2' ex] obtain ht2 A' c B' where
    x: "A @ n1 # B = A' @ c # B'" and nm': "\<forall>a\<in>set A'. \<not> matches ?g n2 ADD_UNIQUE a"
    and m': "matches ?g n2 ADD_UNIQUE c"
    and run2: "cds_lfht_add' ?g (t_size ht1) n2 ADD_UNIQUE False = Some (ht2, Some c)"
    and i: "if ADD_UNIQUE = ADD_UNIQUE then resched ?g ht2
            else table_inv ht2 (A' @ n2 # B')
                  \<and> frame ?g ht2 (insert n2 (set (A @ n1 # B)))
                  \<and> next_of ht2 c = flag_removed (plain (Some n2))
                  \<and> next_of ht2 n2 = clear_flag (next_of ht1 c)"
    by (elim exE conjE) (rule that)
  have "List.find (matches ?g n2 ADD_UNIQUE) (A' @ c # B') = Some c"
    using nm' m' by (rule find_first)
  with f1 x have c: "c = n1" by simp
  have 2: "cds_lfht_add_unique ht1 n2 = Some (ht2, Some n1)"
    using run2 by (simp add: cds_lfht_add_unique_eq c)
  from i have rs: "resched ?g ht2" by simp
  have i2: "table_inv ht2 (A @ n1 # B)"
    using table_inv_hashed [OF i1 n2'] rs by (rule table_inv_resched)
  let ?cnt = "length (filter (\<lambda>a. \<not> is_bucket a) xs)"
  have 3: "cds_lfht_count_nodes ht = Some (?cnt, 0)" using inv by (rule cds_lfht_count_nodes_eq)
  have 4: "cds_lfht_count_nodes ht2 = Some (?cnt + 1, 0)"
    using n1(1) by (simp add: cds_lfht_count_nodes_eq [OF i2] xs)
  show "\<exists>ht1 ht2 cnt. cds_lfht_add_unique ht n1 = Some (ht1, Some n1)
                \<and> cds_lfht_add_unique ht1 n2 = Some (ht2, Some n1)
                \<and> cds_lfht_count_nodes ht = Some (cnt, 0)
                \<and> cds_lfht_count_nodes ht2 = Some (cnt + 1, 0)"
    using 1 2 3 4 by blast
qed

theorem cds_lfht_add_unique_existing_witness:
  "(\<exists>ht'. cds_lfht_add_unique table_2 (User 2) = Some (ht', Some (User 0))
       \<and> table_inv ht' [Bucket 0 0, User 0, User 1] \<and> resched (hashed table_2 (User 2)) ht')
   \<and> (\<exists>ht1 ht2. cds_lfht_add_unique table_1 (User 0) = Some (ht1, Some (User 0))
       \<and> cds_lfht_add_unique ht1 (User 1) = Some (ht2, Some (User 0))
       \<and> cds_lfht_count_nodes table_1 = Some (0, 0)
       \<and> cds_lfht_count_nodes ht2 = Some (1, 0))"
proof
  let ?xs = "[Bucket 0 0, User 0, User 1]"
  let ?P = "matches (hashed table_2 (User 2)) (User 2) ADD_UNIQUE"
  have n: "\<not> is_bucket (User 2)" "User 2 \<notin> set ?xs" by simp_all
  have m: "\<not> ?P (Bucket 0 0)" "?P (User 0)"
    by (simp_all add: matches_def table_2_eval)
  then have ex: "\<exists>c\<in>set ?xs. ?P c" by simp
  from cds_lfht_add_unique_existing [OF table_2_inv n, THEN conjunct1, rule_format, OF ex]
  obtain ht' c where
    1: "cds_lfht_add_unique table_2 (User 2) = Some (ht', Some c)"
    and 2: "List.find ?P ?xs = Some c"
    and 3: "table_inv ht' ?xs" "resched (hashed table_2 (User 2)) ht'"
    by blast
  from 2 m have "c = User 0" by simp
  with 1 3 show "\<exists>ht'. cds_lfht_add_unique table_2 (User 2) = Some (ht', Some (User 0))
       \<and> table_inv ht' ?xs \<and> resched (hashed table_2 (User 2)) ht'"
    by blast
next
  have n: "\<not> is_bucket (User 0)" "User 0 \<notin> set [Bucket 0 0]" by simp_all
  have h: "(\<forall>c\<in>set [Bucket 0 0]. \<not> matches (hashed table_1 (User 0)) (User 0) ADD_UNIQUE c)
      \<and> \<not> is_bucket (User 1) \<and> User 1 \<notin> set [Bucket 0 0] \<and> User 1 \<noteq> User 0
      \<and> node_key (mem table_1 (User 1)) = node_key (mem table_1 (User 0))
      \<and> compare_fct table_1 (node_key (mem table_1 (User 0)))
            (node_key (mem table_1 (User 0))) = 0"
    by (simp add: matches_def table_2_eval)
  from cds_lfht_add_unique_existing [OF table_1_inv n, THEN conjunct2, rule_format, OF h]
  obtain ht1 ht2 cnt where
    1: "cds_lfht_add_unique table_1 (User 0) = Some (ht1, Some (User 0))"
      "cds_lfht_add_unique ht1 (User 1) = Some (ht2, Some (User 0))"
    and 2: "cds_lfht_count_nodes table_1 = Some (cnt, 0)"
      "cds_lfht_count_nodes ht2 = Some (cnt + 1, 0)"
    by blast
  from 2(1) have "cnt = 0" by (simp add: cds_lfht_count_nodes_eq [OF table_1_inv])
  with 1 2 show "\<exists>ht1 ht2. cds_lfht_add_unique table_1 (User 0) = Some (ht1, Some (User 0))
       \<and> cds_lfht_add_unique ht1 (User 1) = Some (ht2, Some (User 0))
       \<and> cds_lfht_count_nodes table_1 = Some (0, 0)
       \<and> cds_lfht_count_nodes ht2 = Some (1, 0)"
    by auto
qed

end
